(* ===== verification/Prelude.thy ===== *)
theory Prelude
  imports Complex_Main "HOL-Library.Multiset" "HOL-Library.Word"
begin

text \<open>
  The shared ground of the development: the collections of facts the component theories add to,
  the names of the types every component uses, and generic lemmas on lists that the components'
  proofs share.
\<close>

section \<open>Names and collections\<close>

text \<open>
  \<open>upd_simps\<close> collects the equations that say what an operation does to a field of the state
  (and which fields it leaves alone); \<open>inv_intros\<close> collects the preservation facts of the
  component invariants.
\<close>

named_theorems upd_simps
named_theorems inv_intros

type_synonym counter = "64 word"

text \<open>A Go string is a sequence of bytes, which is what HOL's \<open>char\<close> list is.\<close>

type_synonym gostring = string

section \<open>Lists\<close>

text \<open>
  The loop \<open>for len(merged) > n { drop the last }\<close> of the two requeue functions of agent.go
  cuts a list to its first \<open>n\<close> elements; both views are used, so the equation is stated once.
\<close>

lemma butlast_take_Suc: "n < length xs \<Longrightarrow> butlast (take (Suc n) xs) = take n xs"
  by (simp add: butlast_take)

lemma mset_take_drop: "mset (take n xs) + mset (drop n xs) = mset xs"
  by (metis append_take_drop_id mset_append)

lemma set_take_drop: "set (take n xs) \<union> set (drop n xs) = set xs"
  by (metis append_take_drop_id set_append)

lemma length_take_le_drop:
  "n \<le> length xs \<Longrightarrow> length (take n xs) + length (drop n xs) = length xs"
  by simp

lemma half_less: "\<not> length xs \<le> 1 \<Longrightarrow> length (take (length xs div 2) xs) < length xs"
  by (auto simp: not_le)

lemma half_less': "\<not> length xs \<le> 1 \<Longrightarrow> length (drop (length xs div 2) xs) < length xs"
  by (auto simp: not_le)

lemma halves_nonempty:
  "\<not> length xs \<le> 1 \<Longrightarrow> take (length xs div 2) xs \<noteq> [] \<and> drop (length xs div 2) xs \<noteq> []"
  by (auto simp: not_le)

lemma of_nat_length_append [simp]:
  "of_nat (length (xs @ ys)) = (of_nat (length xs) + of_nat (length ys) :: 64 word)"
  by simp

text \<open>The last \<open>n\<close> elements, as the slice expression \<open>s[len(s)-n:]\<close>.\<close>

definition last_n :: "nat \<Rightarrow> 'a list \<Rightarrow> 'a list" where
  "last_n n xs = drop (length xs - n) xs"

lemma length_last_n [simp]: "length (last_n n xs) = min n (length xs)"
  by (auto simp: last_n_def)

lemma last_n_all [simp]: "length xs \<le> n \<Longrightarrow> last_n n xs = xs"
  by (simp add: last_n_def)

text \<open>Keeping the last \<open>n\<close> at every step keeps the last \<open>n\<close> at the end; what is cut away adds up.\<close>

lemma last_n_split:
  assumes "n \<le> length xs"
  obtains A B where "xs = A @ B" "length B = n" "last_n n xs = B" "take (length xs - n) xs = A"
proof (rule that)
  show "xs = take (length xs - n) xs @ drop (length xs - n) xs" by simp
  show "length (drop (length xs - n) xs) = n" using assms by simp
qed (simp_all add: last_n_def)

lemma last_n_cut: "take (length (xs @ ys) - n) (xs @ ys)
    = take (length xs - n) xs @ take (length (last_n n xs @ ys) - n) (last_n n xs @ ys)"
proof (cases "n \<le> length xs")
  case True
  then show ?thesis by (rule last_n_split) simp
qed simp

lemma last_n_append: "last_n n (last_n n xs @ ys) = last_n n (xs @ ys)"
proof (cases "n \<le> length xs")
  case True
  then show ?thesis
  proof (rule last_n_split)
    fix A B
    assume "xs = A @ B" "length B = n" "last_n n xs = B"
    then show ?thesis by (simp add: last_n_def [of n "B @ ys"] last_n_def [of n "A @ B @ ys"])
  qed
qed simp

lemma last_n_snoc: "0 < n \<Longrightarrow> last_n n (last_n n xs @ [x]) = last_n n (xs @ [x])"
proof (cases "length xs \<le> n")
  case False
  assume "0 < n"
  with False have "length xs - n + 1 = length xs + 1 - n" by simp
  with False \<open>0 < n\<close> show ?thesis
    by (simp add: last_n_def add.commute)
qed simp

end
