(* ===== verification/GoNum.thy ===== *)
theory GoNum
  imports Prelude "HOL-Library.Log_Nat"
begin

text \<open>
  Go's numbers, as far as the agent uses them: the wrap-around of \<open>int64\<close>, the truncating
  division and remainder, instants and durations in nanoseconds, and \<open>float64\<close> with IEEE
  round-to-nearest-even.
\<close>

section \<open>Integers\<close>

abbreviation max_int64 :: int where "max_int64 \<equiv> 9223372036854775807"
abbreviation min_int64 :: int where "min_int64 \<equiv> -9223372036854775808"

text \<open>The value a signed 64-bit operation leaves when its exact result is \<open>x\<close>.\<close>

definition wrap64 :: "int \<Rightarrow> int" where
  "wrap64 x = (x + 2 ^ 63) mod 2 ^ 64 - 2 ^ 63"

lemma wrap64_id [simp]: "min_int64 \<le> x \<Longrightarrow> x \<le> max_int64 \<Longrightarrow> wrap64 x = x"
  by (simp add: wrap64_def)

lemma wrap64_bounds: "min_int64 \<le> wrap64 x \<and> wrap64 x \<le> max_int64"
proof -
  have "0 \<le> (x + 2 ^ 63) mod 2 ^ 64" and "(x + 2 ^ 63) mod 2 ^ 64 < (2 ^ 64 :: int)"
    by (rule pos_mod_sign, simp) (rule pos_mod_bound, simp)
  then show ?thesis by (simp add: wrap64_def)
qed

text \<open>Go's \<open>/\<close> and \<open>%\<close> truncate towards zero.\<close>

definition go_quot :: "int \<Rightarrow> int \<Rightarrow> int" where
  "go_quot a b = sgn a * sgn b * (\<bar>a\<bar> div \<bar>b\<bar>)"

definition go_rem :: "int \<Rightarrow> int \<Rightarrow> int" where
  "go_rem a b = a - b * go_quot a b"

lemma go_quot_nonneg [simp]: "0 \<le> a \<Longrightarrow> 0 < b \<Longrightarrow> go_quot a b = a div b"
  by (cases "a = 0") (simp_all add: go_quot_def)

lemma go_rem_nonneg [simp]: "0 \<le> a \<Longrightarrow> 0 < b \<Longrightarrow> go_rem a b = a mod b"
  by (simp add: go_rem_def minus_mult_div_eq_mod)

section \<open>Instants and durations\<close>

text \<open>
  A \<open>time.Time\<close> is the number of nanoseconds since January 1, year 1, 00:00 UTC, which is Go's
  zero time, so \<open>IsZero\<close> is equality with 0. A \<open>time.Duration\<close> is an int64 number of
  nanoseconds. \<open>Time.Sub\<close> saturates at the ends of int64.
\<close>

type_synonym gotime = int
type_synonym duration = int

abbreviation Second :: duration where "Second \<equiv> 1000000000"
abbreviation Millisecond :: duration where "Millisecond \<equiv> 1000000"

definition isZero :: "gotime \<Rightarrow> bool" where
  "isZero t \<longleftrightarrow> t = 0"

definition time_sub :: "gotime \<Rightarrow> gotime \<Rightarrow> duration" where
  "time_sub t u = max min_int64 (min max_int64 (t - u))"

lemma time_sub_less: "time_sub t u < d \<longleftrightarrow> t - u < d" if "min_int64 < d" "d \<le> max_int64"
  using that by (auto simp: time_sub_def)

lemma time_sub_ge: "d \<le> time_sub t u \<longleftrightarrow> d \<le> t - u" if "min_int64 < d" "d \<le> max_int64"
  using that by (auto simp: time_sub_def)

section \<open>float64\<close>

text \<open>
  A \<open>float64\<close> is a rational, an infinity or NaN (the sign of zero plays no part in what the agent
  computes). \<open>rnd64\<close> rounds an exact rational to the nearest representable one, ties to even:
  \<open>ilog2\<close> is the binary exponent, the spacing of the representable numbers there is
  \<open>2 powi max (e - 52) (-1074)\<close>, and what reaches \<open>2 ^ 1024\<close> overflows to an infinity.
\<close>

datatype f64 = Fin rat | PInf | NInf | NaN

definition rhe :: "rat \<Rightarrow> int" where
  "rhe x = (let f = \<lfloor>x\<rfloor>; d = x - of_int f in
     if d < 1/2 then f else if d > 1/2 then f + 1 else if even f then f else f + 1)"

definition ilog2 :: "rat \<Rightarrow> int" where
  "ilog2 r = (case quotient_of r of (p, q) \<Rightarrow>
     let k = bitlen p - bitlen q in if r < 2 powi k then k - 1 else k)"

definition ulp_exp :: "rat \<Rightarrow> int" where
  "ulp_exp r = max (ilog2 \<bar>r\<bar> - 52) (-1074)"

definition rnd64 :: "rat \<Rightarrow> f64" where
  "rnd64 r = (if r = 0 then Fin 0 else
     let u = ulp_exp r; v = of_int (rhe (r / 2 powi u)) * 2 powi u in
     if 2 ^ 1024 \<le> v then PInf else if v \<le> -(2 ^ 1024) then NInf else Fin v)"

definition f64_of_int :: "int \<Rightarrow> f64" where
  "f64_of_int n = rnd64 (of_int n)"

fun f64_neg :: "f64 \<Rightarrow> f64" where
  "f64_neg (Fin r) = Fin (- r)"
| "f64_neg PInf = NInf"
| "f64_neg NInf = PInf"
| "f64_neg NaN = NaN"

definition f64_sgn :: "f64 \<Rightarrow> int" where
  "f64_sgn x = (case x of Fin r \<Rightarrow> if r > 0 then 1 else if r < 0 then -1 else 0
     | PInf \<Rightarrow> 1 | NInf \<Rightarrow> -1 | NaN \<Rightarrow> 0)"

definition f64_inf :: "int \<Rightarrow> f64" where
  "f64_inf s = (if s > 0 then PInf else if s < 0 then NInf else NaN)"

definition f64_add :: "f64 \<Rightarrow> f64 \<Rightarrow> f64" where
  "f64_add x y = (case (x, y) of
     (Fin a, Fin b) \<Rightarrow> rnd64 (a + b)
   | (NaN, _) \<Rightarrow> NaN | (_, NaN) \<Rightarrow> NaN
   | (PInf, NInf) \<Rightarrow> NaN | (NInf, PInf) \<Rightarrow> NaN
   | (PInf, _) \<Rightarrow> PInf | (NInf, _) \<Rightarrow> NInf
   | (_, PInf) \<Rightarrow> PInf | (_, NInf) \<Rightarrow> NInf)"

definition f64_mul :: "f64 \<Rightarrow> f64 \<Rightarrow> f64" where
  "f64_mul x y = (case (x, y) of
     (Fin a, Fin b) \<Rightarrow> rnd64 (a * b)
   | (NaN, _) \<Rightarrow> NaN | (_, NaN) \<Rightarrow> NaN
   | _ \<Rightarrow> f64_inf (f64_sgn x * f64_sgn y))"

text \<open>Division is used only with a finite divisor other than zero; the other cases follow IEEE.\<close>

definition f64_div :: "f64 \<Rightarrow> f64 \<Rightarrow> f64" where
  "f64_div x y = (case (x, y) of
     (Fin a, Fin b) \<Rightarrow> if b = 0 then f64_inf (f64_sgn x) else rnd64 (a / b)
   | (NaN, _) \<Rightarrow> NaN | (_, NaN) \<Rightarrow> NaN
   | (Fin a, _) \<Rightarrow> Fin 0
   | (_, Fin b) \<Rightarrow> if b < 0 then f64_inf (- f64_sgn x) else f64_inf (f64_sgn x)
   | _ \<Rightarrow> NaN)"

text \<open>
  The comparisons, at the class that carries the signs and no laws: every comparison with NaN is false,
  so that the order is not even reflexive.
\<close>

definition f64_eq :: "f64 \<Rightarrow> f64 \<Rightarrow> bool" where
  "f64_eq x y \<longleftrightarrow> x \<noteq> NaN \<and> x = y"

instantiation f64 :: ord
begin

definition less_f64 :: "f64 \<Rightarrow> f64 \<Rightarrow> bool" where
  "less_f64 x y = (case (x, y) of
     (Fin a, Fin b) \<Rightarrow> a < b
   | (NInf, Fin _) \<Rightarrow> True | (NInf, PInf) \<Rightarrow> True | (Fin _, PInf) \<Rightarrow> True
   | _ \<Rightarrow> False)"

definition less_eq_f64 :: "f64 \<Rightarrow> f64 \<Rightarrow> bool" where
  "less_eq_f64 x y \<longleftrightarrow> x < y \<or> f64_eq x y"

instance ..

end

text \<open>
  The conversion \<open>int64(x)\<close> truncates towards zero. Where the value does not fit, the Go
  specification leaves the result to the implementation: \<open>oor\<close> is what this platform gives.
\<close>

definition f64_to_int64 :: "(f64 \<Rightarrow> int) \<Rightarrow> f64 \<Rightarrow> int" where
  "f64_to_int64 oor x = (case x of
     Fin r \<Rightarrow> (let t = (if r < 0 then \<lceil>r\<rceil> else \<lfloor>r\<rfloor>) in
       if min_int64 \<le> t \<and> t \<le> max_int64 then t else oor x)
   | _ \<Rightarrow> oor x)"

section \<open>Rounding\<close>

lemma rhe_of_int [simp]: "rhe (of_int n) = n"
  by (simp add: rhe_def Let_def)

lemma rhe_numeral [simp]: "rhe (numeral n) = numeral n"
  using rhe_of_int [of "numeral n"] by simp

lemma rhe_bounds: "\<lfloor>x\<rfloor> \<le> rhe x \<and> rhe x \<le> \<lfloor>x\<rfloor> + 1"
  by (simp add: rhe_def Let_def)

lemma rhe_ge: "of_int n \<le> x \<Longrightarrow> n \<le> rhe x"
  using rhe_bounds [of x] le_floor_iff [of n x] by linarith

lemma rhe_le: "x \<le> of_int n \<Longrightarrow> rhe x \<le> n"
proof (cases "x = of_int n")
  case False
  assume "x \<le> of_int n"
  with False have "\<lfloor>x\<rfloor> < n" by (simp add: floor_less_iff)
  with rhe_bounds [of x] show ?thesis by simp
qed simp

lemma ilog2_bounds:
  assumes "0 < r"
  shows "2 powi ilog2 r \<le> r" and "r < 2 powi (ilog2 r + 1)"
proof -
  obtain p q where pq: "quotient_of r = (p, q)" by fastforce
  have q: "0 < q" using quotient_of_denom_pos [OF pq] .
  have r: "r = of_int p / of_int q" using quotient_of_div [OF pq] .
  have p: "0 < p" using assms q r by (simp add: zero_less_divide_iff)
  define a where "a = nat (bitlen p - 1)"
  define b where "b = nat (bitlen q - 1)"
  have bp: "bitlen p = int a + 1" and bq: "bitlen q = int b + 1"
    using bitlen_bounds [OF p] bitlen_bounds [OF q] p q
    by (auto simp: a_def b_def) (smt (verit) bitlen_eq_zero_iff bitlen_nonneg)+
  have pl: "2 ^ a \<le> p" and pu: "p < 2 ^ (a + 1)"
    using bitlen_bounds [OF p] by (simp_all add: bp nat_add_distrib)
  have ql: "2 ^ b \<le> q" and qu: "q < 2 ^ (b + 1)"
    using bitlen_bounds [OF q] by (simp_all add: bq nat_add_distrib)
  have pl': "(2::rat) ^ a \<le> of_int p" and pu': "of_int p < (2::rat) ^ (a + 1)"
    using pl pu by (metis of_int_le_iff of_int_numeral of_int_power,
        metis of_int_less_iff of_int_numeral of_int_power)
  have ql': "(2::rat) ^ b \<le> of_int q" and qu': "of_int q < (2::rat) ^ (b + 1)"
    using ql qu by (metis of_int_le_iff of_int_numeral of_int_power,
        metis of_int_less_iff of_int_numeral of_int_power)
  let ?k = "int a - int b"
  have k: "(2::rat) powi ?k = 2 ^ a / 2 ^ b"
    by (simp add: power_int_diff)
  have up: "r < 2 powi (?k + 1)"
  proof -
    have "r < 2 ^ (a + 1) / of_int q" unfolding r using pu' q by (simp add: divide_strict_right_mono)
    also have "\<dots> \<le> 2 ^ (a + 1) / 2 ^ b" using ql' by (simp add: frac_le)
    also have "\<dots> = 2 powi (?k + 1)" by (simp add: power_int_add k)
    finally show ?thesis .
  qed
  have lo: "2 powi (?k - 1) \<le> r"
  proof -
    have "2 powi (?k - 1) = (2::rat) ^ a / 2 ^ (b + 1)" by (simp add: power_int_diff k)
    also have "\<dots> \<le> 2 ^ a / of_int q" using qu' q by (simp add: frac_le)
    also have "\<dots> \<le> r" unfolding r using pl' q by (simp add: divide_right_mono)
    finally show ?thesis .
  qed
  have il: "ilog2 r = (if r < 2 powi ?k then ?k - 1 else ?k)"
    by (simp add: ilog2_def pq Let_def bp bq)
  show "2 powi ilog2 r \<le> r" using lo il by (auto simp: not_less)
  show "r < 2 powi (ilog2 r + 1)" using up il by auto
qed

lemma powi_mono2: "i \<le> j \<Longrightarrow> (2::rat) powi i \<le> 2 powi j"
  by (simp add: power_int_increasing)

lemma ilog2_less: "0 < r \<Longrightarrow> r < 2 powi e \<Longrightarrow> ilog2 r < e"
  using ilog2_bounds(1) [of r] powi_mono2 [of e "ilog2 r"] by (meson leI le_less_trans order_trans not_le)

text \<open>
  A value on the grid of some exponent, with at most 53 significant bits, is representable:
  rounding leaves it alone, and no value beyond it is rounded to its other side.
\<close>

definition representable :: "rat \<Rightarrow> bool" where
  "representable c \<longleftrightarrow> (\<exists>m k. c = of_int m * 2 powi k \<and> \<bar>m\<bar> \<le> 2 ^ 53 \<and> -1074 \<le> k)"

lemma representableI:
  "c = of_int m * 2 powi k \<Longrightarrow> \<bar>m\<bar> \<le> 2 ^ 53 \<Longrightarrow> -1074 \<le> k \<Longrightarrow> representable c"
  by (auto simp: representable_def)

lemma representable_int: "\<bar>m\<bar> \<le> 2 ^ 53 \<Longrightarrow> representable (of_int m)"
  by (rule representableI [of _ m 0]) auto

text \<open>The multiples of the spacing that belongs to \<open>r\<close>.\<close>

definition on_grid :: "rat \<Rightarrow> rat \<Rightarrow> bool" where
  "on_grid c r \<longleftrightarrow> (\<exists>z::int. c = of_int z * 2 powi ulp_exp r)"

lemma rnd64_grid_ge:
  assumes "on_grid c r" "c \<le> r"
  shows "c \<le> of_int (rhe (r / 2 powi ulp_exp r)) * 2 powi ulp_exp r"
proof -
  let ?u = "(2::rat) powi ulp_exp r"
  have u: "0 < ?u" by simp
  from assms(1) obtain z where z: "c = of_int z * ?u" by (auto simp: on_grid_def)
  have "of_int z \<le> r / ?u" using assms(2) u z by (simp add: pos_le_divide_eq)
  then have "z \<le> rhe (r / ?u)" by (rule rhe_ge)
  then show ?thesis using u z by (simp add: mult_right_mono)
qed

lemma rnd64_grid_le:
  assumes "on_grid c r" "r \<le> c"
  shows "of_int (rhe (r / 2 powi ulp_exp r)) * 2 powi ulp_exp r \<le> c"
proof -
  let ?u = "(2::rat) powi ulp_exp r"
  have u: "0 < ?u" by simp
  from assms(1) obtain z where z: "c = of_int z * ?u" by (auto simp: on_grid_def)
  have "r / ?u \<le> of_int z" using assms(2) u z by (simp add: pos_divide_le_eq)
  then have "rhe (r / ?u) \<le> z" by (rule rhe_le)
  then show ?thesis using u z by (simp add: mult_right_mono)
qed

lemma on_gridI:
  assumes "c = of_int m * 2 powi k" "ulp_exp r \<le> k"
  shows "on_grid c r"
proof -
  have "c = of_int (m * 2 ^ nat (k - ulp_exp r)) * 2 powi ulp_exp r"
    using assms by (simp add: power_int_def [of _ "k - ulp_exp r", symmetric] flip: power_int_of_nat power_int_add)
  then show ?thesis unfolding on_grid_def by blast
qed

lemma ulp_exp_pos: "0 < r \<Longrightarrow> ulp_exp r = max (ilog2 r - 52) (-1074)"
  by (simp add: ulp_exp_def)

lemma representable_below_binade:
  fixes c r :: rat
  assumes "c = of_int m * 2 powi k" "\<bar>m\<bar> \<le> 2 ^ 53" "-1074 \<le> k" "\<not> ulp_exp r \<le> k" "0 < r"
  shows "c \<le> 2 powi ilog2 r" and "on_grid (2 powi ilog2 r) r"
proof -
  from assms(3-5) have u: "ulp_exp r = ilog2 r - 52" and k: "k + 53 \<le> ilog2 r"
    by (auto simp: ulp_exp_pos max_def split: if_splits)
  have "rat_of_int m \<le> of_int (2 ^ 53)" using assms(2) by (simp only: of_int_le_iff abs_le_iff)
  then have "rat_of_int m \<le> 2 ^ 53" by simp
  then have "c \<le> 2 ^ 53 * 2 powi k" unfolding assms(1) by (intro mult_right_mono) auto
  also have "\<dots> = 2 powi (k + 53)" by (simp add: power_int_add)
  also have "\<dots> \<le> 2 powi ilog2 r" using k by (rule powi_mono2)
  finally show "c \<le> 2 powi ilog2 r" .
  show "on_grid (2 powi ilog2 r) r" by (rule on_gridI [of _ 1 "ilog2 r"]) (auto simp: u)
qed

lemma rnd64_value_ge:
  assumes "representable c" "0 < r" "c \<le> r"
  shows "c \<le> of_int (rhe (r / 2 powi ulp_exp r)) * 2 powi ulp_exp r"
proof -
  from assms(1) obtain m k where c: "c = of_int m * 2 powi k" "\<bar>m\<bar> \<le> 2 ^ 53" "-1074 \<le> k"
    by (auto simp: representable_def)
  show ?thesis
  proof (cases "ulp_exp r \<le> k")
    case True
    show ?thesis by (rule rnd64_grid_ge [OF on_gridI [OF c(1) True] assms(3)])
  next
    case False
    note b = representable_below_binade [OF c False assms(2)]
    show ?thesis
      using rnd64_grid_ge [OF b(2) ilog2_bounds(1) [OF assms(2)]] b(1) by simp
  qed
qed

lemma rnd64_value_le:
  assumes "representable c" "0 < r" "r \<le> c"
  shows "of_int (rhe (r / 2 powi ulp_exp r)) * 2 powi ulp_exp r \<le> c"
proof -
  from assms(1) obtain m k where c: "c = of_int m * 2 powi k" "\<bar>m\<bar> \<le> 2 ^ 53" "-1074 \<le> k"
    by (auto simp: representable_def)
  show ?thesis
  proof (cases "ulp_exp r \<le> k")
    case True
    show ?thesis by (rule rnd64_grid_le [OF on_gridI [OF c(1) True] assms(3)])
  next
    case False
    note b = representable_below_binade [OF c False assms(2)]
    have "c = 2 powi ilog2 r" using b(1) ilog2_bounds(1) [OF assms(2)] assms(3) by simp
    then show ?thesis using rnd64_grid_le [OF b(2)] assms(3) by simp
  qed
qed

lemma f64_le_Fin [simp]: "Fin a \<le> Fin b \<longleftrightarrow> a \<le> b"
  by (auto simp: less_eq_f64_def less_f64_def f64_eq_def)

lemma f64_less_Fin [simp]: "Fin a < Fin b \<longleftrightarrow> a < b"
  by (simp add: less_f64_def)

lemma f64_Inf_simps [simp]:
  "Fin a \<le> PInf" "\<not> PInf \<le> Fin a" "Fin a < PInf" "\<not> PInf < x"
  "\<not> NaN < x" "\<not> x < NaN" "\<not> NaN \<le> x" "\<not> x \<le> NaN"
  "NInf < Fin a" "\<not> x < NInf" "\<not> Fin a \<le> NInf" "NInf \<le> Fin a"
  by (auto simp: less_eq_f64_def less_f64_def f64_eq_def split: f64.splits)

lemma f64_eq_Fin [simp]: "f64_eq (Fin a) (Fin b) \<longleftrightarrow> a = b" "\<not> f64_eq NaN x" "\<not> f64_eq x NaN"
  by (auto simp: f64_eq_def)

text \<open>Rounding is monotone at representable values: this is what every bound below uses.\<close>

lemma rnd64_ge: "representable c \<Longrightarrow> 0 < r \<Longrightarrow> c \<le> r \<Longrightarrow> 0 \<le> c \<Longrightarrow> Fin c \<le> rnd64 r"
  using rnd64_value_ge [of c r] by (auto simp: rnd64_def Let_def)

lemma rnd64_le: "representable c \<Longrightarrow> 0 < r \<Longrightarrow> r \<le> c \<Longrightarrow> c < 2 ^ 1024 \<Longrightarrow> rnd64 r \<le> Fin c"
  using rnd64_value_le [of c r] rnd64_value_ge [of 0 r] representable_int [of 0]
  by (auto simp: rnd64_def Let_def)

lemma rnd64_exact:
  assumes "representable c" "0 \<le> c" "c < 2 ^ 1024"
  shows "rnd64 c = Fin c"
proof (cases "c = 0")
  case False
  with assms(2) have p: "0 < c" by simp
  have "of_int (rhe (c / 2 powi ulp_exp c)) * 2 powi ulp_exp c = c"
    using rnd64_value_ge [OF assms(1) p] rnd64_value_le [OF assms(1) p] by simp
  with False assms(2,3) show ?thesis by (simp add: rnd64_def Let_def)
qed (simp add: rnd64_def)

lemma int53_small: "\<bar>m\<bar> \<le> 2 ^ 53 \<Longrightarrow> rat_of_int m < 2 ^ 1024"
proof -
  assume "\<bar>m\<bar> \<le> 2 ^ 53"
  then have "rat_of_int m \<le> of_int (2 ^ 53)" by (simp only: of_int_le_iff abs_le_iff)
  also have "(of_int (2 ^ 53) :: rat) < 2 ^ 1024" by simp
  finally show ?thesis .
qed

lemma f64_of_int_exact [simp]: "0 \<le> n \<Longrightarrow> n \<le> 2 ^ 53 \<Longrightarrow> f64_of_int n = Fin (of_int n)"
  unfolding f64_of_int_def using int53_small [of n] by (intro rnd64_exact representable_int) auto

lemma rnd64_nonneg: "0 < r \<Longrightarrow> Fin 0 \<le> rnd64 r"
  using rnd64_ge [of 0 r] representable_int [of 0] by simp

lemma rnd64_pos_cases:
  assumes "0 < r"
  obtains "rnd64 r = PInf" | v where "rnd64 r = Fin v" "0 \<le> v"
  using rnd64_nonneg [OF assms] by (cases "rnd64 r") (auto simp: less_eq_f64_def less_f64_def f64_eq_def)

end
