(* ===== verification/GoText.thy ===== *)
theory GoText
  imports GoNum "HOL-Library.Char_ord" "HOL-Library.List_Lexorder"
begin

text \<open>
  The functions of Go's packages strings, strconv and encoding/hex that the agent calls, on byte
  strings. White space is Unicode white space, recognised by its UTF-8 encoding.
\<close>

section \<open>Bytes\<close>

abbreviation code :: "char \<Rightarrow> nat" where "code \<equiv> of_char"

definition byte_in :: "nat \<Rightarrow> nat \<Rightarrow> char \<Rightarrow> bool" where
  "byte_in lo hi c \<longleftrightarrow> lo \<le> code c \<and> code c \<le> hi"

definition is_digit :: "char \<Rightarrow> bool" where
  "is_digit = byte_in 48 57"

definition digit_val :: "char \<Rightarrow> nat" where
  "digit_val c = code c - 48"

text \<open>\<open>lower\<close> of package strconv: sets bit 5, which maps the ASCII capitals to small letters.\<close>

definition lower_ascii :: "char \<Rightarrow> char" where
  "lower_ascii c = (if byte_in 65 90 c then char_of (code c + 32) else c)"

definition hex_val :: "char \<Rightarrow> nat option" where
  "hex_val c = (if is_digit c then Some (digit_val c)
     else if byte_in 97 102 (lower_ascii c) then Some (code (lower_ascii c) - 87) else None)"

section \<open>strings\<close>

text \<open>
  The length in bytes of the white-space rune a byte list starts with, 0 when it starts with
  another rune: the ASCII spaces, U+0085, U+00A0, U+1680, U+2000 to U+200A, U+2028, U+2029, U+202F,
  U+205F and U+3000.
\<close>

definition space2 :: "nat \<Rightarrow> nat \<Rightarrow> bool" where
  "space2 a b \<longleftrightarrow> a = 194 \<and> (b = 133 \<or> b = 160)"

definition space3 :: "nat \<Rightarrow> nat \<Rightarrow> nat \<Rightarrow> bool" where
  "space3 a b c \<longleftrightarrow> a = 225 \<and> b = 154 \<and> c = 128
     \<or> a = 226 \<and> b = 128 \<and> (128 \<le> c \<and> c \<le> 138 \<or> c = 168 \<or> c = 169 \<or> c = 175)
     \<or> a = 226 \<and> b = 129 \<and> c = 159 \<or> a = 227 \<and> b = 128 \<and> c = 128"

definition space1 :: "nat \<Rightarrow> bool" where
  "space1 a \<longleftrightarrow> 9 \<le> a \<and> a \<le> 13 \<or> a = 32"

fun space_len :: "nat list \<Rightarrow> nat" where
  "space_len (a # b # c # _) = (if space1 a then 1 else if space2 a b then 2
     else if space3 a b c then 3 else 0)"
| "space_len [a, b] = (if space1 a then 1 else if space2 a b then 2 else 0)"
| "space_len [a] = (if space1 a then 1 else 0)"
| "space_len [] = 0"

fun space_len_rev :: "nat list \<Rightarrow> nat" where
  "space_len_rev (a # b # c # _) = (if space1 a then 1 else if space2 b a then 2
     else if space3 c b a then 3 else 0)"
| "space_len_rev [a, b] = (if space1 a then 1 else if space2 b a then 2 else 0)"
| "space_len_rev [a] = (if space1 a then 1 else 0)"
| "space_len_rev [] = 0"

lemma space_len_le: "space_len xs \<le> length xs"
  by (cases xs rule: space_len.cases) auto

lemma space_len_rev_le: "space_len_rev xs \<le> length xs"
  by (cases xs rule: space_len_rev.cases) auto

function trim_by :: "(nat list \<Rightarrow> nat) \<Rightarrow> gostring \<Rightarrow> gostring" where
  "trim_by f s = (let n = f (map code s) in if n = 0 \<or> s = [] then s else trim_by f (drop n s))"
  by pat_completeness auto
termination
  by (relation "measure (\<lambda>(f, s). length s)") auto

declare trim_by.simps [simp del]

definition TrimSpace :: "gostring \<Rightarrow> gostring" where
  "TrimSpace s = rev (trim_by space_len_rev (rev (trim_by space_len s)))"

lemma trim_by_fixed: "f (map code s) = 0 \<Longrightarrow> trim_by f s = s"
  by (simp add: trim_by.simps)

lemma trim_by_result: "trim_by f s = [] \<or> f (map code (trim_by f s)) = 0"
proof (induction f s rule: trim_by.induct)
  case (1 f s)
  then show ?case
    by (cases "f (map code s) = 0 \<or> s = []") (auto simp: trim_by.simps [of f s] Let_def)
qed

definition TrimRight :: "gostring \<Rightarrow> char \<Rightarrow> gostring" where
  "TrimRight s c = rev (dropWhile ((=) c) (rev s))"

definition HasSuffix :: "gostring \<Rightarrow> gostring \<Rightarrow> bool" where
  "HasSuffix s sfx \<longleftrightarrow> length sfx \<le> length s \<and> drop (length s - length sfx) s = sfx"

definition TrimSuffix :: "gostring \<Rightarrow> gostring \<Rightarrow> gostring" where
  "TrimSuffix s sfx = (if HasSuffix s sfx then take (length s - length sfx) s else s)"

definition after_last :: "char \<Rightarrow> gostring \<Rightarrow> gostring" where
  "after_last c s = rev (takeWhile ((\<noteq>) c) (rev s))"

lemma HasSuffix_iff: "HasSuffix s sfx \<longleftrightarrow> (\<exists>p. s = p @ sfx)"
proof
  assume "HasSuffix s sfx"
  then have "s = take (length s - length sfx) s @ sfx"
    by (metis HasSuffix_def append_take_drop_id)
  then show "\<exists>p. s = p @ sfx" by blast
qed (auto simp: HasSuffix_def)

lemma TrimSuffix_append [simp]: "TrimSuffix (p @ sfx) sfx = p"
  by (simp add: TrimSuffix_def HasSuffix_iff)

lemma TrimRight_snoc_ne [simp]: "c \<noteq> d \<Longrightarrow> TrimRight (s @ [d]) c = s @ [d]"
  by (simp add: TrimRight_def)

lemma TrimRight_last: "TrimRight s c = [] \<or> last (TrimRight s c) \<noteq> c"
proof -
  have "\<And>xs. dropWhile ((=) c) xs = [] \<or> hd (dropWhile ((=) c) xs) \<noteq> c"
    by (metis (full_types) hd_dropWhile)
  from this [of "rev s"] show ?thesis by (auto simp: TrimRight_def last_rev)
qed

lemma TrimRight_append: "\<exists>n. s = TrimRight s c @ replicate n c"
proof -
  have "rev s = takeWhile ((=) c) (rev s) @ dropWhile ((=) c) (rev s)" by simp
  moreover have "takeWhile ((=) c) (rev s) = replicate (length (takeWhile ((=) c) (rev s))) c"
    by (intro replicate_eqI) (auto dest: set_takeWhileD)
  ultimately have "s = TrimRight s c @ replicate (length (takeWhile ((=) c) (rev s))) c"
    by (metis TrimRight_def rev_append rev_replicate rev_rev_ident)
  then show ?thesis by blast
qed

lemma TrimRight_idem [simp]: "TrimRight (TrimRight s c) c = TrimRight s c"
  by (simp add: TrimRight_def)

lemma after_last_append: "c \<notin> set t \<Longrightarrow> after_last c (s @ c # t) = t"
  by (simp add: after_last_def takeWhile_append2 takeWhile_tail)
     (metis (full_types) rev_rev_ident set_rev takeWhile_eq_all_conv takeWhile_tail)

section \<open>strconv and encoding/hex\<close>

fun show_nat :: "nat \<Rightarrow> gostring" where
  "show_nat n = (if n < 10 then [char_of (48 + n)] else show_nat (n div 10) @ [char_of (48 + n mod 10)])"

declare show_nat.simps [simp del]

definition Itoa :: "int \<Rightarrow> gostring" where
  "Itoa n = (if n < 0 then CHR ''-'' # show_nat (nat (- n)) else show_nat (nat n))"

definition hex_digit :: "nat \<Rightarrow> char" where
  "hex_digit n = (if n < 10 then char_of (48 + n) else char_of (87 + n))"

definition hexEncode :: "gostring \<Rightarrow> gostring" where
  "hexEncode bs = concat (map (\<lambda>b. [hex_digit (code b div 16), hex_digit (code b mod 16)]) bs)"

lemma length_hexEncode [simp]: "length (hexEncode bs) = 2 * length bs"
  by (induction bs) (auto simp: hexEncode_def)

definition digits_val :: "gostring \<Rightarrow> nat" where
  "digits_val ds = foldl (\<lambda>n d. 10 * n + digit_val d) 0 ds"

text \<open>\<open>strconv.Atoi\<close>: an optional sign and decimal digits that fit int64; None is the error.\<close>

definition Atoi :: "gostring \<Rightarrow> int option" where
  "Atoi s = (let neg = (s \<noteq> [] \<and> hd s = CHR ''-'');
       ds = (if s \<noteq> [] \<and> (hd s = CHR ''-'' \<or> hd s = CHR ''+'') then tl s else s);
       v = (if neg then - int (digits_val ds) else int (digits_val ds)) in
     if ds = [] \<or> \<not> list_all is_digit ds then None
     else if min_int64 \<le> v \<and> v \<le> max_int64 then Some v else None)"

lemma is_digit_char_of [simp]: "n < (10::nat) \<Longrightarrow> is_digit (char_of (48 + n))"
  by (simp add: is_digit_def byte_in_def)

lemma digit_val_char_of [simp]: "n < (10::nat) \<Longrightarrow> digit_val (char_of (48 + n)) = n"
  by (simp add: digit_val_def)

lemma show_nat_digits: "list_all is_digit (show_nat n) \<and> show_nat n \<noteq> []"
proof (induction n rule: show_nat.induct)
  case (1 n)
  then show ?case by (cases "n < 10") (auto simp: show_nat.simps [of n])
qed

lemma digits_val_snoc: "digits_val (ds @ [d]) = 10 * digits_val ds + digit_val d"
  by (simp add: digits_val_def)

lemma digits_val_show_nat [simp]: "digits_val (show_nat n) = n"
proof (induction n rule: show_nat.induct)
  case (1 n)
  show ?case
  proof (cases "n < 10")
    case True
    then show ?thesis by (simp add: show_nat.simps [of n] digits_val_def)
  next
    case False
    then have "digits_val (show_nat n) = 10 * digits_val (show_nat (n div 10)) + n mod 10"
      by (subst show_nat.simps) (simp add: digits_val_snoc)
    with "1.IH" [OF False] show ?thesis by simp
  qed
qed

lemma hd_show_nat: "is_digit (hd (show_nat n))"
  using show_nat_digits [of n] by (cases "show_nat n") auto

lemma Atoi_show_nat: "int n \<le> max_int64 \<Longrightarrow> Atoi (show_nat n) = Some (int n)"
proof -
  assume "int n \<le> max_int64"
  moreover have "hd (show_nat n) \<noteq> CHR ''-''" "hd (show_nat n) \<noteq> CHR ''+''"
    using hd_show_nat [of n] by (auto simp: is_digit_def byte_in_def)
  ultimately show ?thesis using show_nat_digits [of n] by (simp add: Atoi_def Let_def)
qed

subsection \<open>strconv.ParseFloat\<close>

text \<open>
  \<open>underscoreOK\<close>: an underscore separates digits (a base prefix counts as a digit); the state is
  the kind of the previous byte.
\<close>

datatype prev = PStart | PDigit | PUnder | POther

fun underscores_from :: "bool \<Rightarrow> prev \<Rightarrow> gostring \<Rightarrow> bool" where
  "underscores_from hex p [] = (p \<noteq> PUnder)"
| "underscores_from hex p (c # cs) =
    (if is_digit c \<or> hex \<and> hex_val c \<noteq> None then underscores_from hex PDigit cs
     else if c = CHR ''_'' then p = PDigit \<and> underscores_from hex PUnder cs
     else p \<noteq> PUnder \<and> underscores_from hex POther cs)"

definition hex_prefix :: "gostring \<Rightarrow> bool" where
  "hex_prefix s \<longleftrightarrow> 2 < length s \<and> hd s = CHR ''0'' \<and> lower_ascii (s ! 1) = CHR ''x''"

text \<open>
  The mantissa loop of \<open>readFloat\<close>: digits (of the base), one point and underscores; it returns the
  digits' value, the number of digits after the point, whether a digit and an underscore were seen,
  and the rest.
\<close>

fun scan_mant :: "bool \<Rightarrow> bool \<Rightarrow> nat \<Rightarrow> nat \<Rightarrow> bool \<Rightarrow> bool \<Rightarrow> gostring
    \<Rightarrow> nat \<times> nat \<times> bool \<times> bool \<times> gostring" where
  "scan_mant hex dot v fr sd us [] = (v, fr, sd, us, [])"
| "scan_mant hex dot v fr sd us (c # cs) =
    (if c = CHR ''_'' then scan_mant hex dot v fr sd True cs
     else if c = CHR ''.'' then (if dot then (v, fr, sd, us, c # cs) else scan_mant hex True v fr sd us cs)
     else if is_digit c then scan_mant hex dot ((if hex then 16 else 10) * v + digit_val c)
       (if dot then Suc fr else fr) True us cs
     else if hex \<and> hex_val c \<noteq> None then scan_mant hex dot (16 * v + the (hex_val c))
       (if dot then Suc fr else fr) True us cs
     else (v, fr, sd, us, c # cs))"

fun scan_exp :: "nat \<Rightarrow> bool \<Rightarrow> gostring \<Rightarrow> nat \<times> bool \<times> gostring" where
  "scan_exp e us [] = (e, us, [])"
| "scan_exp e us (c # cs) =
    (if c = CHR ''_'' then scan_exp e True cs
     else if is_digit c then scan_exp (if e < 10000 then e * 10 + digit_val c else e) us cs
     else (e, us, c # cs))"

definition strip_sign :: "gostring \<Rightarrow> int \<times> gostring" where
  "strip_sign s = (case s of c # cs \<Rightarrow>
     if c = CHR ''-'' then (-1, cs) else if c = CHR ''+'' then (1, cs) else (1, s) | [] \<Rightarrow> (1, []))"

text \<open>\<open>ParseFloat(s, 64)\<close>: None for a syntax error and for a value out of range.\<close>

definition parse_special :: "gostring \<Rightarrow> f64 option" where
  "parse_special s = (case strip_sign s of (sg, t) \<Rightarrow>
     let l = map lower_ascii t in
     if l = ''inf'' \<or> l = ''infinity'' then Some (if sg < 0 then NInf else PInf)
     else if map lower_ascii s = ''nan'' then Some NaN else None)"

definition parse_number :: "gostring \<Rightarrow> rat option" where
  "parse_number s = (case strip_sign s of (sg, t) \<Rightarrow>
     let hex = hex_prefix t; body = (if hex then drop 2 t else t) in
     case scan_mant hex False 0 0 False False body of (v, fr, sd, us, rest) \<Rightarrow>
     if \<not> sd then None
     else let has_exp = (rest \<noteq> [] \<and> lower_ascii (hd rest) = (if hex then CHR ''p'' else CHR ''e''));
              base = (if hex then 2 else 10);
              scale = (if hex then 4 * int fr else int fr) in
       if has_exp then
         (case strip_sign (tl rest) of (es, t') \<Rightarrow>
            if t' = [] \<or> \<not> is_digit (hd t') then None
            else (case scan_exp 0 us t' of (e, us', rest') \<Rightarrow>
              if rest' \<noteq> [] \<or> us' \<and> \<not> underscores_from hex (if hex then PDigit else PStart) body then None
              else Some (of_int sg * of_nat v * base powi (es * int e - scale))))
       else if hex \<or> rest \<noteq> [] \<or> us \<and> \<not> underscores_from hex PStart body then None
       else Some (of_int sg * of_nat v * base powi (- scale)))"

definition ParseFloat :: "gostring \<Rightarrow> f64 option" where
  "ParseFloat s = (case parse_special s of Some x \<Rightarrow> Some x
     | None \<Rightarrow> (case parse_number s of None \<Rightarrow> None
       | Some r \<Rightarrow> (case rnd64 r of Fin v \<Rightarrow> Some (Fin v) | _ \<Rightarrow> None)))"

end
