(* ===== verification/Codec.thy ===== *)
theory Codec
  imports GoText
begin

text \<open>
  The byte codecs behind the encrypted path: UTF-8 decoding (a \<open>range\<close> over a Go string) and
  URL-safe base64 (\<open>encodeUrlsafeBase64\<close> and \<open>decodeUrlsafeBase64\<close> of encryption.go over package
  encoding/base64).
\<close>

section \<open>UTF-8\<close>

text \<open>The rune a byte list starts with and its size; an invalid sequence is U+FFFD of size 1.\<close>

definition cont :: "nat \<Rightarrow> bool" where
  "cont b \<longleftrightarrow> 128 \<le> b \<and> b \<le> 191"

definition second_ok :: "nat \<Rightarrow> nat \<Rightarrow> bool" where
  "second_ok b0 b1 \<longleftrightarrow> cont b1 \<and> (b0 = 224 \<longrightarrow> 160 \<le> b1) \<and> (b0 = 237 \<longrightarrow> b1 \<le> 159)
     \<and> (b0 = 240 \<longrightarrow> 144 \<le> b1) \<and> (b0 = 244 \<longrightarrow> b1 \<le> 143)"

fun decode_rune :: "nat list \<Rightarrow> nat \<times> nat" where
  "decode_rune [] = (65533, 0)"
| "decode_rune (b0 # bs) =
    (if b0 < 128 then (b0, 1)
     else if 194 \<le> b0 \<and> b0 \<le> 223 then
       (case bs of b1 # _ \<Rightarrow> if cont b1 then (b0 mod 32 * 64 + b1 mod 64, 2) else (65533, 1)
        | _ \<Rightarrow> (65533, 1))
     else if 224 \<le> b0 \<and> b0 \<le> 239 then
       (case bs of b1 # b2 # _ \<Rightarrow> if second_ok b0 b1 \<and> cont b2
          then (b0 mod 16 * 4096 + b1 mod 64 * 64 + b2 mod 64, 3) else (65533, 1)
        | _ \<Rightarrow> (65533, 1))
     else if 240 \<le> b0 \<and> b0 \<le> 244 then
       (case bs of b1 # b2 # b3 # _ \<Rightarrow> if second_ok b0 b1 \<and> cont b2 \<and> cont b3
          then (b0 mod 8 * 262144 + b1 mod 64 * 4096 + b2 mod 64 * 64 + b3 mod 64, 4) else (65533, 1)
        | _ \<Rightarrow> (65533, 1))
     else (65533, 1))"

lemma decode_rune_size: "bs \<noteq> [] \<Longrightarrow> 1 \<le> snd (decode_rune bs)"
  by (cases bs) (auto split: list.splits)

function runes_of :: "nat list \<Rightarrow> nat list" where
  "runes_of bs = (if bs = [] then [] else
     fst (decode_rune bs) # runes_of (drop (snd (decode_rune bs)) bs))"
  by pat_completeness auto
termination
  using decode_rune_size by (relation "measure length") (auto simp: Suc_le_eq)

declare runes_of.simps [simp del]

definition runes :: "gostring \<Rightarrow> nat list" where
  "runes s = runes_of (map code s)"

text \<open>A rune is a code point, never a surrogate.\<close>

definition valid_rune :: "nat \<Rightarrow> bool" where
  "valid_rune r \<longleftrightarrow> r < 1114112 \<and> \<not> (55296 \<le> r \<and> r \<le> 57343)"

lemma mod_offset [simp]:
  "d < 64 \<Longrightarrow> (128 + d) mod 64 = (d::nat)"
  "d < 16 \<Longrightarrow> (224 + d) mod 16 = (d::nat)"
  "d < 8 \<Longrightarrow> (240 + d) mod 8 = (d::nat)"
  "d < 32 \<Longrightarrow> (192 + d) mod 32 = (d::nat)"
  using mod_mult_self1 [of d 2 64] mod_mult_self1 [of d 14 16] mod_mult_self1 [of d 30 8]
    mod_mult_self1 [of d 6 32]
  by (simp_all add: add.commute)

lemma rune2_valid:
  assumes "194 \<le> b0" "b0 \<le> 223" "cont b1"
  shows "valid_rune (b0 mod 32 * 64 + b1 mod 64)"
proof -
  obtain d0 where d0: "b0 = 192 + d0" using assms(1) le_Suc_ex [of 192 b0] by auto
  obtain d1 where d1: "b1 = 128 + d1" using assms(3) le_Suc_ex by (auto simp: cont_def)
  show ?thesis using assms by (simp add: d0 d1 cont_def valid_rune_def)
qed

lemma rune3_valid:
  assumes "second_ok b0 b1" "224 \<le> b0" "b0 \<le> 239" "cont b2"
  shows "valid_rune (b0 mod 16 * 4096 + b1 mod 64 * 64 + b2 mod 64)"
proof -
  obtain d0 where d0: "b0 = 224 + d0" using assms(2) le_Suc_ex by blast
  obtain d1 where d1: "b1 = 128 + d1" using assms(1) le_Suc_ex by (auto simp: second_ok_def cont_def)
  obtain d2 where d2: "b2 = 128 + d2" using assms(4) le_Suc_ex by (auto simp: cont_def)
  have b: "d0 \<le> 15" "d1 \<le> 63" "d2 \<le> 63" "d0 = 13 \<longrightarrow> d1 \<le> 31"
    using assms by (auto simp: d0 d1 d2 second_ok_def cont_def)
  have v: "b0 mod 16 * 4096 + b1 mod 64 * 64 + b2 mod 64 = d0 * 4096 + d1 * 64 + d2"
    using b by (simp add: d0 d1 d2)
  consider "d0 \<le> 12" | "d0 = 13" | "14 \<le> d0" by linarith
  then show ?thesis unfolding v valid_rune_def using b by cases auto
qed

lemma rune4_valid:
  assumes "second_ok b0 b1" "240 \<le> b0" "b0 \<le> 244" "cont b2" "cont b3"
  shows "valid_rune (b0 mod 8 * 262144 + b1 mod 64 * 4096 + b2 mod 64 * 64 + b3 mod 64)"
proof -
  obtain d0 where d0: "b0 = 240 + d0" using assms(2) le_Suc_ex by blast
  obtain d1 where d1: "b1 = 128 + d1" using assms(1) le_Suc_ex by (auto simp: second_ok_def cont_def)
  obtain d2 where d2: "b2 = 128 + d2" using assms(4) le_Suc_ex by (auto simp: cont_def)
  obtain d3 where d3: "b3 = 128 + d3" using assms(5) le_Suc_ex by (auto simp: cont_def)
  have b: "d0 \<le> 4" "d1 \<le> 63" "d2 \<le> 63" "d3 \<le> 63" "d0 = 0 \<longrightarrow> 16 \<le> d1" "d0 = 4 \<longrightarrow> d1 \<le> 15"
    using assms by (auto simp: d0 d1 d2 d3 second_ok_def cont_def)
  have v: "b0 mod 8 * 262144 + b1 mod 64 * 4096 + b2 mod 64 * 64 + b3 mod 64
      = d0 * 262144 + d1 * 4096 + d2 * 64 + d3"
    using b by (simp add: d0 d1 d2 d3)
  consider "d0 = 0" | "1 \<le> d0" "d0 \<le> 3" | "d0 = 4" using b(1) by linarith
  then show ?thesis unfolding v valid_rune_def using b by cases auto
qed

lemma decode_rune_valid: "valid_rune (fst (decode_rune bs))"
proof (cases bs)
  case (Cons b0 bs')
  have e: "valid_rune 65533" by (simp add: valid_rune_def)
  show ?thesis unfolding Cons using e
    by (auto simp del: mod_offset simp: rune2_valid rune3_valid rune4_valid valid_rune_def [of b0] split: list.splits)
qed (simp add: valid_rune_def)

lemma runes_of_valid: "list_all valid_rune (runes_of bs)"
proof (induction bs rule: runes_of.induct)
  case (1 bs)
  show ?case
  proof (cases "bs = []")
    case True
    then show ?thesis by (simp add: runes_of.simps)
  next
    case False
    from decode_rune_valid [of bs] "1.IH" [OF False] False show ?thesis by (subst runes_of.simps) simp
  qed
qed

lemma runes_of_ascii: "list_all (\<lambda>b. b < 128) bs \<Longrightarrow> runes_of bs = bs"
proof (induction bs)
  case (Cons b bs)
  then show ?case by (subst runes_of.simps) simp
qed (simp add: runes_of.simps)

section \<open>URL-safe base64\<close>

definition b64_char :: "nat \<Rightarrow> char" where
  "b64_char n = (if n < 26 then char_of (65 + n) else if n < 52 then char_of (71 + n)
     else if n < 62 then char_of (n - 4) else if n = 62 then CHR ''-'' else CHR ''_'')"

definition b64_val :: "char \<Rightarrow> nat option" where
  "b64_val c = (if byte_in 65 90 c then Some (code c - 65) else if byte_in 97 122 c then Some (code c - 71)
     else if byte_in 48 57 c then Some (code c + 4) else if c = CHR ''-'' then Some 62
     else if c = CHR ''_'' then Some 63 else None)"

text \<open>The 6-bit groups of a byte list, without padding.\<close>

fun b64_groups :: "nat list \<Rightarrow> nat list" where
  "b64_groups (a # b # c # bs) =
     [a div 4, a mod 4 * 16 + b div 16, b mod 16 * 4 + c div 64, c mod 64] @ b64_groups bs"
| "b64_groups [a, b] = [a div 4, a mod 4 * 16 + b div 16, b mod 16 * 4]"
| "b64_groups [a] = [a div 4, a mod 4 * 16]"
| "b64_groups [] = []"

text \<open>\<open>URLEncoding.EncodeToString\<close>: padded to a multiple of four.\<close>

definition b64_pad :: "nat \<Rightarrow> gostring" where
  "b64_pad n = replicate ((3 - n mod 3) mod 3) (CHR ''='')"

definition encodeUrlsafeBase64 :: "gostring \<Rightarrow> gostring" where
  "encodeUrlsafeBase64 bs = map b64_char (b64_groups (map code bs)) @ b64_pad (length bs)"

text \<open>
  \<open>RawURLEncoding.DecodeString\<close>: carriage returns and newlines are skipped, any other byte outside
  the alphabet is an error, and so is a single left-over character; left-over bits are dropped.
\<close>

fun b64_ungroup :: "nat list \<Rightarrow> nat list option" where
  "b64_ungroup (p # q # r # s # xs) = (case b64_ungroup xs of None \<Rightarrow> None
     | Some bs \<Rightarrow> Some ([p * 4 + q div 16, q mod 16 * 16 + r div 4, r mod 4 * 64 + s] @ bs))"
| "b64_ungroup [p, q, r] = Some [p * 4 + q div 16, q mod 16 * 16 + r div 4]"
| "b64_ungroup [p, q] = Some [p * 4 + q div 16]"
| "b64_ungroup [p] = None"
| "b64_ungroup [] = Some []"

definition RawURLDecode :: "gostring \<Rightarrow> gostring option" where
  "RawURLDecode s = (let t = filter (\<lambda>c. c \<noteq> CHR 10 \<and> c \<noteq> CHR 13) s in
     if list_all (\<lambda>c. b64_val c \<noteq> None) t
     then map_option (map char_of) (b64_ungroup (map (\<lambda>c. the (b64_val c)) t)) else None)"

definition decodeUrlsafeBase64 :: "gostring \<Rightarrow> gostring option" where
  "decodeUrlsafeBase64 text = RawURLDecode (TrimRight text (CHR ''=''))"

lemma b64_val_char: "n < 64 \<Longrightarrow> b64_val (b64_char n) = Some n"
proof -
  assume n: "n < 64"
  consider "n < 26" | "26 \<le> n" "n < 52" | "52 \<le> n" "n < 62" | "n = 62" | "n = 63" using n by linarith
  then show ?thesis
    by cases (auto simp: b64_char_def b64_val_def byte_in_def)
qed

lemma b64_val_other: "b64_val (CHR 10) = None" "b64_val (CHR 13) = None" "b64_val (CHR ''='') = None"
  by (simp_all add: b64_val_def byte_in_def)

lemma b64_char_inverse:
  assumes "n < 64"
  shows "b64_val (b64_char n) = Some n" "b64_char n \<noteq> CHR 10" "b64_char n \<noteq> CHR 13"
    "b64_char n \<noteq> CHR ''=''"
  using b64_val_char [OF assms] b64_val_other by (metis option.distinct(1))+

lemma b64_piece:
  fixes a b c :: nat
  assumes "b < 256" "c < 256"
  shows "a mod 4 * 16 + b div 16 < 64" "b mod 16 * 4 + c div 64 < 64" "a mod 4 * 16 < 64"
    "b mod 16 * 4 < 64" "c mod 64 < 64"
proof -
  have "b div 16 < 16" "c div 64 < 4" "a mod 4 < 4" "b mod 16 < 16" "c mod 64 < 64"
    using assms by auto
  then show "a mod 4 * 16 + b div 16 < 64" "b mod 16 * 4 + c div 64 < 64" "a mod 4 * 16 < 64"
    "b mod 16 * 4 < 64" "c mod 64 < 64" by linarith+
qed

lemma b64_groups_less: "list_all (\<lambda>b. b < 256) bs \<Longrightarrow> list_all (\<lambda>n. n < 64) (b64_groups bs)"
proof (induction bs rule: b64_groups.induct)
  case (1 a b c bs)
  then have h: "a div 4 < 64" "b < 256" "c < 256" "list_all (\<lambda>n. n < 64) (b64_groups bs)" by auto
  then show ?case using b64_piece [OF h(2,3)]
    by (simp only: b64_groups.simps list_all_append list.pred_inject simp_thms)
next
  case (2 a b)
  then have h: "a div 4 < 64" "b < 256" by auto
  then show ?case using b64_piece [OF h(2) h(2)]
    by (simp only: b64_groups.simps list.pred_inject simp_thms)
next
  case (3 a)
  then have h: "a div 4 < 64" "a < 256" by auto
  then show ?case using b64_piece [OF h(2) h(2)]
    by (simp only: b64_groups.simps list.pred_inject simp_thms)
qed simp

lemma div_mult_add:
  fixes x y k :: nat
  assumes "y < k"
  shows "(x * k + y) div k = x" "(x * k + y) mod k = y"
  using assms by simp_all

lemma b64_join:
  fixes a b c :: nat
  assumes "b < 256" "c < 256"
  shows "a div 4 * 4 + (a mod 4 * 16 + b div 16) div 16 = a"
    and "(a mod 4 * 16 + b div 16) mod 16 * 16 + (b mod 16 * 4 + c div 64) div 4 = b"
    and "(b mod 16 * 4 + c div 64) mod 4 * 64 + c mod 64 = c"
proof -
  have "b div 16 < 16" "c div 64 < 4" using assms by auto
  then show "a div 4 * 4 + (a mod 4 * 16 + b div 16) div 16 = a"
    and "(a mod 4 * 16 + b div 16) mod 16 * 16 + (b mod 16 * 4 + c div 64) div 4 = b"
    and "(b mod 16 * 4 + c div 64) mod 4 * 64 + c mod 64 = c"
    by (simp_all only: div_mult_add div_mult_mod_eq)
qed

lemma b64_ungroup_groups: "list_all (\<lambda>b. b < 256) bs \<Longrightarrow> b64_ungroup (b64_groups bs) = Some bs"
proof (induction bs rule: b64_groups.induct)
  case (1 a b c bs)
  then have h: "b < 256" "c < 256" by auto
  from 1 show ?case using b64_join [OF h]
    by (simp only: b64_groups.simps append.simps b64_ungroup.simps list.pred_inject option.case)
next
  case (2 a b)
  then have "b < 256" by simp
  then show ?case using b64_join(1,2) [of b 0]
    by (simp only: b64_groups.simps append.simps b64_ungroup.simps div_0 add_0_right zero_less_numeral)
next
  case (3 a)
  show ?case using b64_join(1) [of 0 0 a]
    by (simp only: b64_groups.simps append.simps b64_ungroup.simps div_0 add_0_right zero_less_numeral)
qed simp

lemma TrimRight_b64:
  "list_all (\<lambda>n. n < 64) gs \<Longrightarrow> TrimRight (map b64_char gs @ replicate k (CHR ''='')) (CHR ''='')
     = map b64_char gs"
proof -
  assume g: "list_all (\<lambda>n. n < 64) gs"
  have "dropWhile ((=) (CHR ''='')) (replicate k (CHR ''='') @ rev (map b64_char gs))
      = dropWhile ((=) (CHR ''='')) (rev (map b64_char gs))"
    by (induction k) auto
  moreover have "dropWhile ((=) (CHR ''='')) (rev (map b64_char gs)) = rev (map b64_char gs)"
    using g b64_char_inverse(4) by (cases gs rule: rev_cases) (auto simp: list_all_iff eq_commute [of "CHR ''=''"])
  ultimately show ?thesis by (simp add: TrimRight_def)
qed

lemma base64_decode_encode: "decodeUrlsafeBase64 (encodeUrlsafeBase64 bs) = Some bs"
proof -
  let ?g = "b64_groups (map code bs)"
  have g: "list_all (\<lambda>n. n < 64) ?g" by (rule b64_groups_less) (auto simp: list_all_iff)
  then have f: "filter (\<lambda>c. c \<noteq> CHR 10 \<and> c \<noteq> CHR 13) (map b64_char ?g) = map b64_char ?g"
    using b64_char_inverse(2,3) by (auto simp: filter_id_conv list_all_iff)
  have v: "map (\<lambda>c. the (b64_val c)) (map b64_char ?g) = ?g"
    using g b64_char_inverse(1) by (auto simp: map_idI list_all_iff)
  have "list_all (\<lambda>c. b64_val c \<noteq> None) (map b64_char ?g)"
    using g b64_char_inverse(1) by (auto simp: list_all_iff)
  moreover have "b64_ungroup ?g = Some (map code bs)"
    by (rule b64_ungroup_groups) (auto simp: list_all_iff)
  moreover have "TrimRight (encodeUrlsafeBase64 bs) (CHR ''='') = map b64_char ?g"
    unfolding encodeUrlsafeBase64_def b64_pad_def by (rule TrimRight_b64 [OF g])
  ultimately show ?thesis
    using f v by (simp add: decodeUrlsafeBase64_def RawURLDecode_def Let_def comp_def)
qed

text \<open>Decoding undoes the URL-safe base64 encoding, for every byte string, with and without the
  padding.\<close>

theorem base64_roundtrip:
  "decodeUrlsafeBase64 (encodeUrlsafeBase64 bs) = Some bs
   \<and> decodeUrlsafeBase64 (TrimRight (encodeUrlsafeBase64 bs) (CHR ''='')) = Some bs"
  using base64_decode_encode [of bs] by (simp add: decodeUrlsafeBase64_def)

end
