(* ===== verification/Errors.thy ===== *)
theory Errors
  imports GoText
begin

text \<open>
  errors.go: the typed errors of the package, the texts of their \<open>Error\<close> methods and the matching
  of \<open>errors.Is\<close> and \<open>errors.As\<close>. An \<open>error\<close> result of the code is a \<open>goerror option\<close>, None for nil.
\<close>

section \<open>Error values\<close>

datatype ctx_reason = Canceled | DeadlineExceeded

text \<open>
  The sentinels, the structural types (errors.go, encryption.go, utils.go), the errors of a context,
  \<open>fmt.Errorf\<close> with and without a wrapped error (with its rendered text) and \<open>errors.Join\<close>.
\<close>

datatype goerror =
    ErrBufferFull
  | ErrClosed
  | ErrCircuitOpen
  | ErrInvalidEvent
  | ErrInternal
  | BufferFullError gostring int \<comment> \<open>Kind, MaxLen\<close>
  | ConfigError "gostring list" \<comment> \<open>Problems\<close>
  | PermanentError int gostring \<comment> \<open>StatusCode, Detail\<close>
  | RateLimitedError duration \<comment> \<open>RetryAfter\<close>
  | payloadTooLargeError gostring \<comment> \<open>detail\<close>
  | EncryptionError gostring
  | EncryptionConfigError gostring
  | SerializationError gostring
  | CtxErr ctx_reason
  | Errorf gostring
  | Wrapf gostring goerror
  | Joined "goerror list"

fun join_with :: "gostring \<Rightarrow> gostring list \<Rightarrow> gostring" where
  "join_with sep [] = []"
| "join_with sep [x] = x"
| "join_with sep (x # y # ys) = x @ sep @ join_with sep (y # ys)"

text \<open>
  \<open>Duration.Seconds\<close>: whole seconds plus the fraction, both as float64, and the conversion to int64
  of \<open>RateLimitedError.Error\<close>.
\<close>

definition duration_seconds :: "duration \<Rightarrow> f64" where
  "duration_seconds d = f64_add (f64_of_int (go_quot d Second))
     (f64_div (f64_of_int (go_rem d Second)) (f64_of_int Second))"

definition BufferFullError_Error :: "gostring \<Rightarrow> int \<Rightarrow> gostring" where
  "BufferFullError_Error kind maxlen = ''guardagent: '' @ kind @ '' buffer full at maxlen=''
     @ Itoa maxlen @ '' and overflow policy is raise''"

definition ConfigError_Error :: "gostring list \<Rightarrow> gostring" where
  "ConfigError_Error ps = ''guardagent: invalid configuration: '' @ join_with ''; '' ps"

definition PermanentError_Error :: "int \<Rightarrow> gostring \<Rightarrow> gostring" where
  "PermanentError_Error status det = ''guardagent: permanent rejection with status ''
     @ Itoa status @ '': '' @ det"

definition RateLimitedError_Error :: "(f64 \<Rightarrow> int) \<Rightarrow> duration \<Rightarrow> gostring" where
  "RateLimitedError_Error oor d = ''guardagent: rate limited, retry after ''
     @ Itoa (f64_to_int64 oor (duration_seconds d)) @ ''s''"

definition payloadTooLargeError_Error :: "gostring \<Rightarrow> gostring" where
  "payloadTooLargeError_Error det = ''guardagent: payload too large: '' @ det"

fun ctx_reason_text :: "ctx_reason \<Rightarrow> gostring" where
  "ctx_reason_text Canceled = ''context canceled''"
| "ctx_reason_text DeadlineExceeded = ''context deadline exceeded''"

text \<open>The text of an error; a joined error has one line per part.\<close>

fun Error :: "(f64 \<Rightarrow> int) \<Rightarrow> goerror \<Rightarrow> gostring" where
  "Error oor ErrBufferFull = ''guardagent: buffer full''"
| "Error oor ErrClosed = ''guardagent: agent is stopped''"
| "Error oor ErrCircuitOpen = ''guardagent: transport circuit breaker is open''"
| "Error oor ErrInvalidEvent = ''guardagent: invalid telemetry item''"
| "Error oor ErrInternal = ''guardagent: internal error''"
| "Error oor (BufferFullError k m) = BufferFullError_Error k m"
| "Error oor (ConfigError ps) = ConfigError_Error ps"
| "Error oor (PermanentError s d) = PermanentError_Error s d"
| "Error oor (RateLimitedError d) = RateLimitedError_Error oor d"
| "Error oor (payloadTooLargeError d) = payloadTooLargeError_Error d"
| "Error oor (EncryptionError m) = m"
| "Error oor (EncryptionConfigError m) = m"
| "Error oor (SerializationError m) = m"
| "Error oor (CtxErr r) = ctx_reason_text r"
| "Error oor (Errorf m) = m"
| "Error oor (Wrapf m e) = m"
| "Error oor (Joined es) = join_with [CHR 10] (map (Error oor) es)"

text \<open>\<open>errors.Is\<close>: equality, the \<open>Is\<close> method of \<open>BufferFullError\<close>, then what the error wraps.\<close>

definition BufferFullError_Is :: "goerror \<Rightarrow> bool" where
  "BufferFullError_Is target \<longleftrightarrow> target = ErrBufferFull"

fun errors_Is :: "goerror \<Rightarrow> goerror \<Rightarrow> bool" where
  "errors_Is (BufferFullError k m) target = (target = BufferFullError k m \<or> BufferFullError_Is target)"
| "errors_Is (Wrapf m e) target = (target = Wrapf m e \<or> errors_Is e target)"
| "errors_Is (Joined es) target = (target = Joined es \<or> list_ex (\<lambda>e. errors_Is e target) es)"
| "errors_Is e target = (e = target)"

text \<open>\<open>errors.As(err, &tooLarge)\<close> of transport.go.\<close>

fun as_tooLarge :: "goerror \<Rightarrow> gostring option" where
  "as_tooLarge (payloadTooLargeError d) = Some d"
| "as_tooLarge (Wrapf m e) = as_tooLarge e"
| "as_tooLarge (Joined es) = foldr (\<lambda>e acc. case as_tooLarge e of Some d \<Rightarrow> Some d | None \<Rightarrow> acc) es None"
| "as_tooLarge _ = None"

definition err_tooLarge :: "goerror option \<Rightarrow> bool" where
  "err_tooLarge e = (case e of None \<Rightarrow> False | Some e \<Rightarrow> as_tooLarge e \<noteq> None)"

lemma err_tooLarge_simps [simp]:
  "\<not> err_tooLarge None"
  "err_tooLarge (Some e) \<longleftrightarrow> as_tooLarge e \<noteq> None"
  by (simp_all add: err_tooLarge_def)

text \<open>\<open>errors.Join\<close> drops the nil errors and is nil when nothing is left.\<close>

definition errors_Join :: "goerror option list \<Rightarrow> goerror option" where
  "errors_Join es = (let xs = map the (filter (\<lambda>e. e \<noteq> None) es) in
     if xs = [] then None else Some (Joined xs))"

lemma errors_Join_None [simp]: "errors_Join [None, None] = None"
  by (simp add: errors_Join_def)

lemma errors_Join_eq_None: "errors_Join es = None \<longleftrightarrow> list_all (\<lambda>e. e = None) es"
  by (auto simp: errors_Join_def Let_def filter_empty_conv list_all_iff)

end
