(* ===== verification/Breaker.thy ===== *)
theory Breaker
  imports Errors
begin

text \<open>
  circuit_breaker.go: the consecutive-failure breaker. Its methods run under one mutex, so each is
  one atomic operation; the clock reading of \<open>cb.now()\<close> is an argument. The reference at the end is
  a function of the history of operations only.
\<close>

section \<open>State and operations\<close>

datatype circuitState = circuitClosed | circuitOpen | circuitHalfOpen

abbreviation breakerFailureThreshold :: int where "breakerFailureThreshold \<equiv> 5"
abbreviation breakerRecoveryTimeout :: duration where "breakerRecoveryTimeout \<equiv> 60 * Second"

record CircuitBreaker =
  threshold :: int
  recoveryTimeout :: duration
  cstate :: circuitState
  failureCount :: int
  openedAt :: gotime

fun circuitState_String :: "circuitState \<Rightarrow> gostring" where
  "circuitState_String circuitOpen = ''open''"
| "circuitState_String circuitHalfOpen = ''half_open''"
| "circuitState_String circuitClosed = ''closed''"

definition newCircuitBreaker :: CircuitBreaker where
  "newCircuitBreaker = \<lparr>threshold = breakerFailureThreshold, recoveryTimeout = breakerRecoveryTimeout,
     cstate = circuitClosed, failureCount = 0, openedAt = 0\<rparr>"

definition Admit :: "gotime \<Rightarrow> CircuitBreaker \<Rightarrow> goerror option \<times> CircuitBreaker" where
  "Admit t cb = (case cstate cb of
     circuitOpen \<Rightarrow>
       if time_sub t (openedAt cb) \<ge> recoveryTimeout cb
       then (None, cb\<lparr>cstate := circuitHalfOpen\<rparr>)
       else (Some ErrCircuitOpen, cb)
   | _ \<Rightarrow> (None, cb))"

definition Success :: "CircuitBreaker \<Rightarrow> CircuitBreaker" where
  "Success cb = cb\<lparr>cstate := circuitClosed, failureCount := 0\<rparr>"

definition Failure :: "gotime \<Rightarrow> CircuitBreaker \<Rightarrow> CircuitBreaker" where
  "Failure t cb = (let cb' = cb\<lparr>failureCount := failureCount cb + 1\<rparr> in
     if cstate cb' = circuitHalfOpen \<or> failureCount cb' \<ge> threshold cb'
     then cb'\<lparr>cstate := circuitOpen, openedAt := t\<rparr> else cb')"

definition breaker_Open :: "CircuitBreaker \<Rightarrow> bool" where
  "breaker_Open cb \<longleftrightarrow> cstate cb = circuitOpen"

definition breaker_State :: "CircuitBreaker \<Rightarrow> gostring" where
  "breaker_State cb = circuitState_String (cstate cb)"

section \<open>Histories\<close>

text \<open>
  Every use of the breaker is a sequence of these operations, whichever goroutines made them: the
  mutex orders them. \<open>consec\<close> counts the failures since the last success and \<open>last_failure\<close> is the
  time of the last failure.
\<close>

datatype breaker_op = BAdmit gotime | BSuccess | BFailure gotime

fun op_time :: "breaker_op \<Rightarrow> gotime list" where
  "op_time (BAdmit t) = [t]"
| "op_time BSuccess = []"
| "op_time (BFailure t) = [t]"

fun breaker_step :: "CircuitBreaker \<Rightarrow> breaker_op \<Rightarrow> CircuitBreaker" where
  "breaker_step cb (BAdmit t) = snd (Admit t cb)"
| "breaker_step cb BSuccess = Success cb"
| "breaker_step cb (BFailure t) = Failure t cb"

definition breaker_run :: "breaker_op list \<Rightarrow> CircuitBreaker" where
  "breaker_run h = foldl breaker_step newCircuitBreaker h"

fun consec_step :: "nat \<Rightarrow> breaker_op \<Rightarrow> nat" where
  "consec_step n (BAdmit t) = n"
| "consec_step n BSuccess = 0"
| "consec_step n (BFailure t) = Suc n"

definition consec :: "breaker_op list \<Rightarrow> nat" where
  "consec h = foldl consec_step 0 h"

fun last_failure_step :: "gotime \<Rightarrow> breaker_op \<Rightarrow> gotime" where
  "last_failure_step t (BFailure u) = u"
| "last_failure_step t _ = t"

definition last_failure :: "breaker_op list \<Rightarrow> gotime" where
  "last_failure h = foldl last_failure_step 0 h"

text \<open>The clock readings of a history, in order; a monotonic clock gives a sorted list.\<close>

definition times :: "breaker_op list \<Rightarrow> gotime list" where
  "times h = concat (map op_time h)"

lemma breaker_run_snoc [simp]: "breaker_run (h @ [a]) = breaker_step (breaker_run h) a"
  by (simp add: breaker_run_def)

lemma consec_snoc [simp]: "consec (h @ [a]) = consec_step (consec h) a"
  by (simp add: consec_def)

lemma last_failure_snoc [simp]: "last_failure (h @ [a]) = last_failure_step (last_failure h) a"
  by (simp add: last_failure_def)

lemma times_snoc [simp]: "times (h @ [a]) = times h @ op_time a"
  by (simp add: times_def)

lemma history_Nil [simp]:
  "breaker_run [] = newCircuitBreaker" "consec [] = 0" "last_failure [] = 0" "times [] = []"
  by (simp_all add: breaker_run_def consec_def last_failure_def times_def)

section \<open>What a history determines\<close>

text \<open>
  The invariant that ties the breaker to its history: the counter is the number of failures since
  the last success, the breaker is closed exactly below the threshold, and once tripped its
  \<open>openedAt\<close> is the time of the last failure.
\<close>

definition breaker_inv :: "breaker_op list \<Rightarrow> CircuitBreaker \<Rightarrow> bool" where
  "breaker_inv h cb \<longleftrightarrow> threshold cb = breakerFailureThreshold
     \<and> recoveryTimeout cb = breakerRecoveryTimeout
     \<and> failureCount cb = int (consec h)
     \<and> (cstate cb = circuitClosed \<longleftrightarrow> consec h < 5)
     \<and> (cstate cb \<noteq> circuitClosed \<longrightarrow> openedAt cb = last_failure h)"

lemma breaker_inv_step: "breaker_inv h cb \<Longrightarrow> breaker_inv (h @ [a]) (breaker_step cb a)"
  by (cases a) (auto simp: breaker_inv_def Admit_def Success_def Failure_def Let_def
      split: circuitState.splits)

lemma breaker_run_inv: "breaker_inv h (breaker_run h)"
proof (induction h rule: rev_induct)
  case Nil
  show ?case by (simp add: breaker_inv_def newCircuitBreaker_def)
next
  case (snoc a h)
  then show ?case by (simp add: breaker_inv_step)
qed

lemma last_failure_le: "sorted (times h) \<Longrightarrow> consec h \<noteq> 0 \<Longrightarrow> last_failure h \<in> set (times h)"
proof (induction h rule: rev_induct)
  case (snoc a h)
  then show ?case by (cases a) (auto simp: sorted_append)
qed simp

text \<open>
  A half-open breaker let a call through when the recovery time had passed since the last failure,
  so on a monotonic clock that is still so.
\<close>

lemma half_open_recovered:
  "sorted (times h @ [t]) \<Longrightarrow> cstate (breaker_run h) = circuitHalfOpen \<Longrightarrow>
    breakerRecoveryTimeout \<le> t - last_failure h"
proof (induction h arbitrary: t rule: rev_induct)
  case Nil
  then show ?case by (simp add: newCircuitBreaker_def)
next
  case (snoc a h)
  have s: "sorted (times h @ [t])" using snoc.prems(1) by (auto simp: sorted_append)
  show ?case
  proof (cases a)
    case (BAdmit u)
    show ?thesis
    proof (cases "cstate (breaker_run h) = circuitHalfOpen")
      case True
      with snoc.IH [OF s] BAdmit show ?thesis by simp
    next
      case False
      with snoc.prems(2) BAdmit have "60 * Second \<le> u - openedAt (breaker_run h)"
        and "cstate (breaker_run h) = circuitOpen"
        using breaker_run_inv [of h]
        by (auto simp: Admit_def breaker_inv_def time_sub_ge split: circuitState.splits if_splits)
      with snoc.prems(1) BAdmit breaker_run_inv [of h] show ?thesis
        by (auto simp: breaker_inv_def sorted_append)
    qed
  next
    case BSuccess
    with snoc.prems show ?thesis by (simp add: Success_def)
  next
    case (BFailure u)
    with snoc.prems show ?thesis
      by (auto simp: Failure_def Let_def split: if_splits)
  qed
qed

text \<open>The breaker's counter and state are functions of the history: the failures since the last
  success, closed exactly while there are fewer than five of them, and while it rejects or probes
  its opening time is the time of the last failure.\<close>

theorem breaker_history:
  "failureCount (breaker_run h) = int (consec h)
   \<and> (breaker_State (breaker_run h) = ''closed'' \<longleftrightarrow> consec h < 5)
   \<and> (5 \<le> consec h \<longrightarrow> openedAt (breaker_run h) = last_failure h)"
  using breaker_run_inv [of h]
  by (auto simp: breaker_inv_def breaker_State_def split: circuitState.splits)
     (cases "cstate (breaker_run h)"; simp)+

text \<open>C26. On a monotonic clock the breaker admits a call exactly when fewer than five failures have
  happened since the last success, or 60 seconds have passed since the last failure; otherwise the
  call gets ErrCircuitOpen.\<close>

theorem breaker_admission:
  assumes "sorted (times h @ [t])"
  shows "fst (Admit t (breaker_run h)) =
    (if consec h < 5 \<or> 60 * Second \<le> t - last_failure h then None else Some ErrCircuitOpen)"
proof (cases "cstate (breaker_run h)")
  case circuitClosed
  then show ?thesis using breaker_run_inv [of h] by (simp add: Admit_def breaker_inv_def)
next
  case circuitOpen
  then show ?thesis using breaker_run_inv [of h]
    by (auto simp: Admit_def breaker_inv_def time_sub_ge)
next
  case circuitHalfOpen
  with half_open_recovered [OF assms] show ?thesis by (simp add: Admit_def)
qed

theorem breaker_admission_witness:
  "sorted (times [BFailure 1, BFailure 2, BFailure 3, BFailure 4, BFailure 5] @ [60000000004])
   \<and> fst (Admit 60000000004 (breaker_run [BFailure 1, BFailure 2, BFailure 3, BFailure 4, BFailure 5]))
     = Some ErrCircuitOpen"
proof -
  have h: "sorted (times [BFailure 1, BFailure 2, BFailure 3, BFailure 4, BFailure 5] @ [60000000004])"
    by (simp add: times_def)
  show ?thesis using h breaker_admission [OF h] by (simp add: consec_def last_failure_def)
qed

text \<open>A half-open breaker does not hold back further calls: after the recovery time the first
  call flips a tripped breaker to half-open, and every later call is admitted as well until a result
  is recorded (not a single probe).\<close>

theorem half_open_admits_all:
  assumes "sorted (times h @ [t, t'])" and "5 \<le> consec h" and "60 * Second \<le> t - last_failure h"
  shows "cstate (snd (Admit t (breaker_run h))) = circuitHalfOpen
    \<and> fst (Admit t (breaker_run h)) = None
    \<and> Admit t' (snd (Admit t (breaker_run h))) = (None, snd (Admit t (breaker_run h)))"
proof -
  have s: "sorted (times h @ [t])" using assms(1) by (auto simp: sorted_append)
  have "cstate (breaker_run h) \<noteq> circuitClosed" using assms(2) breaker_run_inv [of h]
    by (auto simp: breaker_inv_def)
  then have st: "cstate (snd (Admit t (breaker_run h))) = circuitHalfOpen"
    using breaker_run_inv [of h] assms(3)
    by (auto simp: Admit_def breaker_inv_def time_sub_ge split: circuitState.splits)
  have "fst (Admit t (breaker_run h)) = None"
    using breaker_run_inv [of h] assms(2,3) by (auto simp: Admit_def breaker_inv_def time_sub_ge
        split: circuitState.splits)
  with st show ?thesis by (simp add: Admit_def [of t'])
qed

theorem half_open_admits_all_witness:
  "fst (Admit 60000000006 (snd (Admit 60000000005
     (breaker_run [BFailure 1, BFailure 2, BFailure 3, BFailure 4, BFailure 5])))) = None"
proof -
  have "Admit 60000000006 (snd (Admit 60000000005
     (breaker_run [BFailure 1, BFailure 2, BFailure 3, BFailure 4, BFailure 5])))
     = (None, snd (Admit 60000000005
     (breaker_run [BFailure 1, BFailure 2, BFailure 3, BFailure 4, BFailure 5])))"
    using half_open_admits_all [of "[BFailure 1, BFailure 2, BFailure 3, BFailure 4, BFailure 5]"
        60000000005 60000000006]
    by (simp add: times_def consec_def last_failure_def)
  then show ?thesis by simp
qed

end
