(* ===== verification/Limiter.thy ===== *)
theory Limiter
  imports GoNum
begin

text \<open>
  rate_limiter.go: the sliding-window limiter every request attempt passes first. Each method is
  atomic under the limiter's mutex; the clock reading is an argument.
\<close>

section \<open>State and operations\<close>

abbreviation defaultLimiterMaxCalls :: int where "defaultLimiterMaxCalls \<equiv> 100"
abbreviation defaultLimiterWindow :: duration where "defaultLimiterWindow \<equiv> 60 * Second"

record RateLimiter =
  maxCalls :: int
  window :: duration
  calls :: "gotime list"

definition newRateLimiter :: "int \<Rightarrow> duration \<Rightarrow> RateLimiter" where
  "newRateLimiter m w = \<lparr>maxCalls = m, window = w, calls = []\<rparr>"

definition pruneLocked :: "gotime \<Rightarrow> RateLimiter \<Rightarrow> RateLimiter" where
  "pruneLocked t l = l\<lparr>calls := filter (\<lambda>ts. time_sub t ts < window l) (calls l)\<rparr>"

definition Acquire :: "gotime \<Rightarrow> RateLimiter \<Rightarrow> bool \<times> RateLimiter" where
  "Acquire t l = (let l' = pruneLocked t l in
     if int (length (calls l')) < maxCalls l'
     then (True, l'\<lparr>calls := calls l' @ [t]\<rparr>) else (False, l'))"

definition RetryAfter :: "gotime \<Rightarrow> RateLimiter \<Rightarrow> duration" where
  "RetryAfter t l = (case calls l of [] \<Rightarrow> 0
     | oldest # _ \<Rightarrow> (let wait = wrap64 (window l - time_sub t oldest) in if wait < 0 then 0 else wait))"

section \<open>Runs\<close>

text \<open>The limiter after a list of acquire attempts, and the times that were granted.\<close>

fun limiter_step :: "RateLimiter \<times> gotime list \<Rightarrow> gotime \<Rightarrow> RateLimiter \<times> gotime list" where
  "limiter_step (l, g) t = (case Acquire t l of (ok, l') \<Rightarrow> (l', if ok then g @ [t] else g))"

definition limiter_run :: "int \<Rightarrow> duration \<Rightarrow> gotime list \<Rightarrow> RateLimiter \<times> gotime list" where
  "limiter_run m w ts = foldl limiter_step (newRateLimiter m w, []) ts"

definition granted :: "int \<Rightarrow> duration \<Rightarrow> gotime list \<Rightarrow> gotime list" where
  "granted m w ts = snd (limiter_run m w ts)"

definition in_window :: "duration \<Rightarrow> gotime \<Rightarrow> gotime list \<Rightarrow> gotime list" where
  "in_window w t g = filter (\<lambda>u. t - w < u \<and> u \<le> t) g"

lemma limiter_run_Nil [simp]: "limiter_run m w [] = (newRateLimiter m w, [])"
  by (simp add: limiter_run_def)

lemma limiter_run_single [simp]: "limiter_run m w [t] = limiter_step (newRateLimiter m w, []) t"
  by (simp add: limiter_run_def)

lemma limiter_run_snoc [simp]: "limiter_run m w (ts @ [t]) = limiter_step (limiter_run m w ts) t"
  by (simp add: limiter_run_def)

text \<open>
  The invariant of a run whose last attempt was at \<open>t\<close>: the limiter keeps its parameters, it holds
  exactly the granted calls inside the window that ends at \<open>t\<close>, and they respect the cap.
\<close>

definition limiter_inv :: "int \<Rightarrow> duration \<Rightarrow> gotime \<Rightarrow> RateLimiter \<Rightarrow> gotime list \<Rightarrow> bool" where
  "limiter_inv m w t l g \<longleftrightarrow> maxCalls l = m \<and> window l = w \<and> calls l = in_window w t g
     \<and> int (length (calls l)) \<le> m \<and> (\<forall>u \<in> set g. u \<le> t)"

lemma in_window_later:
  "\<forall>u \<in> set g. u \<le> t \<Longrightarrow> t \<le> t' \<Longrightarrow> filter (\<lambda>u. t' - u < w) (in_window w t g) = in_window w t' g"
  by (induction g) (auto simp: in_window_def)

lemma length_in_window_later:
  "\<forall>u \<in> set g. u \<le> t \<Longrightarrow> t \<le> t' \<Longrightarrow> length (in_window w t' g) \<le> length (in_window w t g)"
  by (metis in_window_later length_filter_le)

lemma Acquire_inv:
  assumes "limiter_inv m w t l g" "t \<le> t'" "0 < w" "w \<le> max_int64"
  shows "fst (Acquire t' l) \<longleftrightarrow> int (length (in_window w t' g)) < m"
    and "limiter_inv m w t' (fst (limiter_step (l, g) t')) (snd (limiter_step (l, g) t'))"
proof -
  have p: "calls (pruneLocked t' l) = in_window w t' g"
    using assms in_window_later [of g t t' w]
    by (simp add: pruneLocked_def limiter_inv_def time_sub_less)
  have k: "maxCalls (pruneLocked t' l) = m" "window (pruneLocked t' l) = w"
    using assms(1) by (simp_all add: pruneLocked_def limiter_inv_def)
  show "fst (Acquire t' l) \<longleftrightarrow> int (length (in_window w t' g)) < m"
    by (simp add: Acquire_def Let_def p k)
  have "int (length (in_window w t' g)) \<le> m"
    using assms(1) length_in_window_later [of g t t' w] assms(2)
    by (fastforce simp: limiter_inv_def)
  moreover have "\<forall>u \<in> set g. u \<le> t'" using assms(1,2) by (fastforce simp: limiter_inv_def)
  ultimately show "limiter_inv m w t' (fst (limiter_step (l, g) t')) (snd (limiter_step (l, g) t'))"
    using assms(3) by (auto simp: Acquire_def Let_def p k limiter_inv_def in_window_def)
qed

lemma limiter_inv_Nil: "0 \<le> m \<Longrightarrow> limiter_inv m w t (newRateLimiter m w) []"
  by (simp add: limiter_inv_def newRateLimiter_def in_window_def)

lemma limiter_inv_mono: "limiter_inv m w t l g \<Longrightarrow> g = [] \<Longrightarrow> limiter_inv m w t' l g"
  by (simp add: limiter_inv_def in_window_def)

lemma limiter_run_inv:
  assumes "sorted (ts @ [t])" "0 \<le> m" "0 < w" "w \<le> max_int64"
  shows "limiter_inv m w t (fst (limiter_run m w (ts @ [t]))) (granted m w (ts @ [t]))"
  using assms
proof (induction ts arbitrary: t rule: rev_induct)
  case Nil
  then show ?case using Acquire_inv(2) [OF limiter_inv_Nil [OF Nil.prems(2), of w t], of t]
    by (simp add: granted_def)
next
  case (snoc u ts)
  have s: "sorted (ts @ [u])" "u \<le> t" using snoc.prems(1) by (auto simp: sorted_append)
  from Acquire_inv(2) [OF snoc.IH [OF s(1) snoc.prems(2-4)] s(2) snoc.prems(3,4)]
  show ?case using limiter_run_snoc [of m w "ts @ [u]" t] by (simp add: granted_def)
qed

text \<open>C27. On a monotonic clock the limiter never lets more than its cap through in any window: for
  every instant, the granted calls of the window that ends there are at most the cap.\<close>

theorem limiter_window_cap:
  assumes "sorted ts" and "0 \<le> m" and "0 < w" and "w \<le> max_int64"
  shows "int (length (in_window w t (granted m w ts))) \<le> m"
  using assms(1)
proof (induction ts rule: rev_induct)
  case Nil
  then show ?case using assms(2) by (simp add: granted_def in_window_def)
next
  case (snoc u ts)
  have IH: "int (length (in_window w t (granted m w ts))) \<le> m"
    using snoc by (simp add: sorted_append)
  have inv: "limiter_inv m w u (fst (limiter_run m w (ts @ [u]))) (granted m w (ts @ [u]))"
    by (rule limiter_run_inv [OF snoc.prems assms(2-4)])
  show ?case
  proof (cases "u \<le> t")
    case True
    from inv have "int (length (in_window w u (granted m w (ts @ [u])))) \<le> m"
      and "\<forall>x \<in> set (granted m w (ts @ [u])). x \<le> u"
      by (auto simp: limiter_inv_def)
    with True length_in_window_later [of "granted m w (ts @ [u])" u t w] show ?thesis
      by linarith
  next
    case False
    then have "in_window w t (granted m w (ts @ [u])) = in_window w t (granted m w ts)"
      by (cases "limiter_run m w ts") (auto simp: granted_def in_window_def split: prod.splits)
    with IH show ?thesis by simp
  qed
qed

theorem limiter_window_cap_witness:
  "sorted [1, 2, 3 :: int] \<and> granted 2 60 [1, 2, 3] = [1, 2]
   \<and> int (length (in_window 60 3 (granted 2 60 [1, 2, 3]))) \<le> 2"
proof -
  have s: "sorted [1, 2, 3 :: int]" by simp
  have g: "granted 2 60 [1, 2, 3] = [1, 2]" by code_simp
  show ?thesis using s g limiter_window_cap [OF s, of 2 60 3] by simp
qed

text \<open>An attempt is granted exactly when fewer calls than the cap were granted in the window that
  ends now.\<close>

theorem limiter_grants:
  assumes "sorted (ts @ [t, t'])" and "0 \<le> m" and "0 < w" and "w \<le> max_int64"
  shows "fst (Acquire t' (fst (limiter_run m w (ts @ [t]))))
    \<longleftrightarrow> int (length (in_window w t' (granted m w (ts @ [t])))) < m"
proof -
  have "sorted (ts @ [t])" "t \<le> t'" using assms(1) by (auto simp: sorted_append)
  then show ?thesis using Acquire_inv(1) [OF limiter_run_inv] assms(2-4) by blast
qed

theorem limiter_grants_witness:
  "sorted ([1, 2] @ [3, 61 :: int])
   \<and> fst (Acquire 61 (fst (limiter_run 2 60 ([1, 2] @ [3]))))"
proof -
  have s: "sorted ([1, 2] @ [3, 61 :: int])" by simp
  have g: "granted 2 60 [1, 2, 3] = [1, 2]" by code_simp
  show ?thesis using s limiter_grants [OF s, of 2 60] g by (simp add: in_window_def)
qed

text \<open>
  The wait the limiter suggests: after a denied attempt the oldest call of the window leaves it
  \<open>RetryAfter\<close> later, and then a slot is free.
\<close>

lemma in_window_sorted: "sorted g \<Longrightarrow> sorted (in_window w t g)"
  by (simp add: in_window_def sorted_wrt_filter)

lemma RetryAfter_Cons:
  "calls l = c # cs \<Longrightarrow> 0 < window l \<Longrightarrow> window l \<le> max_int64 \<Longrightarrow> c \<le> t \<Longrightarrow> t - c < window l \<Longrightarrow>
    RetryAfter t l = window l - (t - c)"
  by (simp add: RetryAfter_def Let_def time_sub_def)

text \<open>After a denied attempt, an attempt made once the suggested wait has passed is granted (when
  nobody else took a slot in between).\<close>

theorem limiter_wait_suffices:
  assumes "limiter_inv m w t l g" and "sorted g" and "0 < m" and "0 < w" and "w \<le> max_int64"
    and "Acquire t l = (False, l')" and "t + RetryAfter t l' \<le> t'"
  shows "fst (Acquire t' l')"
proof -
  have l': "l' = pruneLocked t l" and full: "\<not> int (length (calls l')) < maxCalls l'"
    using assms(6) by (auto simp: Acquire_def Let_def split: if_splits)
  have k: "maxCalls l' = m" "window l' = w" "calls l' = in_window w t g"
    using assms(1,4,5) in_window_later [of g t t w]
    by (simp_all add: l' pruneLocked_def limiter_inv_def time_sub_less)
  have len: "int (length (calls l')) = m"
    using full k assms(1) by (auto simp: limiter_inv_def)
  then obtain c cs where c: "calls l' = c # cs" using assms(3) by (cases "calls l'") auto
  have c_in: "c \<le> t" "t - w < c" using c k(3)
    by (auto simp: in_window_def filter_eq_Cons_iff)
  then have "RetryAfter t l' = w - (t - c)" using RetryAfter_Cons [OF c] k(2) assms(4,5) by simp
  with assms(7) have out: "\<not> t' - c < w" by simp
  have "length (filter (\<lambda>u. time_sub t' u < w) (calls l')) \<le> length cs"
    using out assms(4,5) by (simp add: c time_sub_less)
  then show ?thesis using len c k by (simp add: Acquire_def Let_def pruneLocked_def)
qed

theorem limiter_wait_suffices_witness:
  "Acquire 3 \<lparr>maxCalls = 2, window = 60, calls = [1, 2]\<rparr>
     = (False, \<lparr>maxCalls = 2, window = 60, calls = [1, 2]\<rparr>)
   \<and> fst (Acquire 61 \<lparr>maxCalls = 2, window = 60, calls = [1, 2]\<rparr>)"
proof -
  let ?l = "\<lparr>maxCalls = 2, window = 60, calls = [1, 2]\<rparr>"
  have a: "Acquire 3 ?l = (False, ?l)"
    by (simp add: Acquire_def pruneLocked_def time_sub_def)
  have i: "limiter_inv 2 60 3 ?l [1, 2]" by (simp add: limiter_inv_def in_window_def)
  show ?thesis using a limiter_wait_suffices [OF i _ _ _ _ a, of 61]
    by (simp add: RetryAfter_def time_sub_def)
qed

end
