(* ===== verification/Backoff.thy ===== *)
theory Backoff
  imports GoText
begin

text \<open>
  The delays of transport.go: the retry delay between two attempts, the gate armed by a failed flush
  and the Retry-After header. They are computed in float64 and converted to an int64 duration; what
  the conversion gives out of range is the platform's, the parameter \<open>oor\<close>.
\<close>

section \<open>Operations\<close>

abbreviation maxRetryAfterSeconds :: int where "maxRetryAfterSeconds \<equiv> 300"
abbreviation defaultRetryAfterSeconds :: int where "defaultRetryAfterSeconds \<equiv> 60"
abbreviation maxRetryBackoff :: duration where "maxRetryBackoff \<equiv> 60 * Second"
abbreviation maxPartialBackoff :: duration where "maxPartialBackoff \<equiv> 300 * Second"

text \<open>\<open>math.Pow(2, x)\<close> for an integer \<open>x\<close>: exact while it is representable.\<close>

definition pow2 :: "int \<Rightarrow> f64" where
  "pow2 e = (if e < 0 then rnd64 (1 / 2 ^ nat (- e)) else if 1024 \<le> e then PInf else rnd64 (2 ^ nat e))"

definition retryBackoff :: "(f64 \<Rightarrow> int) \<Rightarrow> int \<Rightarrow> f64 \<Rightarrow> duration" where
  "retryBackoff oor attempt factor =
    (if attempt > 30 then maxRetryBackoff else
     let d = f64_to_int64 oor (f64_mul (f64_mul factor (pow2 attempt)) (f64_of_int Second)) in
     if d \<le> 0 then Second else if d > maxRetryBackoff then maxRetryBackoff else d)"

definition partialFailureBackoff :: "(f64 \<Rightarrow> int) \<Rightarrow> int \<Rightarrow> duration \<Rightarrow> duration" where
  "partialFailureBackoff oor streak0 interval =
    (let streak = (if streak0 < 1 then 1 else streak0);
         d = f64_to_int64 oor (f64_mul (f64_of_int interval) (pow2 (streak - 1))) in
     if d \<le> 0 \<or> d > maxPartialBackoff then maxPartialBackoff else d)"

definition parseRetryAfter :: "(f64 \<Rightarrow> int) \<Rightarrow> gostring \<Rightarrow> duration" where
  "parseRetryAfter oor header0 =
    (let header = TrimSpace header0;
         secs = (case Atoi header of Some v \<Rightarrow> f64_of_int v
           | None \<Rightarrow> (case ParseFloat header of Some f \<Rightarrow> f
             | None \<Rightarrow> f64_of_int defaultRetryAfterSeconds));
         secs = (if secs < f64_of_int 0 then f64_of_int 0 else secs);
         secs = (if f64_of_int maxRetryAfterSeconds < secs
           then f64_of_int maxRetryAfterSeconds else secs) in
     f64_to_int64 oor (f64_mul secs (f64_of_int Second)))"

section \<open>Conversions\<close>

lemma f64_to_int64_int [simp]:
  "min_int64 \<le> n \<Longrightarrow> n \<le> max_int64 \<Longrightarrow> f64_to_int64 oor (Fin (of_int n)) = n"
  by (simp add: f64_to_int64_def Let_def)

lemma f64_to_int64_ge:
  assumes "Fin (of_int c) \<le> x" "0 \<le> c"
  shows "c \<le> f64_to_int64 oor x \<or> f64_to_int64 oor x = oor x"
proof (cases x)
  case (Fin r)
  with assms have "of_int c \<le> r" by simp
  then have "c \<le> \<lfloor>r\<rfloor>" and "\<not> r < 0" using assms(2) by (auto simp: le_floor_iff order_trans)
  with Fin show ?thesis by (auto simp: f64_to_int64_def Let_def)
qed (auto simp: f64_to_int64_def)

lemma f64_to_int64_between:
  assumes "0 \<le> r" "r \<le> of_int c" "c \<le> max_int64"
  shows "0 \<le> f64_to_int64 oor (Fin r) \<and> f64_to_int64 oor (Fin r) \<le> c"
proof -
  have "0 \<le> \<lfloor>r\<rfloor>" "\<lfloor>r\<rfloor> \<le> c" using assms(1,2) by (auto simp: floor_le_iff)
  with assms show ?thesis by (auto simp: f64_to_int64_def Let_def)
qed

lemma pow2_exact: "0 \<le> e \<Longrightarrow> e < 1024 \<Longrightarrow> pow2 e = Fin (2 ^ nat e)"
proof -
  assume e: "0 \<le> e" "e < 1024"
  have "representable (2 ^ nat e)" using e by (intro representableI [of _ 1 e]) (auto simp: power_int_def)
  moreover have "(2::rat) ^ nat e < 2 ^ 1024" using e by (intro power_strict_increasing) auto
  ultimately show ?thesis using e by (simp add: pow2_def rnd64_exact)
qed

text \<open>
  The product of a positive integer and a power of two: exact while it is small, and beyond a bound
  whenever the exact product is.
\<close>

lemma mul_pow2_small:
  assumes "0 < n" "0 \<le> e" "n * 2 ^ nat e \<le> 2 ^ 53"
  shows "f64_mul (Fin (of_int n)) (pow2 e) = Fin (of_int (n * 2 ^ nat e))"
proof -
  have "2 ^ nat e \<le> n * 2 ^ nat e" using assms(1) by simp
  with assms(3) have "(2::int) ^ nat e \<le> 2 ^ 53" by linarith
  then have e: "nat e \<le> 53" by (rule power_le_imp_le_exp [rotated]) simp
  have p: "pow2 e = Fin (2 ^ nat e)" using assms(2) e by (intro pow2_exact) auto
  have "rnd64 (of_int (n * 2 ^ nat e)) = Fin (of_int (n * 2 ^ nat e))"
    using f64_of_int_exact [of "n * 2 ^ nat e"] assms by (simp add: f64_of_int_def)
  then show ?thesis by (simp add: f64_mul_def p)
qed

lemma mul_pow2_large:
  assumes "Fin (of_int a) \<le> x" "0 < a" "0 \<le> e" "0 \<le> c" "c \<le> 2 ^ 53" "c \<le> a * 2 ^ nat e"
  shows "Fin (of_int c) \<le> f64_mul x (pow2 e)"
proof (cases x)
  case (Fin r)
  with assms(1,2) have r: "of_int a \<le> r" "0 < r" by (auto intro: less_le_trans)
  show ?thesis
  proof (cases "e < 1024")
    case True
    have "rat_of_int c \<le> of_int (a * 2 ^ nat e)" using assms(6) by (simp only: of_int_le_iff)
    also have "\<dots> = of_int a * 2 ^ nat e" by simp
    also have "\<dots> \<le> r * 2 ^ nat e" using r by (simp add: mult_right_mono)
    finally have "Fin (of_int c) \<le> rnd64 (r * 2 ^ nat e)"
      using assms r by (intro rnd64_ge representable_int) auto
    then show ?thesis using True assms by (simp add: f64_mul_def pow2_exact Fin)
  next
    case False
    then show ?thesis using assms r by (simp add: f64_mul_def pow2_def f64_sgn_def f64_inf_def Fin)
  qed
next
  case PInf
  have "f64_sgn (pow2 e) = 1"
    using assms(3) by (cases "e < 1024") (simp_all add: pow2_exact f64_sgn_def, simp add: pow2_def)
  then show ?thesis using PInf
    by (auto simp: f64_mul_def f64_sgn_def f64_inf_def split: f64.splits if_splits)
qed (use assms(1) in \<open>simp_all add: less_eq_f64_def f64_eq_def\<close>)

lemma f64_of_int_ge:
  assumes "0 \<le> c" "c \<le> 2 ^ 53" "c \<le> n" "0 < n"
  shows "Fin (of_int c) \<le> f64_of_int n"
  unfolding f64_of_int_def using assms by (intro rnd64_ge representable_int) auto

text \<open>
  Out of the range of int64 the conversion saturates or gives the least int64, on every platform Go
  supports.
\<close>

definition platform :: "(f64 \<Rightarrow> int) \<Rightarrow> bool" where
  "platform oor \<longleftrightarrow> (\<forall>x. oor x = min_int64 \<or> oor x = max_int64)"

section \<open>What the delays are\<close>



lemma f64_mul_ge:
  assumes "Fin (of_int a) \<le> x" "0 < a" "0 < b" "0 \<le> c" "c \<le> 2 ^ 53" "c \<le> a * b"
  shows "Fin (of_int c) \<le> f64_mul x (Fin (of_int b))"
proof (cases x)
  case (Fin r)
  with assms(1,2) have r: "of_int a \<le> r" "0 < r" by (auto intro: less_le_trans)
  have "rat_of_int c \<le> of_int (a * b)" using assms(6) by (simp only: of_int_le_iff)
  also have "\<dots> = of_int a * of_int b" by simp
  also have "\<dots> \<le> r * of_int b" using r assms(3) by (simp add: mult_right_mono)
  finally have "Fin (of_int c) \<le> rnd64 (r * of_int b)"
    using assms r by (intro rnd64_ge representable_int) auto
  then show ?thesis by (simp add: f64_mul_def Fin)
next
  case PInf
  then show ?thesis using assms(3) by (simp add: f64_mul_def f64_sgn_def f64_inf_def)
qed (use assms(1) in \<open>simp_all add: less_eq_f64_def f64_eq_def\<close>)

lemma retryBackoff_bounds:
  "0 < retryBackoff oor attempt factor \<and> retryBackoff oor attempt factor \<le> 60 * Second"
  by (simp add: retryBackoff_def Let_def)

lemma f64_Second [simp]: "f64_of_int Second = Fin 1000000000"
  using f64_of_int_exact [of Second] by simp

text \<open>C29. The delay before a retry lies in (0, 60s] whatever the configured factor is (NaN and the
  infinities included), and for a whole number of seconds it is min(factor * 2^attempt, 60s), as long as the product stays
  below nine thousand million seconds, where it still fits a duration.\<close>

theorem retryBackoff_formula:
  assumes n: "0 < n" and a: "0 \<le> attempt" and fits: "n * 2 ^ nat (min attempt 30) \<le> 9000000000"
  shows "(\<forall>factor. 0 < retryBackoff oor attempt factor \<and> retryBackoff oor attempt factor \<le> 60 * Second)
    \<and> retryBackoff oor attempt (f64_of_int n) = min (n * 2 ^ nat attempt * Second) (60 * Second)"
proof -
  have "1 * n \<le> 2 ^ nat (min attempt 30) * n" using n by (intro mult_right_mono) auto
  with fits have n53: "n \<le> 2 ^ 53" by (simp add: mult.commute)
  have "retryBackoff oor attempt (f64_of_int n) = min (n * 2 ^ nat attempt * Second) (60 * Second)"
  proof (cases "n * 2 ^ nat attempt \<le> 60")
    case True
    have "attempt \<le> 30"
    proof (rule ccontr)
      assume "\<not> attempt \<le> 30"
      then have "(2::int) ^ 6 \<le> 2 ^ nat attempt" by (intro power_increasing) auto
      moreover have "1 * 2 ^ nat attempt \<le> n * 2 ^ nat attempt" using n(1) by (intro mult_right_mono) auto
      ultimately show False using True by simp
    qed
    moreover have "f64_mul (f64_of_int n) (pow2 attempt) = Fin (of_int (n * 2 ^ nat attempt))"
      using mul_pow2_small [of n attempt] n a True n53 by simp
    moreover have "f64_mul (Fin (of_int (n * 2 ^ nat attempt))) (f64_of_int Second)
        = Fin (of_int (n * 2 ^ nat attempt * Second))"
      using f64_of_int_exact [of "n * 2 ^ nat attempt * Second"] True n
      by (simp add: f64_mul_def f64_of_int_def [of "n * 2 ^ nat attempt * Second"])
    moreover have "0 < n * 2 ^ nat attempt" using n(1) by simp
    ultimately show ?thesis using True
      by (simp add: retryBackoff_def Let_def f64_to_int64_int del: of_int_mult)
  next
    case False
    show ?thesis
    proof (cases "attempt > 30")
      case True
      with False show ?thesis by (simp add: retryBackoff_def)
    next
      case f: False
      let ?p = "n * 2 ^ nat attempt"
      have p: "61 \<le> ?p" "?p \<le> 9000000000" using False fits f a by (auto simp: min_def)
      have e: "f64_mul (f64_of_int n) (pow2 attempt) = Fin (of_int ?p)"
        using mul_pow2_small [of n attempt] n a n53 p by simp
      have q: "61 * Second \<le> ?p * Second" "?p * Second \<le> 9000000000 * Second" using p by auto
      let ?r = "rat_of_int (?p * Second)"
      have q': "of_int (61 * Second) \<le> ?r" "?r \<le> of_int (9000000000 * Second)"
        using q by (simp_all only: of_int_le_iff)
      then have r: "0 < ?r" by simp
      have lo: "Fin (of_int (61 * Second)) \<le> rnd64 ?r"
        by (rule rnd64_ge [OF representable_int r q'(1)]) auto
      have "representable (rat_of_int (9000000000 * Second))"
        by (rule representableI [of _ "34332275390625" 18]) (auto simp: power_int_def)
      then have "rnd64 ?r \<le> Fin (of_int (9000000000 * Second))"
        by (rule rnd64_le [OF _ r q'(2)]) simp
      with lo obtain v where v: "rnd64 ?r = Fin v"
          "of_int (61 * Second) \<le> v" "v \<le> of_int (9000000000 * Second)"
        by (cases "rnd64 ?r") auto
      then have "61 * Second \<le> \<lfloor>v\<rfloor>" "\<lfloor>v\<rfloor> \<le> 9000000000 * Second" "\<not> v < 0"
        by (simp_all add: le_floor_iff floor_le_iff)
      then have "61 * Second \<le> f64_to_int64 oor (Fin v)"
        by (simp add: f64_to_int64_def Let_def)
      moreover have "f64_mul (Fin (of_int ?p)) (f64_of_int Second) = Fin v"
        using v(1) by (simp add: f64_mul_def)
      ultimately show ?thesis using False f e by (simp add: retryBackoff_def Let_def)
    qed
  qed
  then show ?thesis using retryBackoff_bounds by blast
qed

theorem retryBackoff_formula_witness:
  "retryBackoff (\<lambda>x. max_int64) 3 (f64_of_int 1) = 8 * Second
   \<and> retryBackoff (\<lambda>x. max_int64) 40 (f64_of_int 2) = 60 * Second"
  using retryBackoff_formula [of 1 3 "\<lambda>x. max_int64"] retryBackoff_formula [of 2 40 "\<lambda>x. max_int64"]
  by (simp add: min_def split: if_splits)

text \<open>The cap fails for a huge factor where the conversion gives the least int64 (amd64): with a
  factor of 10000 million seconds the delay is one second, not the documented 60 seconds.\<close>

theorem retryBackoff_overflow:
  "retryBackoff (\<lambda>x. min_int64) 0 (f64_of_int 10000000000) = Second"
proof -
  have p: "pow2 0 = Fin 1" using pow2_exact [of 0] by simp
  have r: "rnd64 10000000000 = Fin 10000000000" "rnd64 10000000000000000000 = Fin 10000000000000000000"
    using rnd64_exact [OF representableI [of _ 10000000000 0]]
      rnd64_exact [OF representableI [of _ "19073486328125" 19]] by (simp_all add: power_int_def)
  show ?thesis by (simp add: retryBackoff_def f64_mul_def p r f64_to_int64_def f64_of_int_def [of 10000000000])
qed

text \<open>The clamped number of seconds of a Retry-After header, before its conversion.\<close>

lemma clamp_seconds:
  assumes "x \<noteq> NaN"
  obtains r where "0 \<le> r" "r \<le> 300"
    "(let secs = (if x < f64_of_int 0 then f64_of_int 0 else x) in
      if f64_of_int maxRetryAfterSeconds < secs then f64_of_int maxRetryAfterSeconds else secs) = Fin r"
proof (cases x)
  case (Fin v)
  then show ?thesis using that [of "min 300 (max 0 v)"] by (auto simp: Let_def min_def max_def)
next
  case PInf
  then show ?thesis using that [of 300] by (auto simp: Let_def less_f64_def)
next
  case NInf
  then show ?thesis using that [of 0] by (auto simp: Let_def less_f64_def)
qed (use assms in simp)

lemma seconds_conversion:
  assumes "0 \<le> r" "r \<le> 300"
  shows "0 \<le> f64_to_int64 oor (f64_mul (Fin r) (f64_of_int Second))
    \<and> f64_to_int64 oor (f64_mul (Fin r) (f64_of_int Second)) \<le> 300 * Second"
proof (cases "r = 0")
  case False
  with assms have r: "0 < r * 1000000000" "r * 1000000000 \<le> of_int (300 * Second)" by auto
  have "rnd64 (r * 1000000000) \<le> Fin (of_int (300 * Second))"
    by (rule rnd64_le [OF representable_int r]) auto
  with rnd64_nonneg [OF r(1)] obtain v where "rnd64 (r * 1000000000) = Fin v" "0 \<le> v" "v \<le> of_int (300 * Second)"
    by (cases "rnd64 (r * 1000000000)") auto
  then show ?thesis using f64_to_int64_between [of v "300 * Second" oor] by (simp add: f64_mul_def)
qed (simp add: f64_mul_def rnd64_def f64_to_int64_def)

definition is_nan_header :: "gostring \<Rightarrow> bool" where
  "is_nan_header h \<longleftrightarrow> Atoi (TrimSpace h) = None \<and> ParseFloat (TrimSpace h) = Some NaN"

lemma f64_of_int_not_NaN [simp]: "f64_of_int n \<noteq> NaN"
  by (simp add: f64_of_int_def rnd64_def Let_def)

lemma parseRetryAfter_cases:
  "if is_nan_header h then parseRetryAfter oor h = oor NaN
   else 0 \<le> parseRetryAfter oor h \<and> parseRetryAfter oor h \<le> 300 * Second"
proof -
  let ?x = "case Atoi (TrimSpace h) of Some v \<Rightarrow> f64_of_int v
     | None \<Rightarrow> (case ParseFloat (TrimSpace h) of Some f \<Rightarrow> f | None \<Rightarrow> f64_of_int defaultRetryAfterSeconds)"
  show ?thesis
  proof (cases "is_nan_header h")
    case True
    then have "?x = NaN" by (simp add: is_nan_header_def)
    with True show ?thesis by (simp add: parseRetryAfter_def f64_mul_def f64_to_int64_def)
  next
    case False
    then have "?x \<noteq> NaN"
      using f64_of_int_not_NaN by (auto simp: is_nan_header_def split: option.splits)
    then obtain r where "0 \<le> r" "r \<le> 300"
      "(let secs = (if ?x < f64_of_int 0 then f64_of_int 0 else ?x) in
        if f64_of_int maxRetryAfterSeconds < secs then f64_of_int maxRetryAfterSeconds else secs) = Fin r"
      by (rule clamp_seconds)
    then show ?thesis using False seconds_conversion [of r oor]
      by (simp add: parseRetryAfter_def Let_def)
  qed
qed

text \<open>The delay honoured for a Retry-After header lies in [0s, 300s], for every header a server can
  send except one that spells NaN; there the result is what the platform's conversion gives.\<close>

theorem parseRetryAfter_bounds:
  "if is_nan_header h then parseRetryAfter oor h = oor NaN
   else 0 \<le> parseRetryAfter oor h \<and> parseRetryAfter oor h \<le> 300 * Second"
  by (rule parseRetryAfter_cases)

text \<open>A Retry-After header that is a whole number of seconds is honoured exactly, up to the cap of
  300 seconds, also with white space around it.\<close>

theorem parseRetryAfter_seconds:
  assumes "TrimSpace h = show_nat n" and "int n \<le> max_int64"
  shows "parseRetryAfter oor h = min (int n) 300 * Second"
proof (cases "n \<le> 300")
  case True
  have "f64_mul (f64_of_int (int n)) (f64_of_int Second) = f64_of_int (int n * Second)"
    using True by (simp add: f64_mul_def f64_of_int_def [of "int n * Second"])
  then have "f64_mul (Fin (of_int (int n))) (f64_of_int Second) = Fin (of_int (int n * Second))"
    using True by (simp del: of_int_mult)
  then show ?thesis using True assms
    by (simp add: parseRetryAfter_def Let_def Atoi_show_nat f64_to_int64_int del: of_int_mult of_int_of_nat_eq)
next
  case False
  have "Fin 300 < f64_of_int (int n)"
    using f64_of_int_ge [of 301 "int n"] False
    by (cases "f64_of_int (int n)") auto
  moreover have "\<not> f64_of_int (int n) < Fin 0"
    using f64_of_int_ge [of 0 "int n"] False by (cases "f64_of_int (int n)") auto
  moreover have "f64_mul (Fin 300) (Fin 1000000000) = Fin 300000000000"
    using f64_of_int_exact [of "300 * Second"] by (simp add: f64_mul_def f64_of_int_def)
  moreover have "f64_to_int64 oor (Fin 300000000000) = 300000000000" by (simp add: f64_to_int64_def)
  ultimately show ?thesis using False assms
    by (simp add: parseRetryAfter_def Let_def Atoi_show_nat)
qed

theorem parseRetryAfter_seconds_witness:
  "TrimSpace '' 120 '' = show_nat 120 \<and> parseRetryAfter (\<lambda>x. 0) '' 120 '' = 120 * Second"
proof -
  have h: "TrimSpace '' 120 '' = show_nat 120" by code_simp
  show ?thesis using h parseRetryAfter_seconds [OF h, of "\<lambda>x. 0"] by simp
qed

text \<open>The clamp of the Retry-After header does not hold for the header NaN: where the conversion of
  NaN gives the least int64 (amd64) the delay is negative, so the retry does not wait at all.\<close>

theorem parseRetryAfter_nan:
  "parseRetryAfter (\<lambda>x. min_int64) ''NaN'' = min_int64"
proof -
  have "is_nan_header ''NaN''" by code_simp
  then show ?thesis using parseRetryAfter_cases [of "''NaN''" "\<lambda>x. min_int64"] by simp
qed

end
