(* ===== verification/Models.thy ===== *)
theory Models
  imports Errors
begin

text \<open>
  models.go: the telemetry records, the wire payloads, the metric and event vocabularies, and the
  generated identifiers. A JSON-taggable optional pointer is an option; a Go map is the list of its
  entries, with distinct keys, in some order (None for a nil map).
\<close>

section \<open>Vocabularies\<close>

abbreviation StatusHealthy :: gostring where "StatusHealthy \<equiv> ''healthy''"
abbreviation StatusDegraded :: gostring where "StatusDegraded \<equiv> ''degraded''"
abbreviation StatusFailed :: gostring where "StatusFailed \<equiv> ''failed''"

definition knownMetricTypes :: "gostring list" where
  "knownMetricTypes = [''request_count'', ''response_time'', ''error_rate'', ''bandwidth_usage'',
     ''threat_level'', ''block_rate'', ''cache_hit_rate'']"

definition validMetricType :: "gostring \<Rightarrow> bool" where
  "validMetricType t \<longleftrightarrow> List.member knownMetricTypes t"

definition KnownEventTypes :: "gostring list" where
  "KnownEventTypes = [''ip_banned'', ''ip_unbanned'', ''ip_blocked'', ''ip_ban_failed'',
     ''rate_limited'', ''rate_limit_script_reloaded'', ''suspicious_request'', ''cloud_blocked'',
     ''country_blocked'', ''penetration_attempt'', ''behavioral_violation'', ''user_agent_blocked'',
     ''custom_request_check'', ''decorator_violation'', ''decoding_error'',
     ''detection_engine_callback_error'', ''geo_lookup_failed'', ''https_enforced'',
     ''pattern_anomaly_slow_execution'', ''pattern_anomaly_timeout'',
     ''pattern_anomaly_statistical_anomaly'', ''redis_connection'', ''redis_error'',
     ''dynamic_rule_applied'', ''dynamic_rule_updated'', ''path_excluded'', ''route_unresolved'',
     ''pattern_detected'', ''pattern_added'', ''pattern_removed'', ''access_denied'',
     ''authentication_failed'', ''content_filtered'', ''emergency_mode_activated'',
     ''emergency_mode_block'', ''dynamic_rule_violation'', ''security_bypass'',
     ''security_headers_applied'', ''csp_violation'']"

fun in_known :: "gostring list \<Rightarrow> gostring \<Rightarrow> bool" where
  "in_known [] t = False"
| "in_known (known # ks) t = (if known = t then True else in_known ks t)"

definition IsKnownEventType :: "gostring \<Rightarrow> bool" where
  "IsKnownEventType t = in_known KnownEventTypes t"

section \<open>Telemetry\<close>

text \<open>
  The dynamic type \<open>any\<close>: one constructor per group of the types that the type switches of redact.go
  and encryption.go tell apart; \<open>GOther\<close> is every other dynamic type.
\<close>

datatype goval =
    GNil
  | GBool bool
  | GInt int \<comment> \<open>int, int8 to int64\<close>
  | GUint nat \<comment> \<open>uint, uint8 to uint64\<close>
  | GFloat32 f64
  | GFloat64 f64
  | GBytes gostring \<comment> \<open>[]byte\<close>
  | GString gostring
  | GTime gotime
  | GDuration duration
  | GNumber gostring \<comment> \<open>json.Number\<close>
  | GMap "(gostring \<times> goval) list" \<comment> \<open>map[string]any\<close>
  | GStrMap "(gostring \<times> gostring) list" \<comment> \<open>map[string]string\<close>
  | GSlice "goval list" \<comment> \<open>[]any\<close>
  | GStrSlice "gostring list" \<comment> \<open>[]string\<close>
  | GRaw gostring \<comment> \<open>json.RawMessage\<close>
  | GOther gostring

type_synonym gomap = "(gostring \<times> goval) list"

record SecurityEvent =
  ev_Timestamp :: gotime
  ev_EventType :: gostring
  ev_IdempotencyKey :: gostring
  ev_IPAddress :: gostring
  ev_Country :: gostring
  ev_UserAgent :: gostring
  ev_ActionTaken :: gostring
  ev_Reason :: gostring
  ev_Endpoint :: gostring
  ev_Method :: gostring
  ev_StatusCode :: "int option"
  ev_ResponseTime :: "f64 option"
  ev_DecoratorType :: gostring
  ev_RuleType :: gostring
  ev_PatternMatched :: gostring
  ev_HandlerName :: gostring
  ev_Metadata :: "gomap option"

record SecurityMetric =
  m_Timestamp :: gotime
  m_MetricType :: gostring
  m_Value :: f64
  m_Endpoint :: gostring
  m_Tags :: "(gostring \<times> gostring) list option"

record eventBatch =
  b_ProjectID :: gostring
  b_Events :: "SecurityEvent list"
  b_Metrics :: "SecurityMetric list"
  b_BatchID :: gostring
  b_CreatedAt :: gotime
  b_Compressed :: bool
  b_AgentVersion :: gostring
  b_GuardVersion :: gostring
  b_GuardCoreVersion :: gostring

record agentStatusPayload =
  s_Timestamp :: gotime
  s_Status :: gostring
  s_Uptime :: f64
  s_EventsSent :: counter
  s_EventsFailed :: counter
  s_BufferSize :: int
  s_LastFlush :: "gotime option"
  s_Errors :: "gostring list"

record batchResponse =
  r_Success :: bool
  r_Errors :: "gostring list"

text \<open>An event for the closed examples.\<close>

definition sample_event :: SecurityEvent where
  "sample_event = \<lparr>ev_Timestamp = 1, ev_EventType = ''ip_banned'', ev_IdempotencyKey = ''key'',
     ev_IPAddress = [], ev_Country = [], ev_UserAgent = [], ev_ActionTaken = [], ev_Reason = [],
     ev_Endpoint = [], ev_Method = [], ev_StatusCode = None, ev_ResponseTime = None,
     ev_DecoratorType = [], ev_RuleType = [], ev_PatternMatched = [], ev_HandlerName = [],
     ev_Metadata = None\<rparr>"

section \<open>Identifiers\<close>

text \<open>
  The entropy source is the package variable \<open>cryptoRandRead\<close>: \<open>rand n\<close> is what it fills a buffer of
  \<open>n\<close> bytes with, or None for its error; \<open>fallback\<close> is the counter after \<open>uuidFallbackCounter.Add(1)\<close>
  and \<open>nanos\<close> is \<open>time.Now().UnixNano()\<close>.
\<close>

text \<open>\<open>UnixNano\<close> and \<open>UnixMilli\<close> of an instant: the epoch is 62135596800 seconds after year 1.\<close>

abbreviation unix_epoch :: gotime where "unix_epoch \<equiv> 62135596800 * Second"

definition UnixNano :: "gotime \<Rightarrow> int" where
  "UnixNano t = wrap64 (t - unix_epoch)"

definition UnixMilli :: "gotime \<Rightarrow> int" where
  "UnixMilli t = (t - unix_epoch) div Millisecond"

definition be64 :: "64 word \<Rightarrow> gostring" where
  "be64 w = map (\<lambda>i. char_of (unat (drop_bit (8 * i) w) mod 256)) [7, 6, 5, 4, 3, 2, 1, 0]"

lemma length_be64 [simp]: "length (be64 w) = 8"
  by (simp add: be64_def)

definition uuid_stamp :: "gostring \<Rightarrow> gostring" where
  "uuid_stamp b = b[6 := char_of (code (b ! 6) mod 16 + 64), 8 := char_of (code (b ! 8) mod 64 + 128)]"

definition uuid_format :: "gostring \<Rightarrow> gostring" where
  "uuid_format b = hexEncode (take 4 b) @ ''-'' @ hexEncode (take 2 (drop 4 b)) @ ''-''
     @ hexEncode (take 2 (drop 6 b)) @ ''-'' @ hexEncode (take 2 (drop 8 b)) @ ''-''
     @ hexEncode (take 6 (drop 10 b))"

definition newUUID4 :: "gostring option \<Rightarrow> int \<Rightarrow> 64 word \<Rightarrow> gostring" where
  "newUUID4 rand16 nanos fallback =
    (let b = (case rand16 of Some bs \<Rightarrow> bs | None \<Rightarrow> be64 (word_of_int nanos) @ be64 fallback) in
     uuid_format (uuid_stamp b))"

text \<open>\<open>fmt.Sprintf("%0*x", width, n)\<close>: lower-case hexadecimal, zero-padded on the left.\<close>

fun show_hex :: "nat \<Rightarrow> gostring" where
  "show_hex n = (if n < 16 then [hex_digit n] else show_hex (n div 16) @ [hex_digit (n mod 16)])"

declare show_hex.simps [simp del]

definition pad_hex :: "nat \<Rightarrow> nat \<Rightarrow> gostring" where
  "pad_hex w n = (let h = show_hex n in replicate (w - length h) (CHR ''0'') @ h)"

definition randomHex :: "gostring option \<Rightarrow> nat \<Rightarrow> 64 word \<Rightarrow> gostring" where
  "randomHex rand n fallback = (case rand of
     None \<Rightarrow> pad_hex (n * 2) (unat fallback) | Some buf \<Rightarrow> hexEncode buf)"

text \<open>
  The shape of a version-4 UUID: 36 characters, dashes after 8, 13, 18 and 23, the version digit 4 and
  a variant digit among 8, 9, a and b, lower-case hexadecimal elsewhere.
\<close>

definition hex_lower :: "char \<Rightarrow> bool" where
  "hex_lower c \<longleftrightarrow> byte_in 48 57 c \<or> byte_in 97 102 c"

definition uuid4_shape :: "gostring \<Rightarrow> bool" where
  "uuid4_shape s \<longleftrightarrow> length s = 36
     \<and> list_all (\<lambda>i. if i \<in> {8, 13, 18, 23} then s ! i = CHR ''-'' else hex_lower (s ! i)) [0..<36]
     \<and> s ! 14 = CHR ''4'' \<and> s ! 19 \<in> set ''89ab''"

lemma hex_lower_digit: "n < 16 \<Longrightarrow> hex_lower (hex_digit n)"
  by (auto simp: hex_lower_def hex_digit_def byte_in_def)

lemma code_less [simp]: "code c < (256::nat)"
  by (metis mod_less_divisor of_char_mod_256 zero_less_numeral)

lemma hexEncode_simps [simp]:
  "hexEncode [] = []"
  "hexEncode (b # bs) = hex_digit (code b div 16) # hex_digit (code b mod 16) # hexEncode bs"
  by (simp_all add: hexEncode_def)

lemma list16_cases:
  "length b = 16 \<Longrightarrow> \<exists>x0 x1 x2 x3 x4 x5 x6 x7 x8 x9 xa xb xc xd xe xf.
    b = [x0, x1, x2, x3, x4, x5, x6, x7, x8, x9, xa, xb, xc, xd, xe, xf]"
  by (auto simp: length_Suc_conv eval_nat_numeral)

lemma div16_less [simp]: "code c div 16 < (16::nat)"
  using code_less [of c] by linarith

lemma hex_digit_table:
  "hex_digit 4 = CHR ''4''" "hex_digit 8 = CHR ''8''" "hex_digit 9 = CHR ''9''"
  "hex_digit 10 = CHR ''a''" "hex_digit 11 = CHR ''b''"
  by code_simp+

lemma version_digit: "hex_digit ((n mod 16 + 64) div 16) = CHR ''4''"
proof -
  have "(n mod 16 + 64) div 16 = 4" using mod_less_divisor [of 16 n] by linarith
  then show ?thesis by (simp add: hex_digit_table)
qed

lemma variant_digit: "hex_digit ((n mod 64 + 128) div 16) \<in> set ''89ab''"
proof -
  have "(n mod 64 + 128) div 16 \<in> {8, 9, 10, 11}" using mod_less_divisor [of 64 n] by auto
  then show ?thesis by (auto simp: hex_digit_table)
qed

lemma of_char_stamp [simp]:
  "code (char_of (n mod 16 + 64 :: nat)) = n mod 16 + (64::nat)"
  "code (char_of (n mod 64 + 128 :: nat)) = n mod 64 + (128::nat)"
proof -
  have "n mod 16 + 64 < (256::nat)" "n mod 64 + 128 < (256::nat)"
    using mod_less_divisor [of 16 n] mod_less_divisor [of 64 n] by linarith+
  then show "code (char_of (n mod 16 + 64 :: nat)) = n mod 16 + (64::nat)"
    "code (char_of (n mod 64 + 128 :: nat)) = n mod 64 + (128::nat)" by simp_all
qed

lemma uuid_shape_format:
  assumes "length b = 16"
  shows "uuid4_shape (uuid_format (uuid_stamp b))"
proof -
  have d: "(n mod 16 + 64) div 16 < 16" "(n mod 64 + 128) div 16 < (16::nat)" for n :: nat
    using mod_less_divisor [of 16 n] mod_less_divisor [of 64 n] by linarith+
  obtain x0 x1 x2 x3 x4 x5 x6 x7 x8 x9 xa xb xc xd xe xf where
    b: "b = [x0, x1, x2, x3, x4, x5, x6, x7, x8, x9, xa, xb, xc, xd, xe, xf]"
    using list16_cases [OF assms] by blast
  show ?thesis unfolding b uuid_stamp_def
    using version_digit [of "code x6"] variant_digit [of "code x8"] d
      hex_lower_digit [of 4, unfolded hex_digit_table]
    by (simp add: uuid_format_def uuid4_shape_def hex_lower_digit upt_rec)
qed

text \<open>Every generated identifier is a well-formed version-4 UUID, also when the entropy source
  fails and the clock and the fallback counter are used.\<close>

theorem newUUID4_wellformed:
  assumes "\<forall>bs. rand16 = Some bs \<longrightarrow> length bs = 16"
  shows "uuid4_shape (newUUID4 rand16 nanos fallback)"
  using assms by (auto simp: newUUID4_def Let_def intro!: uuid_shape_format split: option.splits)

theorem newUUID4_wellformed_witness:
  "uuid4_shape (newUUID4 None 1700000000000000000 1)"
  by (rule newUUID4_wellformed) simp

end
