(* ===== verification/World.thy ===== *)
theory World
  imports Models
begin

text \<open>
  What the agent's code meets outside itself. \<open>env\<close> is the outside as a set of answers, fixed but
  arbitrary: the network, the Redis server, the entropy source, the file system, the test seams the
  code keeps in package variables (\<open>jsonMarshal\<close>, \<open>newGzipWriter\<close>, \<open>cryptoRandRead\<close>) and the crypto
  and URL packages. \<open>world\<close> is what changes: a count of the observations made so far (each answer may
  depend on it, so the outside may behave differently every time), the clock, which never runs
  backwards, and the record of what was sent out.
\<close>

section \<open>The rules document on the wire\<close>

record DynamicRules =
  RuleID :: gostring
  rules_Version :: int
  rules_Timestamp :: gotime
  ExpiresAt :: "gotime option"
  TTL :: int
  IPBlacklist :: "gostring list"
  IPWhitelist :: "gostring list"
  IPBanDuration :: int
  BlockedCountries :: "gostring list"
  WhitelistCountries :: "gostring list"
  GlobalRateLimit :: "int option"
  GlobalRateWindow :: "int option"
  EndpointRateLimits :: "(gostring \<times> int \<times> int) list"
  BlockedCloudProviders :: "gostring list"
  BlockedUserAgents :: "gostring list"
  SuspiciousPatterns :: "gostring list"
  EnablePenetrationDetection :: "bool option"
  EnableIPBanning :: "bool option"
  EnableRateLimiting :: "bool option"
  AutoBanThreshold :: "int option"
  AutoBanDuration :: "int option"
  EnableRateLimitAutoBan :: "bool option"
  EmergencyMode :: bool
  EmergencyWhitelist :: "gostring list"
  EmergencyWhitelistOnly :: bool
  rules_Message :: "gostring option"

text \<open>The same fields with absence visible: None is an absent (or null) member of the JSON document.\<close>

record dynamicRulesWire =
  w_RuleID :: "gostring option"
  w_Version :: "int option"
  w_Timestamp :: "gotime option"
  w_ExpiresAt :: "gotime option"
  w_TTL :: "int option"
  w_IPBlacklist :: "gostring list option"
  w_IPWhitelist :: "gostring list option"
  w_IPBanDuration :: "int option"
  w_BlockedCountries :: "gostring list option"
  w_WhitelistCountries :: "gostring list option"
  w_GlobalRateLimit :: "int option"
  w_GlobalRateWindow :: "int option"
  w_EndpointRateLimits :: "(gostring \<times> int \<times> int) list option"
  w_BlockedCloudProviders :: "gostring list option"
  w_BlockedUserAgents :: "gostring list option"
  w_SuspiciousPatterns :: "gostring list option"
  w_EnablePenetrationDetection :: "bool option"
  w_EnableIPBanning :: "bool option"
  w_EnableRateLimiting :: "bool option"
  w_AutoBanThreshold :: "int option"
  w_AutoBanDuration :: "int option"
  w_EnableRateLimitAutoBan :: "bool option"
  w_EmergencyMode :: bool
  w_EmergencyWhitelist :: "gostring list option"
  w_EmergencyWhitelistOnly :: bool
  w_Message :: "gostring option"

section \<open>Requests, answers, traces\<close>

record encryptedEnvelope =
  e_EncryptedPayload :: gostring
  e_BatchID :: gostring
  e_AgentVersion :: gostring
  e_GuardVersion :: gostring
  e_GuardCoreVersion :: gostring

text \<open>The values the code hands to \<open>json.Marshal\<close>.\<close>

datatype json_arg =
    JBatch eventBatch
  | JStatus agentStatusPayload
  | JEnvelope encryptedEnvelope
  | JEvents "SecurityEvent list"
  | JMetrics "SecurityMetric list"
  | JEvent SecurityEvent
  | JMetric SecurityMetric
  | JAny goval

record http_request =
  rq_method :: gostring
  rq_url :: gostring
  rq_headers :: "(gostring \<times> gostring) list"
  rq_body :: gostring

text \<open>
  \<open>client.Do\<close>: a response (status code, the value of its Retry-After header, the body), an error,
  or a panic of the host's HTTP client.
\<close>

datatype http_result = Resp int gostring gostring | NetErr gostring | NetPanic gostring

datatype redis_cmd =
    RSet gostring gostring duration "gostring option" \<comment> \<open>key, value, TTL, the error reported\<close>
  | RDel "gostring list"

datatype redis_get = RVal gostring | RNil | RErr gostring

datatype file_read = Contents gostring | NotExist | ReadError gostring

datatype hook_val = HInt int | HStr gostring

record hook_call =
  h_stage :: gostring
  h_err :: "goerror option"
  h_context :: "(gostring \<times> hook_val) list"

section \<open>The outside\<close>

record env =
  conv :: "f64 \<Rightarrow> int"
  elapsed :: "nat \<Rightarrow> nat"
  entropy :: "nat \<Rightarrow> nat \<Rightarrow> gostring option"
  rand_err :: gostring
  corrupt_input_err :: "gostring \<Rightarrow> gostring"
  timer_wins :: "nat \<Rightarrow> bool"
  NewRequest_err :: "gostring \<Rightarrow> gostring option"
  http_Do :: "nat \<Rightarrow> http_request \<Rightarrow> http_result"
  jsonMarshal :: "json_arg \<Rightarrow> gostring + gostring"
  unmarshal_batchResponse :: "gostring \<Rightarrow> gostring + batchResponse"
  unmarshal_rules :: "gostring \<Rightarrow> gostring + dynamicRulesWire"
  unmarshal_event :: "gostring \<Rightarrow> gostring + SecurityEvent"
  unmarshal_metric :: "gostring \<Rightarrow> gostring + SecurityMetric"
  decodeGenericJSON :: "gostring \<Rightarrow> gostring + goval"
  unmarshal_any :: "gostring \<Rightarrow> goval option"
  marshal_any :: "goval \<Rightarrow> gostring option"
  FormatFloat_g :: "f64 \<Rightarrow> nat \<Rightarrow> gostring"
  aead_Seal :: "gostring \<Rightarrow> gostring \<Rightarrow> gostring \<Rightarrow> gostring \<Rightarrow> gostring"
  aead_Open :: "gostring \<Rightarrow> gostring \<Rightarrow> gostring \<Rightarrow> gostring \<Rightarrow> gostring option"
  gzip :: "gostring \<Rightarrow> gostring option"
  hmac_sha256 :: "gostring \<Rightarrow> gostring \<Rightarrow> gostring"
  redis_Set :: "nat \<Rightarrow> gostring \<Rightarrow> gostring \<Rightarrow> duration \<Rightarrow> gostring option"
  redis_Scan :: "nat \<Rightarrow> nat \<Rightarrow> gostring \<Rightarrow> gostring + (gostring list \<times> nat)"
  redis_Get :: "nat \<Rightarrow> gostring \<Rightarrow> redis_get"
  url_Parse :: "gostring \<Rightarrow> (gostring \<times> gostring) option"
  redis_ParseURL :: "gostring \<Rightarrow> gostring option"
  unicode_ToLower :: "gostring \<Rightarrow> gostring"
  user_home :: "gostring option"
  filepath_Join :: "gostring list \<Rightarrow> gostring"
  filepath_Dir :: "gostring \<Rightarrow> gostring"
  ReadFile :: "gostring \<Rightarrow> file_read"
  MkdirAll_err :: "gostring \<Rightarrow> gostring option"
  WriteFile_err :: "gostring \<Rightarrow> gostring option"

record world =
  tick :: nat
  clock :: gotime
  uuidFallbackCounter :: "64 word"
  http_trace :: "(http_request \<times> http_result) list"
  redis_trace :: "redis_cmd list"
  hook_trace :: "hook_call list"
  file_trace :: "(gostring \<times> gostring) list"

text \<open>Making an observation takes some time, possibly none.\<close>

definition observe :: "env \<Rightarrow> world \<Rightarrow> world" where
  "observe E w = w\<lparr>tick := Suc (tick w), clock := clock w + int (elapsed E (tick w))\<rparr>"

text \<open>\<open>time.Now()\<close>.\<close>

definition now :: "env \<Rightarrow> world \<Rightarrow> gotime \<times> world" where
  "now E w = (let w' = observe E w in (clock w', w'))"

section \<open>Contexts and waiting\<close>

text \<open>
  A context ends, if it does, at some observation, and stays ended. \<open>ctx_Err\<close> is one observation.
\<close>

record ctx =
  ends_at :: "nat option"
  reason :: ctx_reason

definition Background :: ctx where
  "Background = \<lparr>ends_at = None, reason = Canceled\<rparr>"

definition ctx_done :: "ctx \<Rightarrow> world \<Rightarrow> bool" where
  "ctx_done c w \<longleftrightarrow> (case ends_at c of None \<Rightarrow> False | Some n \<Rightarrow> n \<le> tick w)"

definition ctx_Err :: "env \<Rightarrow> ctx \<Rightarrow> world \<Rightarrow> goerror option \<times> world" where
  "ctx_Err E c w = (let w' = observe E w in
     (if ctx_done c w' then Some (CtxErr (reason c)) else None, w'))"

text \<open>
  \<open>sleepCtx\<close>: with a delay, the timer is awaited against the context; when both are ready Go picks
  either, which is \<open>timer_wins\<close>.
\<close>

definition sleepCtx :: "env \<Rightarrow> ctx \<Rightarrow> duration \<Rightarrow> world \<Rightarrow> bool \<times> world" where
  "sleepCtx E c d w =
    (if d \<le> 0 then (case ctx_Err E c w of (e, w') \<Rightarrow> (e = None, w'))
     else let w' = observe E w in
       if \<not> ctx_done c w' \<or> timer_wins E (tick w)
       then (True, w'\<lparr>clock := clock w' + d\<rparr>) else (False, w'))"

text \<open>\<open>newUUID4\<close>, \<open>randomHex\<close> and \<open>newBatchID\<close> in the world: a failing entropy source takes a fresh
  value of the fallback counter.\<close>

definition gen_UUID4 :: "env \<Rightarrow> world \<Rightarrow> gostring \<times> world" where
  "gen_UUID4 E w = (case entropy E (tick w) 16 of
     Some bs \<Rightarrow> (newUUID4 (Some bs) 0 0, observe E w)
   | None \<Rightarrow> (let w' = observe E w; c = uuidFallbackCounter w' + 1 in
       (newUUID4 None (UnixNano (clock w')) c, w'\<lparr>uuidFallbackCounter := c\<rparr>)))"

definition gen_randomHex :: "env \<Rightarrow> nat \<Rightarrow> world \<Rightarrow> gostring \<times> world" where
  "gen_randomHex E n w = (case entropy E (tick w) n of
     Some bs \<Rightarrow> (randomHex (Some bs) n 0, observe E w)
   | None \<Rightarrow> (let w' = observe E w; c = uuidFallbackCounter w' + 1 in
       (randomHex None n c, w'\<lparr>uuidFallbackCounter := c\<rparr>)))"

definition gen_batchID :: "env \<Rightarrow> world \<Rightarrow> gostring \<times> world" where
  "gen_batchID E w = (case now E w of (t, w1) \<Rightarrow> (case gen_randomHex E 4 w1 of (h, w2) \<Rightarrow>
     (Itoa (UnixMilli t) @ ''-'' @ h, w2)))"

section \<open>What waiting and asking leave alone\<close>

lemma observe_simps [simp]:
  "tick (observe E w) = Suc (tick w)"
  "clock (observe E w) = clock w + int (elapsed E (tick w))"
  "uuidFallbackCounter (observe E w) = uuidFallbackCounter w"
  "http_trace (observe E w) = http_trace w"
  "redis_trace (observe E w) = redis_trace w"
  "hook_trace (observe E w) = hook_trace w"
  "file_trace (observe E w) = file_trace w"
  by (simp_all add: observe_def)

lemma now_traces [simp]:
  "http_trace (snd (now E w)) = http_trace w"
  "redis_trace (snd (now E w)) = redis_trace w"
  "hook_trace (snd (now E w)) = hook_trace w"
  by (simp_all add: now_def Let_def)

lemma ctx_Err_traces [simp]:
  "http_trace (snd (ctx_Err E c w)) = http_trace w"
  "redis_trace (snd (ctx_Err E c w)) = redis_trace w"
  "hook_trace (snd (ctx_Err E c w)) = hook_trace w"
  by (simp_all add: ctx_Err_def Let_def)

lemma sleepCtx_traces [simp]:
  "http_trace (snd (sleepCtx E c d w)) = http_trace w"
  "redis_trace (snd (sleepCtx E c d w)) = redis_trace w"
  "hook_trace (snd (sleepCtx E c d w)) = hook_trace w"
  by (simp_all add: sleepCtx_def Let_def ctx_Err_def split: prod.splits)

lemma gen_traces [simp]:
  "http_trace (snd (gen_UUID4 E w)) = http_trace w"
  "http_trace (snd (gen_randomHex E n w)) = http_trace w"
  "http_trace (snd (gen_batchID E w)) = http_trace w"
  "redis_trace (snd (gen_UUID4 E w)) = redis_trace w"
  "redis_trace (snd (gen_randomHex E n w)) = redis_trace w"
  "redis_trace (snd (gen_batchID E w)) = redis_trace w"
  "hook_trace (snd (gen_UUID4 E w)) = hook_trace w"
  "hook_trace (snd (gen_randomHex E n w)) = hook_trace w"
  "hook_trace (snd (gen_batchID E w)) = hook_trace w"
  by (simp_all add: gen_UUID4_def gen_randomHex_def gen_batchID_def now_def Let_def
      split: option.splits prod.splits)

lemma sleepCtx_elapsed: "sleepCtx E c d w = (True, w') \<Longrightarrow> clock w + d \<le> clock w'"
  by (auto simp: sleepCtx_def Let_def ctx_Err_def split: if_splits)

lemma sleepCtx_False_done: "sleepCtx E c d w = (False, w') \<Longrightarrow> ctx_done c w'"
  by (auto simp: sleepCtx_def Let_def ctx_Err_def split: if_splits)

lemma ctx_done_later: "ctx_done c w \<Longrightarrow> tick w \<le> tick w' \<Longrightarrow> ctx_done c w'"
  by (auto simp: ctx_done_def split: option.splits)

text \<open>The clock and the count of observations only grow.\<close>

definition later :: "world \<Rightarrow> world \<Rightarrow> bool" where
  "later w w' \<longleftrightarrow> tick w \<le> tick w' \<and> clock w \<le> clock w'"

lemma later_refl [simp, intro]: "later w w"
  by (simp add: later_def)

lemma later_trans [trans]: "later u v \<Longrightarrow> later v w \<Longrightarrow> later u w"
  by (simp add: later_def)

lemma later_steps [intro]:
  "later w (observe E w)" "later w (snd (now E w))" "later w (snd (ctx_Err E c w))"
  "later w (snd (sleepCtx E c d w))" "later w (snd (gen_UUID4 E w))"
  "later w (snd (gen_randomHex E n w))" "later w (snd (gen_batchID E w))"
  by (auto simp: later_def now_def ctx_Err_def sleepCtx_def gen_UUID4_def gen_randomHex_def
      gen_batchID_def Let_def split: option.splits prod.splits)

section \<open>A concrete outside\<close>

text \<open>
  An environment in which every request is answered 200 with an empty body and nothing else fails;
  the closed examples of the development start from it. Its cipher appends sixteen bytes to the
  plain text.
\<close>

definition calm :: env where
  "calm = \<lparr>conv = (\<lambda>x. min_int64), elapsed = (\<lambda>t. 1), entropy = (\<lambda>t n. Some (replicate n (CHR 0x00))),
     rand_err = [], corrupt_input_err = (\<lambda>s. []), timer_wins = (\<lambda>t. True), NewRequest_err = (\<lambda>s. None),
     http_Do = (\<lambda>t rq. Resp 200 [] []), jsonMarshal = (\<lambda>x. Inr []),
     unmarshal_batchResponse = (\<lambda>s. Inr \<lparr>r_Success = True, r_Errors = []\<rparr>),
     unmarshal_rules = (\<lambda>s. Inl []), unmarshal_event = (\<lambda>s. Inl []), unmarshal_metric = (\<lambda>s. Inl []),
     decodeGenericJSON = (\<lambda>s. Inr GNil), unmarshal_any = (\<lambda>s. Some (GMap [])),
     marshal_any = (\<lambda>v. Some ''{}''), FormatFloat_g = (\<lambda>x n. []),
     aead_Seal = (\<lambda>k n p a. p @ replicate 16 (CHR 0x00)),
     aead_Open = (\<lambda>k n c a. Some (take (length c - 16) c)),
     gzip = (\<lambda>s. Some s), hmac_sha256 = (\<lambda>k b. []), redis_Set = (\<lambda>t k v d. None),
     redis_Scan = (\<lambda>t c p. Inr ([], 0)), redis_Get = (\<lambda>t k. RNil),
     url_Parse = (\<lambda>s. Some (''https'', ''h'')), redis_ParseURL = (\<lambda>s. None),
     unicode_ToLower = (\<lambda>s. s), user_home = None, filepath_Join = concat, filepath_Dir = (\<lambda>s. s),
     ReadFile = (\<lambda>s. NotExist), MkdirAll_err = (\<lambda>s. None), WriteFile_err = (\<lambda>s. None)\<rparr>"

definition start :: world where
  "start = \<lparr>tick = 0, clock = 0, uuidFallbackCounter = 0, http_trace = [], redis_trace = [],
     hook_trace = [], file_trace = []\<rparr>"

end
