(* ===== verification/Redact.thy ===== *)
theory Redact
  imports World
begin

text \<open>
  redact.go: the redaction of sensitive headers in event metadata and metric tags. The JSON decoder
  and encoder, and the lower-casing of strings with non-ASCII bytes, are taken from the environment.
\<close>

section \<open>Operations\<close>

definition DefaultSensitiveHeaders :: "gostring list" where
  "DefaultSensitiveHeaders = [''authorization'', ''proxy-authorization'', ''cookie'', ''x-api-key'']"

abbreviation redactedMarker :: gostring where "redactedMarker \<equiv> ''[REDACTED]''"
abbreviation maxSanitizeDepth :: nat where "maxSanitizeDepth \<equiv> 10"
abbreviation maxJSONScanLen :: nat where "maxJSONScanLen \<equiv> 8192"

text \<open>\<open>strings.ToLower\<close>: byte by byte on ASCII, by Unicode's tables otherwise.\<close>

definition ToLower :: "env \<Rightarrow> gostring \<Rightarrow> gostring" where
  "ToLower E s = (if list_all (byte_in 0 127) s then map lower_ascii s else unicode_ToLower E s)"

definition normalizeSensitiveHeaders :: "env \<Rightarrow> gostring list option \<Rightarrow> gostring list" where
  "normalizeSensitiveHeaders E headers =
    (let headers = (case headers of None \<Rightarrow> DefaultSensitiveHeaders | Some hs \<Rightarrow> hs) in
     map (\<lambda>h. ToLower E (TrimSpace h)) headers)"

definition isSensitiveKey :: "env \<Rightarrow> gostring \<Rightarrow> gostring list \<Rightarrow> bool" where
  "isSensitiveKey E key lowered \<longleftrightarrow> List.member lowered (ToLower E (TrimSpace key))"

text \<open>
  \<open>sanitizeStringValue\<close>; \<open>walk\<close> is the recursive call \<open>sanitizeValue\<close> one level deeper.
\<close>

definition sanitizeStringValue :: "env \<Rightarrow> (goval \<Rightarrow> goval) \<Rightarrow> gostring \<Rightarrow> gostring" where
  "sanitizeStringValue E walk value =
    (let stripped = TrimSpace value in
     if stripped = [] \<or> hd stripped \<notin> {CHR ''{'', CHR ''['', CHR 0x22} then value
     else if length stripped > maxJSONScanLen then redactedMarker
     else (case unmarshal_any E stripped of None \<Rightarrow> value
       | Some parsed \<Rightarrow> (case marshal_any E (walk parsed) of None \<Rightarrow> [] | Some encoded \<Rightarrow> encoded)))"

text \<open>The type assertion \<open>.(string)\<close> on a sanitized string; \<open>sanitize_string_string\<close> shows that the
  other cases do not occur.\<close>

fun assert_string :: "goval \<Rightarrow> gostring" where
  "assert_string (GString s) = s"
| "assert_string _ = []"

text \<open>The two map cases; \<open>walk\<close> is \<open>sanitizeValue\<close> one level deeper.\<close>

definition sanitizeStringAnyMap :: "env \<Rightarrow> gostring list \<Rightarrow> (goval \<Rightarrow> goval) \<Rightarrow> gomap \<Rightarrow> gomap" where
  "sanitizeStringAnyMap E S walk m = map (\<lambda>(key, item). (key, if isSensitiveKey E key S
     then GString redactedMarker else walk item)) m"

definition sanitizeStringStringMap :: "env \<Rightarrow> gostring list \<Rightarrow> (goval \<Rightarrow> goval) \<Rightarrow> (gostring \<times> gostring) list
    \<Rightarrow> (gostring \<times> gostring) list" where
  "sanitizeStringStringMap E S walk m = map (\<lambda>(key, item). (key, if isSensitiveKey E key S
     then redactedMarker else assert_string (walk (GString item)))) m"

function sanitizeValue :: "env \<Rightarrow> gostring list \<Rightarrow> nat \<Rightarrow> goval \<Rightarrow> goval" where
  "sanitizeValue E S depth value =
    (if depth > maxSanitizeDepth then GString redactedMarker
     else case value of
       GNil \<Rightarrow> value | GBool _ \<Rightarrow> value | GInt _ \<Rightarrow> value | GUint _ \<Rightarrow> value
     | GFloat32 _ \<Rightarrow> value | GFloat64 _ \<Rightarrow> value | GBytes _ \<Rightarrow> value
     | GString v \<Rightarrow> GString (sanitizeStringValue E (\<lambda>parsed. sanitizeValue E S (Suc depth) parsed) v)
     | GTime _ \<Rightarrow> value | GDuration _ \<Rightarrow> value | GNumber _ \<Rightarrow> value
     | GMap m \<Rightarrow> GMap (sanitizeStringAnyMap E S (\<lambda>item. sanitizeValue E S (Suc depth) item) m)
     | GStrMap m \<Rightarrow> GStrMap (sanitizeStringStringMap E S (\<lambda>item. sanitizeValue E S (Suc depth) item) m)
     | GSlice items \<Rightarrow> GSlice (map (\<lambda>item. sanitizeValue E S (Suc depth) item) items)
     | GStrSlice items \<Rightarrow> GStrSlice (map (\<lambda>item.
         assert_string (sanitizeValue E S (Suc depth) (GString item))) items)
     | _ \<Rightarrow> GString redactedMarker)"
  by pat_completeness auto
termination
  by (relation "measure (\<lambda>(E, S, depth, value). 11 - depth)") auto

declare sanitizeValue.simps [simp del]

definition SanitizeHeaders :: "env \<Rightarrow> goval \<Rightarrow> gostring list option \<Rightarrow> goval" where
  "SanitizeHeaders E value sensitive = sanitizeValue E (normalizeSensitiveHeaders E sensitive) 0 value"

fun assert_map :: "goval \<Rightarrow> gomap" where
  "assert_map (GMap m) = m"
| "assert_map _ = []"

fun assert_strmap :: "goval \<Rightarrow> (gostring \<times> gostring) list" where
  "assert_strmap (GStrMap m) = m"
| "assert_strmap _ = []"

definition redactEventMetadata :: "env \<Rightarrow> SecurityEvent \<Rightarrow> gostring list \<Rightarrow> SecurityEvent" where
  "redactEventMetadata E ev sensitive = (case ev_Metadata ev of None \<Rightarrow> ev
     | Some m \<Rightarrow> ev\<lparr>ev_Metadata := Some (assert_map (SanitizeHeaders E (GMap m) (Some sensitive)))\<rparr>)"

definition redactMetricTags :: "env \<Rightarrow> SecurityMetric \<Rightarrow> gostring list \<Rightarrow> SecurityMetric" where
  "redactMetricTags E m sensitive = (case m_Tags m of None \<Rightarrow> m
     | Some tags \<Rightarrow> m\<lparr>m_Tags := Some (assert_strmap (SanitizeHeaders E (GStrMap tags) (Some sensitive)))\<rparr>)"

definition redactBatch :: "env \<Rightarrow> eventBatch \<Rightarrow> gostring list \<Rightarrow> eventBatch" where
  "redactBatch E batch sensitive = batch\<lparr>
     b_Events := map (\<lambda>ev. redactEventMetadata E ev sensitive) (b_Events batch),
     b_Metrics := map (\<lambda>m. redactMetricTags E m sensitive) (b_Metrics batch)\<rparr>"

section \<open>No sensitive value survives\<close>

text \<open>The assertions on sanitized strings and maps never fail.\<close>

lemma sanitize_string_string: "\<exists>s. sanitizeValue E S d (GString v) = GString s"
  by (subst sanitizeValue.simps) simp

lemma sanitize_GMap:
  "sanitizeValue E S 0 (GMap m) = GMap (map (\<lambda>(key, item). (key, if isSensitiveKey E key S
     then GString redactedMarker else sanitizeValue E S (Suc 0) item)) m)"
  by (subst sanitizeValue.simps) (simp add: sanitizeStringAnyMap_def)

lemma sanitize_GStrMap:
  "sanitizeValue E S 0 (GStrMap m) = GStrMap (map (\<lambda>(key, item). (key, if isSensitiveKey E key S
     then redactedMarker else assert_string (sanitizeValue E S (Suc 0) (GString item)))) m)"
  by (subst sanitizeValue.simps) (simp add: sanitizeStringStringMap_def)

text \<open>
  At every depth of the nested maps and slices of a value, a sensitive key carries the marker.
\<close>

fun keys_redacted :: "env \<Rightarrow> gostring list \<Rightarrow> goval \<Rightarrow> bool" where
  "keys_redacted E S (GMap m) = list_all (\<lambda>(k, v). (isSensitiveKey E k S \<longrightarrow> v = GString redactedMarker)
     \<and> keys_redacted E S v) m"
| "keys_redacted E S (GStrMap m) = list_all (\<lambda>(k, v). isSensitiveKey E k S \<longrightarrow> v = redactedMarker) m"
| "keys_redacted E S (GSlice xs) = list_all (keys_redacted E S) xs"
| "keys_redacted E S _ = True"

lemma sanitizeValue_redacted: "keys_redacted E S (sanitizeValue E S depth v)"
proof (induction E S depth v rule: sanitizeValue.induct)
  case (1 E S depth v)
  show ?case
  proof (cases "depth > maxSanitizeDepth")
    case False
    note IH = "1"(2-4) [OF False]
    show ?thesis
    proof (cases v)
      case (GMap m)
      then show ?thesis using False IH(1) [OF GMap]
        by (subst sanitizeValue.simps) (fastforce simp: list_all_iff sanitizeStringAnyMap_def)
    next
      case (GSlice items)
      then show ?thesis using False IH(3) [OF GSlice]
        by (subst sanitizeValue.simps) (auto simp: list_all_iff)
    qed (subst sanitizeValue.simps, simp add: False list_all_iff split_beta sanitizeStringStringMap_def)+
  qed (subst sanitizeValue.simps, simp)
qed

lemma redact_event_cases:
  "case ev_Metadata ev of None \<Rightarrow> redactEventMetadata E ev hs = ev
   | Some m \<Rightarrow> \<exists>m'. redactEventMetadata E ev hs = ev\<lparr>ev_Metadata := Some m'\<rparr>
       \<and> map fst m' = map fst m
       \<and> keys_redacted E (normalizeSensitiveHeaders E (Some hs)) (GMap m')"
proof (cases "ev_Metadata ev")
  case (Some m)
  let ?S = "normalizeSensitiveHeaders E (Some hs)"
  obtain m' where m': "sanitizeValue E ?S 0 (GMap m) = GMap m'" and k: "map fst m' = map fst m"
    by (auto simp: sanitize_GMap comp_def split_def)
  have "keys_redacted E ?S (GMap m')" using sanitizeValue_redacted [of E ?S 0 "GMap m"] m' by simp
  with m' k Some show ?thesis by (auto simp: redactEventMetadata_def SanitizeHeaders_def)
qed (simp add: redactEventMetadata_def)

text \<open>C32. Capture-time redaction returns the event with every other field unchanged and the same
  metadata keys, in which every sensitive key, at any depth of nested maps and slices, carries the
  marker instead of its value.\<close>

theorem redactEventMetadata_safe:
  "case ev_Metadata ev of None \<Rightarrow> redactEventMetadata E ev hs = ev
   | Some m \<Rightarrow> \<exists>m'. redactEventMetadata E ev hs = ev\<lparr>ev_Metadata := Some m'\<rparr>
       \<and> map fst m' = map fst m
       \<and> keys_redacted E (normalizeSensitiveHeaders E (Some hs)) (GMap m')"
  by (rule redact_event_cases)

lemma redactMetricTags_safe:
  "case m_Tags m of None \<Rightarrow> redactMetricTags E m hs = m
   | Some tags \<Rightarrow> \<exists>tags'. redactMetricTags E m hs = m\<lparr>m_Tags := Some tags'\<rparr>
       \<and> map fst tags' = map fst tags
       \<and> keys_redacted E (normalizeSensitiveHeaders E (Some hs)) (GStrMap tags')"
proof (cases "m_Tags m")
  case (Some tags)
  let ?S = "normalizeSensitiveHeaders E (Some hs)"
  obtain m' where m': "sanitizeValue E ?S 0 (GStrMap tags) = GStrMap m'" and k: "map fst m' = map fst tags"
    by (auto simp: sanitize_GStrMap comp_def split_def)
  have "keys_redacted E ?S (GStrMap m')" using sanitizeValue_redacted [of E ?S 0 "GStrMap tags"] m' by simp
  with m' k Some show ?thesis by (auto simp: redactMetricTags_def SanitizeHeaders_def)
qed (simp add: redactMetricTags_def)

text \<open>The parts of a batch that can carry header values are redacted.\<close>

definition event_redacted :: "env \<Rightarrow> gostring list \<Rightarrow> SecurityEvent \<Rightarrow> bool" where
  "event_redacted E S ev = (case ev_Metadata ev of None \<Rightarrow> True | Some m \<Rightarrow> keys_redacted E S (GMap m))"

definition metric_redacted :: "env \<Rightarrow> gostring list \<Rightarrow> SecurityMetric \<Rightarrow> bool" where
  "metric_redacted E S m = (case m_Tags m of None \<Rightarrow> True | Some ts \<Rightarrow> keys_redacted E S (GStrMap ts))"

lemma redactBatch_redacted:
  "list_all (event_redacted E (normalizeSensitiveHeaders E (Some hs))) (b_Events (redactBatch E b hs))
   \<and> list_all (metric_redacted E (normalizeSensitiveHeaders E (Some hs))) (b_Metrics (redactBatch E b hs))
   \<and> length (b_Events (redactBatch E b hs)) = length (b_Events b)
   \<and> length (b_Metrics (redactBatch E b hs)) = length (b_Metrics b)
   \<and> redactBatch E b hs = b\<lparr>b_Events := b_Events (redactBatch E b hs),
       b_Metrics := b_Metrics (redactBatch E b hs)\<rparr>"
proof -
  have "event_redacted E (normalizeSensitiveHeaders E (Some hs)) (redactEventMetadata E ev hs)" for ev
    using redact_event_cases [of E ev hs] by (auto simp: event_redacted_def split: option.splits)
  moreover have "metric_redacted E (normalizeSensitiveHeaders E (Some hs)) (redactMetricTags E m hs)" for m
    using redactMetricTags_safe [of E m hs] by (auto simp: metric_redacted_def split: option.splits)
  ultimately show ?thesis by (simp add: redactBatch_def list_all_iff)
qed

text \<open>Every event and every metric of an outgoing batch body is redacted, and the pass changes
  neither their number nor anything else of the batch.\<close>

theorem redactBatch_safe:
  "list_all (event_redacted E (normalizeSensitiveHeaders E (Some hs))) (b_Events (redactBatch E b hs))
   \<and> list_all (metric_redacted E (normalizeSensitiveHeaders E (Some hs))) (b_Metrics (redactBatch E b hs))
   \<and> length (b_Events (redactBatch E b hs)) = length (b_Events b)
   \<and> length (b_Metrics (redactBatch E b hs)) = length (b_Metrics b)
   \<and> redactBatch E b hs = b\<lparr>b_Events := b_Events (redactBatch E b hs),
       b_Metrics := b_Metrics (redactBatch E b hs)\<rparr>"
  by (rule redactBatch_redacted)

end
