(* ===== verification/Config.thy ===== *)
theory Config
  imports Redact
begin

text \<open>
  config.go, and \<open>ValidateConfig\<close> of utils.go: the configuration, its defaults and its normalisation.
  \<open>Config.Redis\<close> is a pointer that \<open>normalize\<close> writes through, so the value of that field in the
  returned configuration is also what the caller's \<open>RedisConfig\<close> holds afterwards.
\<close>

section \<open>The configuration\<close>

definition DefaultEndpoint :: gostring where
  "DefaultEndpoint = ''https://api.guard-core.com''"

abbreviation OverflowDrop :: gostring where "OverflowDrop \<equiv> ''drop''"
abbreviation OverflowBlock :: gostring where "OverflowBlock \<equiv> ''block''"
abbreviation OverflowRaise :: gostring where "OverflowRaise \<equiv> ''raise''"

record RedisConfig =
  URL :: gostring
  Prefix :: gostring
  redis_TTL :: duration

record Config =
  APIKey :: gostring
  Endpoint :: gostring
  ProjectID :: gostring
  BufferSize :: int
  FlushInterval :: duration
  StatusInterval :: duration
  DynamicRuleInterval :: duration
  HighWatermarkRatio :: f64
  MaxConcurrentFlushes :: int
  Overflow :: gostring
  EnableEvents :: bool
  EnableMetrics :: bool
  RetryAttempts :: int
  Timeout :: duration
  BackoffFactor :: f64
  CompressionEnabled :: bool
  CompressionThreshold :: int
  SigningSecret :: gostring
  ProjectEncryptionKey :: gostring
  SensitiveHeaders :: "gostring list option"
  MaxPayloadSize :: int
  OnError :: bool \<comment> \<open>whether a callback is set\<close>
  InstallID :: gostring
  InstallIDPath :: gostring
  Redis :: "RedisConfig option"
  GuardVersion :: gostring
  GuardCoreVersion :: gostring

definition defaultHighWatermark :: f64 where
  "defaultHighWatermark = rnd64 (8 / 10)"

definition DefaultConfig :: Config where
  "DefaultConfig = \<lparr>APIKey = [], Endpoint = DefaultEndpoint, ProjectID = [], BufferSize = 100,
     FlushInterval = 30 * Second, StatusInterval = 300 * Second, DynamicRuleInterval = 300 * Second,
     HighWatermarkRatio = defaultHighWatermark, MaxConcurrentFlushes = 1, Overflow = OverflowDrop,
     EnableEvents = True, EnableMetrics = True, RetryAttempts = 3, Timeout = 30 * Second,
     BackoffFactor = f64_of_int 1, CompressionEnabled = True, CompressionThreshold = 1024,
     SigningSecret = [], ProjectEncryptionKey = [], SensitiveHeaders = None, MaxPayloadSize = 1024,
     OnError = False, InstallID = [], InstallIDPath = [], Redis = None, GuardVersion = [],
     GuardCoreVersion = []\<rparr>"

section \<open>Normalisation\<close>

abbreviation apiVersionPathSuffix :: gostring where "apiVersionPathSuffix \<equiv> ''/api/v1''"

definition apiVersionSuffixWarning :: gostring where
  "apiVersionSuffixWarning =
    ''endpoint ends with /api/v1; the agent appends API paths itself, so the suffix was removed''"

definition normalizeEndpoint :: "env \<Rightarrow> gostring \<Rightarrow> goerror + gostring \<times> gostring list" where
  "normalizeEndpoint E raw =
    (if raw = [] then Inr (DefaultEndpoint, [])
     else case url_Parse E raw of
       None \<Rightarrow> Inl (ConfigError [''endpoint must be a valid URL''])
     | Some (scheme0, host) \<Rightarrow>
       if scheme0 = [] \<or> host = [] then Inl (ConfigError [''endpoint must be a valid URL''])
       else let scheme = ToLower E scheme0 in
       if scheme \<noteq> ''http'' \<and> scheme \<noteq> ''https''
       then Inl (ConfigError [''endpoint scheme must be http or https''])
       else let trimmed = TrimRight raw (CHR ''/'') in
         if HasSuffix trimmed apiVersionPathSuffix
         then Inr (TrimRight (TrimSuffix trimmed apiVersionPathSuffix) (CHR ''/''), [apiVersionSuffixWarning])
         else Inr (trimmed, []))"

definition defaultInstallIDPath :: "env \<Rightarrow> gostring" where
  "defaultInstallIDPath E = (case user_home E of None \<Rightarrow> []
     | Some home \<Rightarrow> filepath_Join E [home, ''.guard-agent'', ''install-id''])"

text \<open>
  A numeric field: zero takes the default, a value the check rejects adds its problem. The blocks of
  \<open>normalize\<close> that have this shape are one line each.
\<close>

definition problem_if :: "bool \<Rightarrow> gostring \<Rightarrow> gostring list" where
  "problem_if b msg = (if b then [msg] else [])"

definition normalizeRedis :: "env \<Rightarrow> RedisConfig \<Rightarrow> RedisConfig \<times> gostring list" where
  "normalizeRedis E r =
    (let p1 = (if URL r = [] then [''redis url is required when redis persistence is enabled'']
         else problem_if (url_Parse E (URL r) = None)
           ''redis url must be a redis:// or rediss:// connection string'');
         r1 = (if Prefix r = [] then r\<lparr>Prefix := ''guard:agent''\<rparr> else r) in
     if redis_TTL r1 = 0 then (r1\<lparr>redis_TTL := 3600 * Second\<rparr>, p1)
     else (r1, p1 @ problem_if (redis_TTL r1 < 0) ''redis ttl must be greater than 0''))"

text \<open>
  \<open>normalize\<close> interleaves checking and filling, one block per field; no block reads a field another
  one writes, so the problems (in the order of the blocks) and the filled configuration are given
  separately.
\<close>

definition overflow_problem :: gostring where
  "overflow_problem = ''overflow policy must be one of '' @ [CHR 0x22] @ ''drop'' @ [CHR 0x22] @ '', ''
     @ [CHR 0x22] @ ''block'' @ [CHR 0x22] @ '', '' @ [CHR 0x22] @ ''raise'' @ [CHR 0x22]"

definition config_problems :: "env \<Rightarrow> Config \<Rightarrow> gostring list" where
  "config_problems E cfg =
     (if APIKey cfg = [] then [''api key is required'']
      else problem_if (length (APIKey cfg) < 10) ''api key must be at least 10 characters'')
   @ (case normalizeEndpoint E (Endpoint cfg) of Inl e \<Rightarrow> [Error (conv E) e] | Inr _ \<Rightarrow> [])
   @ problem_if (BufferSize cfg < 0) ''buffer size must be greater than 0''
   @ problem_if (FlushInterval cfg < 0) ''flush interval must be greater than 0''
   @ problem_if (StatusInterval cfg \<noteq> 0 \<and> StatusInterval cfg < 60 * Second)
       ''status interval must be at least 60s''
   @ problem_if (DynamicRuleInterval cfg \<noteq> 0 \<and> DynamicRuleInterval cfg < 60 * Second)
       ''dynamic rule interval must be at least 60s''
   @ problem_if (\<not> f64_eq (HighWatermarkRatio cfg) (Fin 0)
       \<and> (HighWatermarkRatio cfg < Fin 0 \<or> Fin 1 < HighWatermarkRatio cfg))
       ''high watermark ratio must be in (0, 1]''
   @ problem_if (MaxConcurrentFlushes cfg < 0) ''max concurrent flushes must be at least 1''
   @ problem_if (Overflow cfg \<noteq> []
       \<and> \<not> List.member [OverflowDrop, OverflowBlock, OverflowRaise] (Overflow cfg)) overflow_problem
   @ problem_if (RetryAttempts cfg < 0) ''retry attempts must be 0 or greater''
   @ problem_if (Timeout cfg < 0) ''timeout must be greater than 0''
   @ problem_if (\<not> f64_eq (BackoffFactor cfg) (Fin 0) \<and> BackoffFactor cfg < Fin 0)
       ''backoff factor must be greater than 0''
   @ problem_if (CompressionThreshold cfg < 0) ''compression threshold must be 0 or greater''
   @ problem_if (MaxPayloadSize cfg < 0) ''max payload size must be greater than 0''
   @ (case Redis cfg of None \<Rightarrow> [] | Some r \<Rightarrow> snd (normalizeRedis E r))"

definition fill_defaults :: "env \<Rightarrow> Config \<Rightarrow> Config" where
  "fill_defaults E cfg = cfg\<lparr>
     Endpoint := (case normalizeEndpoint E (Endpoint cfg) of Inl e \<Rightarrow> Endpoint cfg | Inr (ep, ws) \<Rightarrow> ep),
     BufferSize := (if BufferSize cfg = 0 then 100 else BufferSize cfg),
     FlushInterval := (if FlushInterval cfg = 0 then 30 * Second else FlushInterval cfg),
     StatusInterval := (if StatusInterval cfg = 0 then 300 * Second else StatusInterval cfg),
     DynamicRuleInterval := (if DynamicRuleInterval cfg = 0 then 300 * Second else DynamicRuleInterval cfg),
     HighWatermarkRatio := (if f64_eq (HighWatermarkRatio cfg) (Fin 0) then defaultHighWatermark
       else HighWatermarkRatio cfg),
     MaxConcurrentFlushes := (if MaxConcurrentFlushes cfg = 0 then 1 else MaxConcurrentFlushes cfg),
     Overflow := (if Overflow cfg = [] then OverflowDrop else Overflow cfg),
     Timeout := (if Timeout cfg = 0 then 30 * Second else Timeout cfg),
     BackoffFactor := (if f64_eq (BackoffFactor cfg) (Fin 0) then f64_of_int 1 else BackoffFactor cfg),
     MaxPayloadSize := (if MaxPayloadSize cfg = 0 then 1024 else MaxPayloadSize cfg),
     SensitiveHeaders := Some (normalizeSensitiveHeaders E (SensitiveHeaders cfg)),
     InstallIDPath := (if InstallIDPath cfg = [] then defaultInstallIDPath E else InstallIDPath cfg),
     Redis := (case Redis cfg of None \<Rightarrow> None | Some r \<Rightarrow> Some (fst (normalizeRedis E r)))\<rparr>"

definition normalize :: "env \<Rightarrow> Config \<Rightarrow> Config \<times> gostring list \<times> goerror option" where
  "normalize E cfg =
    (let problems = config_problems E cfg;
         warnings = (case normalizeEndpoint E (Endpoint cfg) of Inl e \<Rightarrow> [] | Inr (ep, ws) \<Rightarrow> ws) in
     (fill_defaults E cfg, warnings, if problems \<noteq> [] then Some (ConfigError problems) else None))"

text \<open>
  \<open>ValidateConfig\<close> of utils.go: the problems and warnings, and what the caller's \<open>RedisConfig\<close> holds
  after the call.
\<close>

definition ValidateConfig :: "env \<Rightarrow> Config \<Rightarrow> gostring list \<times> RedisConfig option" where
  "ValidateConfig E cfg = (case normalize E cfg of (cfg', warnings, err) \<Rightarrow>
     let problems = (case err of Some (ConfigError ps) \<Rightarrow> ps | _ \<Rightarrow> []) in
     (problems @ warnings, Redis cfg'))"

section \<open>What normalisation guarantees\<close>

text \<open>The ranges the rest of the agent relies on.\<close>

definition sound_config :: "Config \<Rightarrow> bool" where
  "sound_config c \<longleftrightarrow> 10 \<le> length (APIKey c) \<and> 0 < BufferSize c \<and> 0 < FlushInterval c
     \<and> 60 * Second \<le> StatusInterval c \<and> 60 * Second \<le> DynamicRuleInterval c
     \<and> 0 < MaxConcurrentFlushes c \<and> Overflow c \<in> {OverflowDrop, OverflowBlock, OverflowRaise}
     \<and> 0 \<le> RetryAttempts c \<and> 0 < Timeout c \<and> 0 \<le> CompressionThreshold c \<and> 0 < MaxPayloadSize c
     \<and> (HighWatermarkRatio c = NaN \<or> Fin 0 < HighWatermarkRatio c \<and> HighWatermarkRatio c \<le> Fin 1)
     \<and> (BackoffFactor c = NaN \<or> Fin 0 < BackoffFactor c)
     \<and> SensitiveHeaders c \<noteq> None
     \<and> (\<forall>r. Redis c = Some r \<longrightarrow> URL r \<noteq> [] \<and> Prefix r \<noteq> [] \<and> 0 < redis_TTL r)"

lemma problem_if_Nil [simp]: "problem_if b m = [] \<longleftrightarrow> \<not> b"
  by (simp add: problem_if_def)

lemma defaultHighWatermark_Fin: "\<exists>v. defaultHighWatermark = Fin v \<and> 0 < v \<and> v \<le> 1"
proof -
  have "representable (1 / 2)" by (rule representableI [of _ 1 "-1"]) (auto simp: power_int_def)
  then have "Fin (1 / 2) \<le> rnd64 (8 / 10)" by (rule rnd64_ge) auto
  moreover have "rnd64 (8 / 10) \<le> Fin (of_int 1)"
    by (rule rnd64_le [OF representable_int]) auto
  ultimately show ?thesis by (cases "rnd64 (8 / 10)") (auto simp: defaultHighWatermark_def)
qed

lemma defaultHighWatermark_range:
  "Fin 0 < defaultHighWatermark \<and> defaultHighWatermark \<le> Fin 1"
proof -
  obtain v where "defaultHighWatermark = Fin v" "0 < v" "v \<le> 1" using defaultHighWatermark_Fin by blast
  then show ?thesis by (metis f64_le_Fin f64_less_Fin)
qed

lemma normalizeRedis_sound:
  "normalizeRedis E r = (r', []) \<Longrightarrow> URL r' \<noteq> [] \<and> Prefix r' \<noteq> [] \<and> 0 < redis_TTL r'"
  by (auto simp: normalizeRedis_def Let_def split: if_splits)

lemma float_ratio_sound:
  assumes "\<not> (\<not> f64_eq x (Fin 0) \<and> (x < Fin 0 \<or> Fin 1 < x))"
  shows "x = NaN \<or> f64_eq x (Fin 0) \<or> Fin 0 < x \<and> x \<le> Fin 1"
  using assms by (cases x) auto

lemma float_factor_sound:
  assumes "\<not> (\<not> f64_eq x (Fin 0) \<and> x < Fin 0)"
  shows "x = NaN \<or> f64_eq x (Fin 0) \<or> Fin 0 < x"
  using assms by (cases x) auto

lemma normalize_ok_iff:
  "normalize E cfg = (c, ws, None) \<longleftrightarrow> c = fill_defaults E cfg \<and> config_problems E cfg = []
    \<and> ws = (case normalizeEndpoint E (Endpoint cfg) of Inl e \<Rightarrow> [] | Inr (ep, ws) \<Rightarrow> ws)"
  by (auto simp: normalize_def Let_def)

lemma normalize_Redis: "normalize E cfg = (c, ws, None) \<Longrightarrow> Redis c = None \<longleftrightarrow> Redis cfg = None"
  by (simp add: normalize_ok_iff fill_defaults_def split: option.split)

lemma config_problems_NilD:
  assumes "config_problems E cfg = []"
  shows "0 \<le> BufferSize cfg" "0 \<le> FlushInterval cfg"
    "StatusInterval cfg = 0 \<or> 60 * Second \<le> StatusInterval cfg"
    "DynamicRuleInterval cfg = 0 \<or> 60 * Second \<le> DynamicRuleInterval cfg"
    "0 \<le> MaxConcurrentFlushes cfg" "0 \<le> RetryAttempts cfg" "0 \<le> Timeout cfg"
    "0 \<le> CompressionThreshold cfg" "0 \<le> MaxPayloadSize cfg"
  using assms unfolding config_problems_def append_is_Nil_conv problem_if_Nil by linarith+

lemma config_problems_Nil_Overflow:
  assumes "config_problems E cfg = []"
  shows "Overflow cfg = [] \<or> List.member [OverflowDrop, OverflowBlock, OverflowRaise] (Overflow cfg)"
  using assms unfolding config_problems_def append_is_Nil_conv problem_if_Nil by blast

lemma config_problems_Nil_Redis:
  assumes "config_problems E cfg = []" "Redis cfg = Some r"
  shows "snd (normalizeRedis E r) = []"
proof -
  from assms(1) have "(case Redis cfg of None \<Rightarrow> [] | Some r \<Rightarrow> snd (normalizeRedis E r)) = []"
    unfolding config_problems_def append_is_Nil_conv by blast
  with assms(2) show ?thesis by simp
qed

lemma normalize_ok_sound:
  assumes "normalize E cfg = (c, ws, None)"
  shows "sound_config c"
proof -
  have c: "c = fill_defaults E cfg" and p: "config_problems E cfg = []"
    using assms by (simp_all add: normalize_ok_iff)
  have ratio: "HighWatermarkRatio c = NaN
      \<or> Fin 0 < HighWatermarkRatio c \<and> HighWatermarkRatio c \<le> Fin 1"
    using float_ratio_sound [of "HighWatermarkRatio cfg"] p defaultHighWatermark_range
    by (auto simp: c fill_defaults_def config_problems_def)
  have factor: "BackoffFactor c = NaN \<or> Fin 0 < BackoffFactor c"
    using float_factor_sound [of "BackoffFactor cfg"] p
    by (auto simp: c fill_defaults_def config_problems_def)
  have redis: "\<forall>r. Redis c = Some r \<longrightarrow> URL r \<noteq> [] \<and> Prefix r \<noteq> [] \<and> 0 < redis_TTL r"
    using config_problems_Nil_Redis [OF p] normalizeRedis_sound
    by (auto simp: c fill_defaults_def prod_eq_iff split: option.splits)
  have key: "10 \<le> length (APIKey c)"
    using p by (cases "APIKey cfg = []") (simp_all add: c fill_defaults_def config_problems_def)
  have nums: "0 < BufferSize c" "0 < FlushInterval c" "60 * Second \<le> StatusInterval c"
      "60 * Second \<le> DynamicRuleInterval c" "0 < MaxConcurrentFlushes c" "0 \<le> RetryAttempts c"
      "0 < Timeout c" "0 \<le> CompressionThreshold c" "0 < MaxPayloadSize c"
    using config_problems_NilD [OF p] by (simp_all add: c fill_defaults_def, linarith+)
  have over: "Overflow c \<in> {OverflowDrop, OverflowBlock, OverflowRaise}"
    using config_problems_Nil_Overflow [OF p]
    by (cases "Overflow cfg = []") (simp_all add: c fill_defaults_def)
  have "SensitiveHeaders c \<noteq> None" by (simp add: c fill_defaults_def)
  with key nums over ratio factor redis show ?thesis unfolding sound_config_def by blast
qed

text \<open>C35. A configuration that \<open>normalize\<close> accepts is sound: every size, interval and count is in
  its range, the overflow policy is one of the three, the header list and the Redis prefix and TTL
  are filled in. Only NaN gets past the two float checks.\<close>

theorem normalize_sound:
  assumes "normalize E cfg = (c, ws, None)"
  shows "sound_config c"
  using assms by (rule normalize_ok_sound)

theorem normalize_sound_witness:
  "\<exists>E cfg. config_problems E cfg = [] \<and> sound_config (fill_defaults E cfg)"
proof -
  let ?E = "undefined :: env"
  let ?cfg = "DefaultConfig\<lparr>APIKey := ''0123456789'', Endpoint := []\<rparr>"
  obtain v where v: "defaultHighWatermark = Fin v" "0 < v" "v \<le> 1"
    using defaultHighWatermark_Fin by blast
  then have p: "config_problems ?E ?cfg = []"
    unfolding DefaultConfig_def v(1)
    by (simp add: config_problems_def problem_if_def normalizeEndpoint_def)
  have "normalize ?E ?cfg = (fill_defaults ?E ?cfg, [], None)"
    using p by (simp add: normalize_ok_iff normalizeEndpoint_def)
  from normalize_sound [OF this] p show ?thesis by blast
qed

text \<open>An accepted endpoint is the default one for an empty setting; otherwise it is the setting
  without its trailing slashes and without one trailing /api/v1, which is what the warning reports,
  and it never ends in a slash.\<close>

theorem normalizeEndpoint_shape:
  assumes "normalizeEndpoint E raw = Inr (ep, ws)" and "raw \<noteq> []"
  shows "(ep = [] \<or> last ep \<noteq> CHR ''/'') \<and>
    (if ws = [] then \<exists>n. raw = ep @ replicate n (CHR ''/'')
     else \<exists>k n. raw = ep @ replicate k (CHR ''/'') @ ''/api/v1'' @ replicate n (CHR ''/'')
       \<and> ws = [apiVersionSuffixWarning])"
proof -
  let ?t = "TrimRight raw (CHR ''/'')"
  obtain n where n: "raw = ?t @ replicate n (CHR ''/'')" using TrimRight_append by blast
  have split: "if HasSuffix ?t apiVersionPathSuffix
      then ep = TrimRight (TrimSuffix ?t apiVersionPathSuffix) (CHR ''/'') \<and> ws = [apiVersionSuffixWarning]
      else ep = ?t \<and> ws = []"
    using assms by (auto simp: normalizeEndpoint_def Let_def split: option.splits if_splits)
  show ?thesis
  proof (cases "HasSuffix ?t apiVersionPathSuffix")
    case True
    then obtain p where p: "?t = p @ apiVersionPathSuffix" by (auto simp: HasSuffix_iff)
    with split True have ep: "ep = TrimRight p (CHR ''/'')" "ws = [apiVersionSuffixWarning]" by simp_all
    obtain k where k: "p = TrimRight p (CHR ''/'') @ replicate k (CHR ''/'')" using TrimRight_append by blast
    have "raw = ep @ replicate k (CHR ''/'') @ apiVersionPathSuffix @ replicate n (CHR ''/'')"
      using n p k ep(1) by (metis append.assoc)
    with ep TrimRight_last [of p "CHR ''/''"] show ?thesis by auto
  next
    case False
    with split have "ep = ?t" "ws = []" by simp_all
    with n TrimRight_last [of raw "CHR ''/''"] show ?thesis by auto
  qed
qed

theorem normalizeEndpoint_shape_witness:
  "\<exists>E. normalizeEndpoint E ''http://h/api/v1/'' = Inr (''http://h'', [apiVersionSuffixWarning])
    \<and> last ''http://h'' \<noteq> CHR ''/''"
proof -
  let ?E = "(undefined :: env)\<lparr>url_Parse := \<lambda>_. Some (''http'', ''h'')\<rparr>"
  have t: "TrimRight ''http://h/api/v1/'' (CHR ''/'') = ''http://h/api/v1''"
    "HasSuffix ''http://h/api/v1'' ''/api/v1''" "TrimSuffix ''http://h/api/v1'' ''/api/v1'' = ''http://h''"
    "TrimRight ''http://h'' (CHR ''/'') = ''http://h''" "map lower_ascii ''http'' = ''http''"
    "list_all (byte_in 0 127) ''http''"
    by code_simp+
  have l: "ToLower ?E ''http'' = ''http''" by (simp only: ToLower_def t if_True)
  have h: "normalizeEndpoint ?E ''http://h/api/v1/'' = Inr (''http://h'', [apiVersionSuffixWarning])"
    by (simp add: normalizeEndpoint_def Let_def l t)
  with normalizeEndpoint_shape [OF h] show ?thesis by blast
qed

text \<open>ValidateConfig reports exactly the problems and warnings of construction, but it is not
  free of side effects: the caller's Redis configuration has its prefix and TTL defaults filled in
  afterwards.\<close>

theorem ValidateConfig_effect:
  "ValidateConfig E cfg = (config_problems E cfg
       @ (case normalizeEndpoint E (Endpoint cfg) of Inl e \<Rightarrow> [] | Inr (ep, ws) \<Rightarrow> ws),
     map_option (\<lambda>r. r\<lparr>Prefix := (if Prefix r = [] then ''guard:agent'' else Prefix r),
       redis_TTL := (if redis_TTL r = 0 then 3600 * Second else redis_TTL r)\<rparr>) (Redis cfg))"
  by (auto simp: ValidateConfig_def normalize_def Let_def fill_defaults_def normalizeRedis_def
      split: option.splits)

end
