(* ===== verification/Support.thy ===== *)
theory Support
  imports Config
begin

text \<open>
  signing.go, error_hook.go and the helpers of utils.go. HMAC-SHA256 and SHA-256 are functions of the
  environment.
\<close>

section \<open>signing.go\<close>

abbreviation signatureHeader :: gostring where "signatureHeader \<equiv> ''X-Payload-Signature''"
abbreviation signaturePrefix :: gostring where "signaturePrefix \<equiv> ''v1=''"

definition signPayload :: "env \<Rightarrow> gostring \<Rightarrow> gostring \<Rightarrow> gostring" where
  "signPayload E body secret = signaturePrefix @ hexEncode (hmac_sha256 E secret body)"

definition verifyPayloadSignature :: "env \<Rightarrow> gostring \<Rightarrow> gostring \<Rightarrow> gostring \<Rightarrow> bool" where
  "verifyPayloadSignature E body signature secret =
    (if signature = [] \<or> secret = [] then False
     else (let expected = signPayload E body secret in expected = signature))"

lemma verify_signPayload [simp]:
  "verifyPayloadSignature E body (signPayload E body secret) secret \<longleftrightarrow> secret \<noteq> []"
  by (simp add: verifyPayloadSignature_def signPayload_def)

section \<open>error_hook.go\<close>

abbreviation StageTransportSend :: gostring where "StageTransportSend \<equiv> ''transport_send''"
abbreviation StageEncryption :: gostring where "StageEncryption \<equiv> ''encryption''"
abbreviation StageFlushEvents :: gostring where "StageFlushEvents \<equiv> ''flush_events''"
abbreviation StageFlushMetrics :: gostring where "StageFlushMetrics \<equiv> ''flush_metrics''"

text \<open>
  A panic of the hook is recovered, so that from the agent's side a configured hook is the fact
  that it was called.
\<close>

definition fireErrorHook :: "bool \<Rightarrow> gostring \<Rightarrow> goerror option \<Rightarrow> (gostring \<times> hook_val) list \<Rightarrow> world \<Rightarrow> world" where
  "fireErrorHook hook stage err context w = (if \<not> hook then w
     else w\<lparr>hook_trace := hook_trace w @ [\<lparr>h_stage = stage, h_err = err, h_context = context\<rparr>]\<rparr>)"

lemma fireErrorHook_frame [simp]:
  "tick (fireErrorHook h s e c w) = tick w" "clock (fireErrorHook h s e c w) = clock w"
  "http_trace (fireErrorHook h s e c w) = http_trace w"
  "redis_trace (fireErrorHook h s e c w) = redis_trace w"
  "file_trace (fireErrorHook h s e c w) = file_trace w"
  "uuidFallbackCounter (fireErrorHook h s e c w) = uuidFallbackCounter w"
  by (simp_all add: fireErrorHook_def)

section \<open>utils.go\<close>

text \<open>\<open>TruncatePayload\<close>; a negative size is an out-of-range slice expression, which panics (None).\<close>

definition TruncatePayload :: "gostring \<Rightarrow> int \<Rightarrow> gostring option" where
  "TruncatePayload payload maxSize =
    (if int (length payload) \<le> maxSize then Some payload
     else if maxSize < 0 then None
     else Some (take (nat maxSize) payload @ ''...[TRUNCATED]''))"

text \<open>\<open>strings.Fields\<close>: the runs between white space.\<close>

fun take_word :: "gostring \<Rightarrow> gostring \<times> gostring" where
  "take_word [] = ([], [])"
| "take_word (c # s) = (if space_len (map code (c # s)) \<noteq> 0 then ([], c # s)
     else (case take_word s of (w, r) \<Rightarrow> (c # w, r)))"

lemma take_word_length: "length (snd (take_word s)) \<le> length s"
  by (induction s) (auto split: prod.splits)

lemma trim_by_length: "length (trim_by f s) \<le> length s"
proof (induction f s rule: trim_by.induct)
  case (1 f s)
  show ?case
  proof (cases "f (map code s) = 0 \<or> s = []")
    case True
    then show ?thesis by (auto simp: trim_by.simps [of f s])
  next
    case False
    with 1 have "length (trim_by f (drop (f (map code s)) s)) \<le> length (drop (f (map code s)) s)" by simp
    then show ?thesis using False by (subst trim_by.simps) (simp add: Let_def)
  qed
qed

lemma trim_left_word: "trim_by space_len s \<noteq> [] \<Longrightarrow> length (snd (take_word (trim_by space_len s))) < length s"
proof -
  let ?t = "trim_by space_len s"
  assume ne: "?t \<noteq> []"
  then obtain c u where t: "?t = c # u" by (cases ?t) auto
  from trim_by_result [of space_len s] ne have "space_len (map code ?t) = 0" by blast
  then have "length (snd (take_word ?t)) \<le> length u"
    using take_word_length [of u] by (cases "take_word u") (simp add: t)
  moreover have "length ?t \<le> length s" by (rule trim_by_length)
  ultimately show ?thesis by (simp add: t)
qed

function Fields :: "gostring \<Rightarrow> gostring list" where
  "Fields s = (let t = trim_by space_len s in if t = [] then []
     else fst (take_word t) # Fields (snd (take_word t)))"
  by pat_completeness auto
termination
  by (relation "measure length") (auto simp: trim_left_word)

declare Fields.simps [simp del]

definition SummarizeResponseBody :: "gostring \<Rightarrow> int \<Rightarrow> gostring" where
  "SummarizeResponseBody text maxLength =
    (let collapsed = join_with '' '' (Fields text) in
     if maxLength \<le> 0 \<or> int (length collapsed) \<le> maxLength then collapsed
     else take (nat maxLength) collapsed @ ''... [truncated, '' @ Itoa (int (length text)) @ '' chars total]'')"

definition GenerateBatchID :: "env \<Rightarrow> world \<Rightarrow> gostring \<times> world" where
  "GenerateBatchID E w = gen_batchID E w"

definition SafeJSONSerialize :: "env \<Rightarrow> goval \<Rightarrow> goerror + gostring" where
  "SafeJSONSerialize E v = (case jsonMarshal E (JAny v) of
     Inl err \<Rightarrow> Inl (SerializationError err) | Inr encoded \<Rightarrow> Inr encoded)"

text \<open>The nil map is None, both for an error and for the document \<open>null\<close>.\<close>

definition SafeJSONDeserialize :: "env \<Rightarrow> gostring \<Rightarrow> gomap option" where
  "SafeJSONDeserialize E payload = (case unmarshal_any E payload of Some (GMap m) \<Rightarrow> Some m | _ \<Rightarrow> None)"

text \<open>The first 16 hexadecimal characters of \<open>sha256\<close>, a parameter, over address and salt.\<close>

definition HashIP :: "(gostring \<Rightarrow> gostring) \<Rightarrow> gostring \<Rightarrow> gostring \<Rightarrow> gostring" where
  "HashIP sha256 ip salt = take 16 (hexEncode (sha256 (ip @ salt)))"

section \<open>One line, bounded\<close>

lemma take_word_no_space: "list_all (\<lambda>c. \<not> space1 (code c)) (fst (take_word s))"
proof (induction s)
  case (Cons c s)
  have "space_len (map code (c # s)) \<noteq> 0" if "space1 (code c)"
    using that by (cases "map code s" rule: space_len.cases) auto
  with Cons show ?case by (auto split: prod.splits)
qed simp

lemma Fields_no_space: "w \<in> set (Fields s) \<Longrightarrow> list_all (\<lambda>c. \<not> space1 (code c)) w"
proof (induction s rule: Fields.induct)
  case (1 s)
  show ?case
  proof (cases "trim_by space_len s = []")
    case True
    with "1.prems" show ?thesis by (simp add: Fields.simps [of s])
  next
    case False
    with "1.prems" have "w = fst (take_word (trim_by space_len s))
        \<or> w \<in> set (Fields (snd (take_word (trim_by space_len s))))"
      by (subst (asm) Fields.simps) (simp add: Let_def)
    with False "1.IH" take_word_no_space show ?thesis by blast
  qed
qed

lemma join_with_set: "set (join_with sep ws) \<subseteq> set sep \<union> (\<Union>w\<in>set ws. set w)"
  by (induction sep ws rule: join_with.induct) auto

definition line_break :: "char \<Rightarrow> bool" where
  "line_break c \<longleftrightarrow> 9 \<le> code c \<and> code c \<le> 13"

lemma collapsed_one_line: "list_all (\<lambda>c. \<not> line_break c) (join_with '' '' (Fields s))"
proof -
  have "\<not> line_break c" if "c \<in> set (join_with '' '' (Fields s))" for c
  proof -
    have "c = CHR '' '' \<or> (\<exists>w\<in>set (Fields s). c \<in> set w)"
      using that join_with_set [of "'' ''" "Fields s"] by auto
    then show ?thesis
      using Fields_no_space [of _ s] by (auto simp: line_break_def space1_def list_all_iff)
  qed
  then show ?thesis by (simp add: list_all_iff)
qed

lemma Itoa_nat_one_line: "list_all (\<lambda>c. \<not> line_break c) (Itoa (int n))"
  using show_nat_digits [of n]
  by (auto simp: Itoa_def list_all_iff is_digit_def byte_in_def line_break_def)

text \<open>A summarised response body never holds a tab or a line break, so that it cannot forge a
  second log line, and with a positive bound it is at most the bound plus the truncation note long.\<close>

theorem SummarizeResponseBody_line:
  "list_all (\<lambda>c. \<not> line_break c) (SummarizeResponseBody text n)
   \<and> (n \<le> 0 \<or> int (length (SummarizeResponseBody text n)) \<le> n + 29 + int (length (Itoa (int (length text)))))"
proof -
  have "list_all (\<lambda>c. \<not> line_break c) (take k (join_with '' '' (Fields text)))" for k
    using collapsed_one_line [of "text"] by (auto simp: list_all_iff dest: in_set_takeD)
  then show ?thesis
    using collapsed_one_line [of "text"] Itoa_nat_one_line [of "length text"]
    by (auto simp: SummarizeResponseBody_def Let_def line_break_def)
qed

end
