(* ===== verification/InstallId.thy ===== *)
theory InstallId
  imports Support
begin

text \<open>
  install_id.go. The file system is the environment's \<open>ReadFile\<close> overlaid with what the code has
  written since (\<open>file_trace\<close>).
\<close>

section \<open>Operations\<close>

definition read_file :: "env \<Rightarrow> world \<Rightarrow> gostring \<Rightarrow> file_read" where
  "read_file E w path = (case map_of (rev (file_trace w)) path of
     Some content \<Rightarrow> Contents content | None \<Rightarrow> ReadFile E path)"

text \<open>The part of \<open>resolveInstallID\<close> that creates the state file.\<close>

definition create_install_id :: "env \<Rightarrow> gostring \<Rightarrow> world \<Rightarrow> gostring \<times> world" where
  "create_install_id E path w =
    (case gen_UUID4 E w of (ident, w1) \<Rightarrow>
      if MkdirAll_err E (filepath_Dir E path) \<noteq> None then (ident, w1)
      else if WriteFile_err E path \<noteq> None then (ident, w1)
      else (ident, w1\<lparr>file_trace := file_trace w1 @ [(path, ident @ [CHR 10])]\<rparr>))"

definition resolveInstallID :: "env \<Rightarrow> gostring \<Rightarrow> gostring \<Rightarrow> world \<Rightarrow> gostring \<times> world" where
  "resolveInstallID E override path0 w =
    (if override \<noteq> [] then (override, w)
     else let path = (if path0 = [] then defaultInstallIDPath E else path0) in
     if path = [] then gen_UUID4 E w
     else case read_file E w path of
       Contents data \<Rightarrow> (let ident = TrimSpace data in if ident \<noteq> [] then (ident, w) else create_install_id E path w)
     | NotExist \<Rightarrow> create_install_id E path w
     | ReadError e \<Rightarrow> create_install_id E path w)"

section \<open>The identity is stable\<close>

text \<open>A string of ASCII letters, digits and dashes survives trimming, also with the newline the file has.\<close>

lemma space_len_0: "\<not> space1 a \<Longrightarrow> a < 128 \<Longrightarrow> space_len (a # bs) = 0"
  by (cases "a # bs" rule: space_len.cases) (auto simp: space2_def space3_def)

lemma space_len_rev_0: "\<not> space1 a \<Longrightarrow> a < 128 \<Longrightarrow> space_len_rev (a # bs) = 0"
  by (cases "a # bs" rule: space_len_rev.cases) (auto simp: space2_def space3_def)

lemma trim_newline:
  assumes "s \<noteq> []" "\<not> space1 (code (hd s))" "code (hd s) < 128" "\<not> space1 (code (last s))" "code (last s) < 128"
  shows "TrimSpace (s @ [CHR 10]) = s"
proof -
  obtain c t where s: "s = c # t" using assms(1) by (cases s) auto
  have l: "trim_by space_len (s @ [CHR 10]) = s @ [CHR 10]"
    using assms by (intro trim_by_fixed) (simp add: s space_len_0)
  obtain u d where r: "s = u @ [d]" using assms(1) by (cases s rule: rev_cases) auto
  have nl: "space_len_rev (10 # xs) = 1" for xs
    by (cases "10 # xs" rule: space_len_rev.cases) (auto simp: space1_def)
  have "trim_by space_len_rev (rev (s @ [CHR 10])) = trim_by space_len_rev (rev s)"
    by (subst trim_by.simps) (simp add: nl Let_def)
  also have "\<dots> = rev s"
    using assms by (intro trim_by_fixed) (simp add: r space_len_rev_0)
  finally show ?thesis by (simp add: TrimSpace_def l)
qed

lemma hex_lower_plain: "hex_lower c \<Longrightarrow> \<not> space1 (code c) \<and> code c < 128"
  by (auto simp: hex_lower_def byte_in_def space1_def)

lemma trim_uuid: "uuid4_shape s \<Longrightarrow> TrimSpace (s @ [CHR 10]) = s \<and> s \<noteq> []"
proof -
  assume u: "uuid4_shape s"
  then have len: "length s = 36"
    and h: "\<And>i. i < 36 \<Longrightarrow> i \<notin> {8, 13, 18, 23} \<Longrightarrow> hex_lower (s ! i)"
    by (auto simp: uuid4_shape_def list_all_iff)
  then have ne: "s \<noteq> []" by auto
  then have "hd s = s ! 0" "last s = s ! 35" by (simp_all add: hd_conv_nth last_conv_nth len)
  then have "hex_lower (hd s)" "hex_lower (last s)" using h [of 0] h [of 35] by simp_all
  then show ?thesis using trim_newline [OF ne] hex_lower_plain ne by blast
qed

text \<open>The entropy source fills the buffer it is given.\<close>

definition entropy_fills :: "env \<Rightarrow> bool" where
  "entropy_fills E \<longleftrightarrow> (\<forall>t n bs. entropy E t n = Some bs \<longrightarrow> length bs = n)"

lemma gen_UUID4_shape: "entropy_fills E \<Longrightarrow> uuid4_shape (fst (gen_UUID4 E w))"
  unfolding entropy_fills_def
  by (auto simp: gen_UUID4_def newUUID4_def Let_def split: option.splits intro!: uuid_shape_format)

lemma gen_UUID4_files [simp]: "file_trace (snd (gen_UUID4 E w)) = file_trace w"
  by (simp add: gen_UUID4_def Let_def split: option.splits)

lemma create_install_id_again:
  assumes "entropy_fills E" "MkdirAll_err E (filepath_Dir E path) = None" "WriteFile_err E path = None"
    "create_install_id E path w = (ident, w')" "file_trace w'' = file_trace w'"
  shows "read_file E w'' path = Contents (ident @ [CHR 10]) \<and> TrimSpace (ident @ [CHR 10]) = ident \<and> ident \<noteq> []"
proof -
  have "uuid4_shape ident" using assms gen_UUID4_shape [of E w] by (auto simp: create_install_id_def split: prod.splits)
  moreover have "file_trace w'' = file_trace w @ [(path, ident @ [CHR 10])]"
    using assms gen_UUID4_files [of E w]
    by (cases "gen_UUID4 E w") (auto simp: create_install_id_def simp del: gen_UUID4_files)
  ultimately show ?thesis by (simp add: read_file_def trim_uuid)
qed

text \<open>The install identity is stable: once a resolution could write its state file, every later
  resolution that finds the files as that one left them reports the same identity and changes
  nothing.\<close>

theorem resolveInstallID_stable:
  assumes "entropy_fills E"
    "\<forall>path. MkdirAll_err E (filepath_Dir E path) = None \<and> WriteFile_err E path = None"
    "path0 \<noteq> [] \<or> defaultInstallIDPath E \<noteq> []"
    "resolveInstallID E override path0 w = (ident, w')" "file_trace w'' = file_trace w'"
  shows "resolveInstallID E override path0 w'' = (ident, w'')"
proof (cases "override \<noteq> []")
  case True
  with assms(4) show ?thesis by (simp add: resolveInstallID_def)
next
  case False
  define path where "path = (if path0 = [] then defaultInstallIDPath E else path0)"
  have p: "path \<noteq> []" using assms(3) by (auto simp: path_def)
  have unf: "resolveInstallID E override path0 v = (case read_file E v path of
       Contents data \<Rightarrow> (let ident = TrimSpace data in if ident \<noteq> [] then (ident, v) else create_install_id E path v)
     | NotExist \<Rightarrow> create_install_id E path v
     | ReadError e \<Rightarrow> create_install_id E path v)" for v
    using False p by (simp add: resolveInstallID_def path_def [symmetric] Let_def)
  show ?thesis
  proof (cases "\<exists>data. read_file E w path = Contents data \<and> TrimSpace data \<noteq> []")
    case True
    then obtain data where d: "read_file E w path = Contents data" "TrimSpace data \<noteq> []" by blast
    with assms(4) have "ident = TrimSpace data" "w' = w" by (simp_all add: unf)
    moreover from this have "read_file E w'' path = Contents data"
      using d(1) assms(5) by (simp add: read_file_def)
    ultimately show ?thesis using d(2) by (simp add: unf)
  next
    case create: False
    have "create_install_id E path w = (ident, w')"
      using assms(4) create by (auto simp: unf Let_def split: file_read.splits if_splits)
    from create_install_id_again [OF assms(1) _ _ this assms(5)] assms(2) show ?thesis
      by (simp add: unf)
  qed
qed

lemma calm_entropy_fills: "entropy_fills calm"
  by (simp add: entropy_fills_def calm_def)

theorem resolveInstallID_stable_witness:
  "\<exists>ident w'. resolveInstallID calm [] ''/ident'' start = (ident, w')
     \<and> resolveInstallID calm [] ''/ident'' (observe calm w') = (ident, observe calm w')"
proof -
  obtain ident w' where r: "resolveInstallID calm [] ''/ident'' start = (ident, w')"
    by (cases "resolveInstallID calm [] ''/ident'' start") auto
  have "resolveInstallID calm [] ''/ident'' (observe calm w') = (ident, observe calm w')"
    by (rule resolveInstallID_stable [OF calm_entropy_fills _ _ r]) (simp_all add: calm_def)
  with r show ?thesis by blast
qed

end
