(* ===== verification/Encryption.thy ===== *)
theory Encryption
  imports Codec World
begin

text \<open>
  encryption.go: the canonical JSON text, the payload encryptor and its key check. AES-GCM is the
  pair \<open>aead_Seal\<close>, \<open>aead_Open\<close> of the environment, keyed by the decoded project key; json.Unmarshal
  and json.Marshal on arbitrary values come from the environment as well.
\<close>

section \<open>Canonical text\<close>

text \<open>\<open>%04x\<close> of a number below 65536, and the UTF-16 units of a rune (utf16.Encode).\<close>

definition hex4 :: "nat \<Rightarrow> gostring" where
  "hex4 n = [hex_digit (n div 4096), hex_digit (n div 256 mod 16), hex_digit (n div 16 mod 16),
     hex_digit (n mod 16)]"

definition utf16 :: "nat \<Rightarrow> nat list" where
  "utf16 r = (if r > 65535 then [55296 + (r - 65536) div 1024, 56320 + (r - 65536) mod 1024] else [r])"

definition unit_escape :: "nat \<Rightarrow> gostring" where
  "unit_escape u = [CHR 0x5C, CHR ''u''] @ hex4 u"

text \<open>The switch of \<open>writeCanonicalString\<close> on one rune.\<close>

definition writeRune :: "nat \<Rightarrow> gostring" where
  "writeRune r = (if r = 34 then [CHR 0x5C, CHR 0x22]
     else if r = 92 then [CHR 0x5C, CHR 0x5C]
     else if r = 8 then [CHR 0x5C, CHR ''b'']
     else if r = 12 then [CHR 0x5C, CHR ''f'']
     else if r = 10 then [CHR 0x5C, CHR ''n'']
     else if r = 13 then [CHR 0x5C, CHR ''r'']
     else if r = 9 then [CHR 0x5C, CHR ''t'']
     else if r < 0x20 \<or> r > 0x7E then concat (map unit_escape (utf16 r))
     else [char_of r])"

definition writeCanonicalString :: "gostring \<Rightarrow> gostring" where
  "writeCanonicalString s = [CHR 0x22] @ concat (map writeRune (runes s)) @ [CHR 0x22]"

text \<open>
  \<open>writeCanonicalFloat\<close>: a whole number up to 1e15 in magnitude with \<open>".0"\<close> (the 'f' format with one
  decimal, exact on whole numbers), anything else in the shortest 'g' format.
\<close>

definition writeCanonicalFloat :: "env \<Rightarrow> f64 \<Rightarrow> nat \<Rightarrow> gostring" where
  "writeCanonicalFloat E v bits =
    (if f64_eq v (f64_of_int (f64_to_int64 (conv E) v))
        \<and> Fin (- 1000000000000000) \<le> v \<and> v \<le> Fin 1000000000000000
     then Itoa (f64_to_int64 (conv E) v) @ ''.0'' else FormatFloat_g E v bits)"

lemma size_map_entry: "(key, item) \<in> set m \<Longrightarrow> size item < Suc (size_list (size_prod (\<lambda>x. 0) size) m)"
  by (induction m) auto

function writeCanonicalJSON :: "env \<Rightarrow> goval \<Rightarrow> gostring" where
  "writeCanonicalJSON E v = (case v of
     GNil \<Rightarrow> ''null''
   | GBool b \<Rightarrow> if b then ''true'' else ''false''
   | GInt i \<Rightarrow> Itoa i
   | GUint n \<Rightarrow> show_nat n
   | GFloat32 x \<Rightarrow> writeCanonicalFloat E x 32
   | GFloat64 x \<Rightarrow> writeCanonicalFloat E x 64
   | GString s \<Rightarrow> writeCanonicalString s
   | GRaw s \<Rightarrow> s
   | GNumber s \<Rightarrow> s
   | GSlice items \<Rightarrow> ''['' @ join_with '','' (map (\<lambda>item. writeCanonicalJSON E item) items) @ '']''
   | GMap m \<Rightarrow> ''{'' @ join_with '','' (map (\<lambda>(key, item). writeCanonicalString key @ '':''
         @ writeCanonicalJSON E item) (sort_key fst m)) @ ''}''
   | _ \<Rightarrow> (case marshal_any E v of None \<Rightarrow> ''null'' | Some encoded \<Rightarrow> encoded))"
  by pat_completeness auto

termination
  by (relation "measure (\<lambda>(E, v). size v)")
     (auto simp: less_Suc_eq_le intro: size_list_estimation' dest: size_map_entry)

declare writeCanonicalJSON.simps [simp del]

definition canonicalJSON :: "env \<Rightarrow> gomap \<Rightarrow> gostring" where
  "canonicalJSON E data = writeCanonicalJSON E (GMap data)"

section \<open>The encryptor\<close>

abbreviation encryptionNonceSize :: nat where "encryptionNonceSize \<equiv> 12"
abbreviation encryptionKeySize :: nat where "encryptionKeySize \<equiv> 32"

text \<open>The AEAD of an encryptor is determined by its key.\<close>

record PayloadEncryptor =
  aead :: gostring

definition NewPayloadEncryptor :: "env \<Rightarrow> gostring \<Rightarrow> goerror + PayloadEncryptor" where
  "NewPayloadEncryptor E projectKey =
    (if projectKey = [] then Inl (EncryptionError ''Project key cannot be empty'')
     else case decodeUrlsafeBase64 projectKey of
       None \<Rightarrow> Inl (EncryptionError (''Invalid project key format: '' @ corrupt_input_err E projectKey))
     | Some decoded \<Rightarrow>
         if length decoded \<noteq> encryptionKeySize
         then Inl (EncryptionError (''Invalid key size: '' @ Itoa (int (length decoded))
                @ '' bytes, expected '' @ Itoa (int encryptionKeySize)))
         else Inr \<lparr>aead = decoded\<rparr>)"

definition Encrypt :: "env \<Rightarrow> PayloadEncryptor \<Rightarrow> gomap \<Rightarrow> gostring \<Rightarrow> world
    \<Rightarrow> (goerror + gostring) \<times> world" where
  "Encrypt E p data associatedData w =
    (let plaintext = canonicalJSON E data in
     (case entropy E (tick w) encryptionNonceSize of
        None \<Rightarrow> Inl (EncryptionError (''Failed to encrypt payload: '' @ rand_err E))
      | Some nonce \<Rightarrow> Inr (encodeUrlsafeBase64
          (nonce @ aead_Seal E (aead p) nonce plaintext associatedData)), observe E w))"

definition Decrypt :: "env \<Rightarrow> PayloadEncryptor \<Rightarrow> gostring \<Rightarrow> gostring \<Rightarrow> goerror + gomap" where
  "Decrypt E p encryptedData associatedData =
    (let bad = Inl (EncryptionError ''Invalid or tampered payload'') in
     case decodeUrlsafeBase64 encryptedData of None \<Rightarrow> bad
     | Some combined \<Rightarrow>
         if length combined < encryptionNonceSize + 16 then bad
         else (let nonce = take encryptionNonceSize combined;
                   ciphertext = drop encryptionNonceSize combined in
           case aead_Open E (aead p) nonce ciphertext associatedData of None \<Rightarrow> bad
           | Some plaintext \<Rightarrow> (case unmarshal_any E plaintext of
               Some (GMap parsed) \<Rightarrow> Inr parsed
             | _ \<Rightarrow> bad)))"

definition VerifyKey :: "env \<Rightarrow> PayloadEncryptor \<Rightarrow> world \<Rightarrow> bool \<times> world" where
  "VerifyKey E p w =
    (let testData = [(''test'', GString ''verification'')] in
     case Encrypt E p testData [] w of
       (Inl e, w') \<Rightarrow> (False, w')
     | (Inr encrypted, w') \<Rightarrow> (case Decrypt E p encrypted [] of
         Inl e \<Rightarrow> (False, w')
       | Inr decrypted \<Rightarrow> (let raw = (case marshal_any E (GMap decrypted) of None \<Rightarrow> [] | Some b \<Rightarrow> b);
             want = (case marshal_any E (GMap testData) of None \<Rightarrow> [] | Some b \<Rightarrow> b) in
           (raw = want, w'))))"

definition CreateEncryptor :: "env \<Rightarrow> gostring \<Rightarrow> goerror + PayloadEncryptor option" where
  "CreateEncryptor E projectKey = (if projectKey = [] then Inr None
     else map_sum id Some (NewPayloadEncryptor E projectKey))"

section \<open>The canonical string is ASCII and reads back\<close>

text \<open>Printable ASCII.\<close>

definition printable :: "char \<Rightarrow> bool" where
  "printable c \<longleftrightarrow> 32 \<le> code c \<and> code c \<le> 126"

lemma hex_digit_code: "d < 16 \<Longrightarrow> code (hex_digit d) = (if d < 10 then 48 + d else 87 + d)"
  by (simp add: hex_digit_def)

lemma hex_digit_range: "d < 16 \<Longrightarrow> printable (hex_digit d)"
  by (simp add: printable_def hex_digit_code)

lemma hex_val_digit: "d < 16 \<Longrightarrow> hex_val (hex_digit d) = Some d"
  by (cases "d < 10") (simp_all add: hex_val_def is_digit_def digit_val_def byte_in_def lower_ascii_def hex_digit_code)

lemma hex4_printable: "u < 65536 \<Longrightarrow> list_all printable (hex4 u)"
  by (auto simp: hex4_def hex_digit_range)

lemma utf16_units: "valid_rune r \<Longrightarrow> list_all (\<lambda>u. u < 65536) (utf16 r)"
  by (auto simp: utf16_def valid_rune_def)

lemma writeRune_printable: "valid_rune r \<Longrightarrow> list_all printable (writeRune r)"
proof -
  assume "valid_rune r"
  then have "list_all (\<lambda>u. u < 65536) (utf16 r)" by (rule utf16_units)
  moreover have "list_all printable (unit_escape u)" if "u < 65536" for u
    using hex4_printable [OF that] by (simp add: unit_escape_def printable_def)
  ultimately have "list_all printable (concat (map unit_escape (utf16 r)))"
    by (auto simp: list_all_iff)
  then show ?thesis
    by (simp add: writeRune_def printable_def not_less)
qed

text \<open>Whatever bytes a string holds, its canonical JSON form is printable ASCII.\<close>

theorem writeCanonicalString_ascii: "list_all printable (writeCanonicalString s)"
proof -
  have "list_all valid_rune (runes s)" by (simp add: runes_def runes_of_valid)
  then have "list_all (\<lambda>r. list_all printable (writeRune r)) (runes s)"
    by (auto simp: list_all_iff dest: writeRune_printable [unfolded list_all_iff])
  then show ?thesis
    by (auto simp: writeCanonicalString_def list_all_iff printable_def)
qed

text \<open>
  A reader of JSON strings (after the opening quote), as the specification of the writer: the UTF-16
  units up to the closing quote, and what follows it.
\<close>

definition read_hex4 :: "gostring \<Rightarrow> nat option" where
  "read_hex4 s = (case s of a # b # c # d # _ \<Rightarrow>
     (case (hex_val a, hex_val b, hex_val c, hex_val d) of
        (Some p, Some q, Some r, Some t) \<Rightarrow> Some (((p * 16 + q) * 16 + r) * 16 + t)
      | _ \<Rightarrow> None)
   | _ \<Rightarrow> None)"

definition short_escape :: "char \<Rightarrow> nat option" where
  "short_escape c = (if c \<in> {CHR 0x22, CHR 0x5C, CHR ''/''} then Some (code c)
     else map_of [(CHR ''b'', 8), (CHR ''f'', 12), (CHR ''n'', 10), (CHR ''r'', 13), (CHR ''t'', 9)] c)"

abbreviation emit :: "nat \<Rightarrow> (nat list \<times> gostring) option \<Rightarrow> (nat list \<times> gostring) option" where
  "emit u \<equiv> map_option (\<lambda>(us, rest). (u # us, rest))"

function read_units :: "gostring \<Rightarrow> (nat list \<times> gostring) option" where
  "read_units s = (case s of [] \<Rightarrow> None | c # t \<Rightarrow>
     if c = CHR 0x22 then Some ([], t)
     else if c \<noteq> CHR 0x5C then emit (code c) (read_units t)
     else (case t of [] \<Rightarrow> None | e # t' \<Rightarrow>
       if e = CHR ''u'' then (case read_hex4 t' of None \<Rightarrow> None | Some u \<Rightarrow> emit u (read_units (drop 4 t')))
       else (case short_escape e of None \<Rightarrow> None | Some u \<Rightarrow> emit u (read_units t'))))"
  by pat_completeness auto
termination
  by (relation "measure length") auto

declare read_units.simps [simp del]

text \<open>Surrogate pairs become runes again.\<close>

fun join_units :: "nat list \<Rightarrow> nat list" where
  "join_units (h # l # us) = (if 55296 \<le> h \<and> h < 56320
     then (65536 + (h - 55296) * 1024 + (l - 56320)) # join_units us else h # join_units (l # us))"
| "join_units us = us"

lemma read_hex4_hex4: "u < 65536 \<Longrightarrow> read_hex4 (hex4 u @ rest) = Some u"
proof -
  assume u: "u < 65536"
  have "u div 4096 = u div 16 div 16 div 16" "u div 256 = u div 16 div 16"
    by (simp_all add: div_mult2_eq [symmetric])
  moreover have "u div 4096 < 16" using u by auto
  ultimately show ?thesis
    by (simp add: hex4_def read_hex4_def hex_val_digit)
qed

lemma read_unit_escape: "u < 65536 \<Longrightarrow> read_units (unit_escape u @ rest) = emit u (read_units rest)"
  by (subst read_units.simps) (simp add: unit_escape_def read_hex4_hex4, simp add: hex4_def)

lemma read_short_escape: "short_escape e = Some u \<Longrightarrow> e \<noteq> CHR ''u''
  \<Longrightarrow> read_units (CHR 0x5C # e # rest) = emit u (read_units rest)"
  by (subst read_units.simps) simp

abbreviation emits :: "nat list \<Rightarrow> (nat list \<times> gostring) option \<Rightarrow> (nat list \<times> gostring) option" where
  "emits us \<equiv> map_option (\<lambda>(vs, rest). (us @ vs, rest))"

lemma read_unit_escapes: "list_all (\<lambda>u. u < 65536) us
  \<Longrightarrow> read_units (concat (map unit_escape us) @ rest) = emits us (read_units rest)"
  by (induction us) (simp_all add: read_unit_escape option.map_comp comp_def split_def option.map_ident)

lemma read_writeRune:
  assumes "valid_rune r"
  shows "read_units (writeRune r @ rest) = emits (utf16 r) (read_units rest)"
proof -
  have plain: "read_units (char_of r # rest) = emit r (read_units rest)"
    if "r \<noteq> 34" "r \<noteq> 92" "32 \<le> r" "r \<le> 126"
  proof -
    have "code (char_of r) = r" using that by simp
    moreover have "code (CHR 0x22) = 34" "code (CHR 0x5C) = 92" by simp_all
    ultimately have "char_of r \<noteq> CHR 0x22" "char_of r \<noteq> CHR 0x5C" using that by metis+
    with \<open>code (char_of r) = r\<close> show ?thesis by (subst read_units.simps) simp
  qed
  have u: "utf16 r = [r]" if "r \<le> 65535" using that by (simp add: utf16_def)
  consider "r \<in> {34, 92, 8, 12, 10, 13, 9}"
    | "r \<notin> {34, 92, 8, 12, 10, 13, 9}" "r < 0x20 \<or> r > 0x7E"
    | "r \<notin> {34, 92, 8, 12, 10, 13, 9}" "32 \<le> r" "r \<le> 126" by fastforce
  then show ?thesis
  proof cases
    case 1
    then show ?thesis
      by (elim insertE emptyE) (simp_all add: writeRune_def utf16_def read_short_escape short_escape_def)
  next
    case 2
    then have "writeRune r = concat (map unit_escape (utf16 r))" by (simp add: writeRune_def)
    then show ?thesis using read_unit_escapes [OF utf16_units [OF assms]] by simp
  next
    case 3
    then have "writeRune r = [char_of r]" by (simp add: writeRune_def)
    then show ?thesis using 3 plain u by simp
  qed
qed

lemma read_writeRunes: "list_all valid_rune rs
  \<Longrightarrow> read_units (concat (map writeRune rs) @ CHR 0x22 # rest) = Some (concat (map utf16 rs), rest)"
proof (induction rs)
  case Nil
  show ?case by (subst read_units.simps) simp
next
  case (Cons r rs)
  then show ?case using read_writeRune [of r "concat (map writeRune rs) @ CHR 0x22 # rest"] by simp
qed

lemma join_units_utf16: "list_all valid_rune rs \<Longrightarrow> join_units (concat (map utf16 rs)) = rs"
proof (induction rs)
  case (Cons r rs)
  then have v: "valid_rune r" and IH: "join_units (concat (map utf16 rs)) = rs" by auto
  show ?case
  proof (cases "r > 65535")
    case True
    have "(r - 65536) div 1024 < 1024" using v by (auto simp: valid_rune_def)
    moreover have "utf16 r = [55296 + (r - 65536) div 1024, 56320 + (r - 65536) mod 1024]"
      using True by (simp add: utf16_def)
    ultimately show ?thesis using True IH by simp
  next
    case False
    then have "utf16 r = [r]" "\<not> (55296 \<le> r \<and> r < 56320)" using v by (auto simp: utf16_def valid_rune_def)
    with IH show ?thesis by (cases "concat (map utf16 rs)") auto
  qed
qed simp

text \<open>A JSON reader that starts after the opening quote of a canonical string stops exactly at
  its closing quote and gets back the runes of the original string, so no payload text can break out
  of its string.\<close>

theorem writeCanonicalString_roundtrip:
  "map_option (\<lambda>(us, rest). (join_units us, rest)) (read_units (tl (writeCanonicalString s) @ rest))
     = Some (runes s, rest)"
proof -
  have "list_all valid_rune (runes s)" by (simp add: runes_def runes_of_valid)
  from read_writeRunes [OF this] join_units_utf16 [OF this] show ?thesis
    by (simp add: writeCanonicalString_def)
qed

section \<open>Canonical: independent of the order of a map\<close>

lemma sort_key_mset_eq:
  "mset xs = mset ys \<Longrightarrow> distinct (map fst xs) \<Longrightarrow> sort_key fst xs = sort_key fst ys"
  by (rule sort_key_inj_key_eq) (auto simp: distinct_map)

text \<open>The canonical text of a map does not depend on the order in which Go iterates it.\<close>

theorem canonicalJSON_order:
  assumes "mset data = mset data'" "distinct (map fst data)"
  shows "canonicalJSON E data = canonicalJSON E data'"
proof -
  have "sort_key fst data = sort_key fst data'" using assms by (rule sort_key_mset_eq)
  then show ?thesis
    by (simp add: canonicalJSON_def writeCanonicalJSON.simps [of E "GMap _"] del: sort_key_simps)
qed

theorem canonicalJSON_order_witness:
  "canonicalJSON calm [(''a'', GNil), (''b'', GBool True)] = canonicalJSON calm [(''b'', GBool True), (''a'', GNil)]"
  by (rule canonicalJSON_order) (simp_all add: add_mset_commute)

section \<open>Keys, and what comes back\<close>

lemma decode_empty [simp]: "decodeUrlsafeBase64 [] = Some []"
  by code_simp

lemma CreateEncryptor_decoded:
  assumes "decodeUrlsafeBase64 s = Some k" "length k = encryptionKeySize"
  shows "CreateEncryptor E s = Inr (Some \<lparr>aead = k\<rparr>)"
proof -
  from assms have "s \<noteq> []" by auto
  with assms show ?thesis by (simp add: CreateEncryptor_def NewPayloadEncryptor_def)
qed

text \<open>The project key is accepted with or without its base64 padding, and only when it is exactly
  32 bytes long; an empty key means no encryption, and every other string is an error rather than a
  fallback to plain text.\<close>

theorem CreateEncryptor_keys:
  "(case CreateEncryptor E s of
      Inr None \<Rightarrow> s = []
    | Inr (Some p) \<Rightarrow> decodeUrlsafeBase64 s = Some (aead p) \<and> length (aead p) = encryptionKeySize
    | Inl e \<Rightarrow> s \<noteq> [] \<and> (\<forall>k. decodeUrlsafeBase64 s = Some k \<longrightarrow> length k \<noteq> encryptionKeySize))
   \<and> (length k = encryptionKeySize \<longrightarrow>
        CreateEncryptor E (encodeUrlsafeBase64 k) = Inr (Some \<lparr>aead = k\<rparr>)
      \<and> CreateEncryptor E (TrimRight (encodeUrlsafeBase64 k) (CHR ''='')) = Inr (Some \<lparr>aead = k\<rparr>))"
proof (intro conjI impI)
  show "case CreateEncryptor E s of
      Inr None \<Rightarrow> s = []
    | Inr (Some p) \<Rightarrow> decodeUrlsafeBase64 s = Some (aead p) \<and> length (aead p) = encryptionKeySize
    | Inl e \<Rightarrow> s \<noteq> [] \<and> (\<forall>k. decodeUrlsafeBase64 s = Some k \<longrightarrow> length k \<noteq> encryptionKeySize)"
    by (auto simp: CreateEncryptor_def NewPayloadEncryptor_def split: option.splits)
  assume k: "length k = encryptionKeySize"
  show "CreateEncryptor E (encodeUrlsafeBase64 k) = Inr (Some \<lparr>aead = k\<rparr>)"
    by (rule CreateEncryptor_decoded [OF base64_decode_encode k])
  have "decodeUrlsafeBase64 (TrimRight (encodeUrlsafeBase64 k) (CHR ''='')) = Some k"
    using base64_decode_encode [of k] by (simp add: decodeUrlsafeBase64_def)
  then show "CreateEncryptor E (TrimRight (encodeUrlsafeBase64 k) (CHR ''='')) = Inr (Some \<lparr>aead = k\<rparr>)"
    by (rule CreateEncryptor_decoded [OF _ k])
qed

theorem CreateEncryptor_keys_witness:
  "CreateEncryptor calm (encodeUrlsafeBase64 (replicate 32 (CHR ''k''))) = Inr (Some \<lparr>aead = replicate 32 (CHR ''k'')\<rparr>)"
  using CreateEncryptor_keys [where E = calm and k = "replicate 32 (CHR ''k'')"] by simp

text \<open>
  What the encryptor relies on: the AEAD opens what it sealed under the same key, nonce and
  associated data, its tag takes 16 bytes, and the entropy source fills the buffer it is given.
\<close>

definition aead_sound :: "env \<Rightarrow> bool" where
  "aead_sound E \<longleftrightarrow> (\<forall>k n p a. aead_Open E k n (aead_Seal E k n p a) a = Some p
     \<and> 16 \<le> length (aead_Seal E k n p a)) \<and> (\<forall>t n bs. entropy E t n = Some bs \<longrightarrow> length bs = n)"

lemma Decrypt_sealed:
  assumes "aead_sound E" "length nonce = encryptionNonceSize"
    "unmarshal_any E plaintext = Some (GMap data)"
  shows "Decrypt E p (encodeUrlsafeBase64 (nonce @ aead_Seal E (aead p) nonce plaintext ad)) ad = Inr data"
  using assms by (simp add: Decrypt_def aead_sound_def base64_decode_encode Let_def not_less)

text \<open>A payload that was encrypted decrypts, under the same key and associated data, to what the
  JSON reader makes of its canonical text.\<close>

theorem encrypt_decrypt:
  assumes "aead_sound E" "Encrypt E p data ad w = (Inr c, w')"
    "unmarshal_any E (canonicalJSON E data) = Some (GMap data')"
  shows "Decrypt E p c ad = Inr data'"
proof -
  from assms(2) obtain nonce where n: "entropy E (tick w) encryptionNonceSize = Some nonce"
    and c: "c = encodeUrlsafeBase64 (nonce @ aead_Seal E (aead p) nonce (canonicalJSON E data) ad)"
    by (auto simp: Encrypt_def split: option.splits)
  have "length nonce = encryptionNonceSize" using assms(1) n by (auto simp: aead_sound_def)
  from Decrypt_sealed [OF assms(1) this assms(3)] show ?thesis by (simp add: c)
qed

lemma calm_aead_sound: "aead_sound calm"
  by (simp add: aead_sound_def calm_def)

theorem encrypt_decrypt_witness:
  "\<exists>c. fst (Encrypt calm \<lparr>aead = ''k''\<rparr> [] ''ad'' start) = Inr c \<and> Decrypt calm \<lparr>aead = ''k''\<rparr> c ''ad'' = Inr []"
proof -
  obtain c w' where e: "Encrypt calm \<lparr>aead = ''k''\<rparr> [] ''ad'' start = (Inr c, w')"
    by (auto simp: Encrypt_def calm_def)
  have "unmarshal_any calm (canonicalJSON calm []) = Some (GMap [])" by (simp add: calm_def)
  from encrypt_decrypt [OF calm_aead_sound e this] e show ?thesis by simp
qed

end
