(* ===== verification/Transport.thy ===== *)
theory Transport
  imports Support Encryption Breaker Limiter Backoff
begin

text \<open>
  transport.go: the sender of batches and status reports. A panic of the HTTP client travels up as an
  \<open>Inl\<close> result carrying the panic value, with every change made before it kept. Operations take and
  return the transport and the world.

  The code has each batch operation twice, for events and for metrics; here it is written once over
  a \<open>batch_kind\<close>, the record of what the two copies differ in, and \<open>sendEvents\<close> and \<open>sendMetrics\<close> are
  its two uses.
\<close>

section \<open>State\<close>

abbreviation eventsPath :: gostring where "eventsPath \<equiv> ''/api/v1/events''"
abbreviation metricsPath :: gostring where "metricsPath \<equiv> ''/api/v1/metrics''"
abbreviation statusPath :: gostring where "statusPath \<equiv> ''/api/v1/status''"
abbreviation encryptedPath :: gostring where "encryptedPath \<equiv> ''/api/v1/events/encrypted''"
abbreviation httpReadLimit :: nat where "httpReadLimit \<equiv> 1048576"

datatype sendOutcome = outcomeAccepted | outcomePartial | outcomePermanent | outcomeFailed

definition outcomeConfirms :: "sendOutcome \<Rightarrow> bool" where
  "outcomeConfirms o' \<longleftrightarrow> o' = outcomeAccepted \<or> o' = outcomePermanent"

record transport =
  t_cfg :: Config
  breaker :: CircuitBreaker
  limiter :: RateLimiter
  t_installID :: gostring
  encryptor :: "PayloadEncryptor option"
  requestsSent :: counter
  requestsFailed :: counter

definition newTransport :: "Config \<Rightarrow> gostring \<Rightarrow> transport" where
  "newTransport cfg installID = \<lparr>t_cfg = cfg, breaker = newCircuitBreaker,
     limiter = newRateLimiter defaultLimiterMaxCalls defaultLimiterWindow, t_installID = installID,
     encryptor = None, requestsSent = 0, requestsFailed = 0\<rparr>"

type_synonym sent = "gostring + (sendOutcome \<times> goerror option)"

definition Version :: gostring where
  "Version = ''3.2.2''"

definition userAgent :: gostring where
  "userAgent = ''guard-agent-go/'' @ Version"

section \<open>Small steps\<close>

definition fireHook :: "transport \<Rightarrow> gostring \<Rightarrow> goerror option \<Rightarrow> (gostring \<times> hook_val) list \<Rightarrow> world \<Rightarrow> world" where
  "fireHook t stage err context w = fireErrorHook (OnError (t_cfg t)) stage err context w"

definition bump_failed :: "transport \<Rightarrow> transport" where
  "bump_failed t = t\<lparr>requestsFailed := requestsFailed t + 1\<rparr>"

definition bump_sent :: "transport \<Rightarrow> transport" where
  "bump_sent t = t\<lparr>requestsSent := requestsSent t + 1\<rparr>"

definition limiterGate :: "env \<Rightarrow> ctx \<Rightarrow> int \<Rightarrow> gostring \<Rightarrow> transport \<Rightarrow> world
    \<Rightarrow> (bool \<times> goerror option) \<times> transport \<times> world" where
  "limiterGate E c attempt what t w =
    (case now E w of (tm, w1) \<Rightarrow> case Acquire tm (limiter t) of (ok, l) \<Rightarrow>
     let t1 = t\<lparr>limiter := l\<rparr> in
     if ok then ((True, None), t1, w1)
     else case now E w1 of (tm2, w2) \<Rightarrow> case sleepCtx E c (RetryAfter tm2 l) w2 of (slept, w3) \<Rightarrow>
       if \<not> slept then (case ctx_Err E c w3 of (e, w4) \<Rightarrow> ((False, e), t1, w4))
       else if attempt \<ge> RetryAttempts (t_cfg t)
       then ((False, Some (Errorf (''guardagent: local rate limit prevented '' @ what))), t1, w3)
       else ((False, None), t1, w3))"

definition willCompress :: "transport \<Rightarrow> nat \<Rightarrow> bool" where
  "willCompress t rawLen \<longleftrightarrow> CompressionEnabled (t_cfg t) \<and> int rawLen \<ge> CompressionThreshold (t_cfg t)"

definition projectIDOrDefault :: "transport \<Rightarrow> gostring" where
  "projectIDOrDefault t = (if ProjectID (t_cfg t) \<noteq> [] then ProjectID (t_cfg t) else ''default'')"

definition truncate :: "gostring \<Rightarrow> nat \<Rightarrow> gostring" where
  "truncate s n = (if length s \<le> n then s else take n s)"

text \<open>The header list of the configuration; nil stands for the defaults.\<close>

definition sensitive :: "Config \<Rightarrow> gostring list" where
  "sensitive cfg = (case SensitiveHeaders cfg of None \<Rightarrow> DefaultSensitiveHeaders | Some hs \<Rightarrow> hs)"

definition marshalBatch :: "env \<Rightarrow> transport \<Rightarrow> eventBatch \<Rightarrow> gostring + gostring" where
  "marshalBatch E t batch0 =
    (let batch = redactBatch E batch0 (sensitive (t_cfg t)) in
     case jsonMarshal E (JBatch batch) of Inl err \<Rightarrow> Inl err
     | Inr raw \<Rightarrow> if willCompress t (length raw)
         then jsonMarshal E (JBatch (batch\<lparr>b_Compressed := True\<rparr>)) else Inr raw)"

definition marshalStatus :: "env \<Rightarrow> agentStatusPayload \<Rightarrow> gostring + gostring" where
  "marshalStatus E payload = jsonMarshal E (JStatus payload)"

text \<open>The gzip writer is one function of the environment, None when \<open>Write\<close> or \<open>Close\<close> fails.\<close>

definition encodeBody :: "env \<Rightarrow> transport \<Rightarrow> gostring \<Rightarrow> gostring \<times> gostring" where
  "encodeBody E t raw =
    (if \<not> willCompress t (length raw) then (raw, [])
     else case gzip E raw of None \<Rightarrow> (raw, []) | Some buf \<Rightarrow> (buf, ''gzip''))"

definition evaluateBatchResponse :: "env \<Rightarrow> gostring \<Rightarrow> sendOutcome \<times> goerror option" where
  "evaluateBatchResponse E body = (case unmarshal_batchResponse E body of
     Inl err \<Rightarrow> (outcomePartial, Some (Wrapf (''guardagent: malformed ingest response: '' @ err) (Errorf err)))
   | Inr r \<Rightarrow> if \<not> r_Success r \<or> length (r_Errors r) > 0 then (outcomePartial, None)
       else (outcomeAccepted, None))"

section \<open>One attempt and the retry loop\<close>

text \<open>\<open>continue\<close>, or \<open>return\<close> with a result.\<close>

datatype 'r step = Again | Return 'r

definition request_headers :: "transport \<Rightarrow> gostring \<Rightarrow> gostring \<Rightarrow> (gostring \<times> gostring) list" where
  "request_headers t contentEncoding signature =
     [(''Content-Type'', ''application/json'')]
   @ (if contentEncoding \<noteq> [] then [(''Content-Encoding'', contentEncoding)] else [])
   @ (if signature \<noteq> [] then [(signatureHeader, signature)] else [])
   @ [(''User-Agent'', userAgent), (''X-API-Key'', APIKey (t_cfg t)),
      (''X-Agent-Install-Id'', t_installID t)]
   @ (if ProjectID (t_cfg t) \<noteq> [] then [(''X-Project-Id'', ProjectID (t_cfg t))] else [])"

definition client_Do :: "env \<Rightarrow> http_request \<Rightarrow> world \<Rightarrow> http_result \<times> world" where
  "client_Do E rq w = (let r = http_Do E (tick w) rq in
     (r, (observe E w)\<lparr>http_trace := http_trace w @ [(rq, r)]\<rparr>))"

definition breaker_Failure :: "env \<Rightarrow> transport \<Rightarrow> world \<Rightarrow> transport \<times> world" where
  "breaker_Failure E t w = (case now E w of (tm, w1) \<Rightarrow> (t\<lparr>breaker := Failure tm (breaker t)\<rparr>, w1))"

text \<open>\<open>attempt < RetryAttempts && sleepCtx(ctx, delay)\<close>: go round again, or return.\<close>

definition retry_or :: "env \<Rightarrow> ctx \<Rightarrow> int \<Rightarrow> duration \<Rightarrow> 'r \<Rightarrow> transport \<Rightarrow> world
    \<Rightarrow> 'r step \<times> transport \<times> world" where
  "retry_or E c attempt delay r t w =
    (if attempt < RetryAttempts (t_cfg t)
     then (case sleepCtx E c delay w of (slept, w1) \<Rightarrow> (if slept then Again else Return r, t, w1))
     else (Return r, t, w))"

definition backoff :: "env \<Rightarrow> transport \<Rightarrow> int \<Rightarrow> duration" where
  "backoff E t attempt = retryBackoff (conv E) attempt (BackoffFactor (t_cfg t))"

text \<open>The errors of the statuses that carry no type of their own.\<close>

definition server_error :: "int \<Rightarrow> gostring \<Rightarrow> goerror" where
  "server_error status body = Errorf (''guardagent: server error '' @ Itoa status @ '': '' @ truncate body 200)"

definition auth_error :: "int \<Rightarrow> goerror" where
  "auth_error status = Errorf (''guardagent: authentication failed with status '' @ Itoa status)"

definition unexpected_status :: "int \<Rightarrow> goerror" where
  "unexpected_status status = Errorf (''guardagent: unexpected status '' @ Itoa status)"

lemma status_errors [simp]:
  "as_tooLarge (server_error status body) = None" "as_tooLarge (auth_error status) = None"
  "as_tooLarge (unexpected_status status) = None"
  by (simp_all add: server_error_def auth_error_def unexpected_status_def)

text \<open>What the loop body does with an answer to its request.\<close>

definition on_response :: "env \<Rightarrow> ctx \<Rightarrow> bool \<Rightarrow> int \<Rightarrow> int \<Rightarrow> gostring \<Rightarrow> gostring \<Rightarrow> transport \<Rightarrow> world
    \<Rightarrow> sent step \<times> transport \<times> world" where
  "on_response E c evaluate attempt status retryAfter body0 t w =
    (let body = take httpReadLimit body0 in
     if status = 200 \<or> status = 201 then
       let t1 = bump_sent (t\<lparr>breaker := Success (breaker t)\<rparr>) in
       if \<not> evaluate \<or> status = 201 then (Return (Inr (outcomeAccepted, None)), t1, w)
       else (Return (Inr (evaluateBatchResponse E body)), t1, w)
     else if status = 429 then
       (case breaker_Failure E t w of (t1, w1) \<Rightarrow>
         let delay = parseRetryAfter (conv E) retryAfter in
         retry_or E c attempt delay (Inr (outcomeFailed, Some (RateLimitedError delay))) (bump_failed t1) w1)
     else if status = 413 then
       (Return (Inr (outcomeFailed, Some (payloadTooLargeError (truncate body 200)))), t, w)
     else if status = 400 \<or> status = 404 \<or> status = 422 then
       (Return (Inr (outcomePermanent, Some (PermanentError status (truncate body 200)))), t, w)
     else if status \<ge> 500 then
       (case breaker_Failure E t w of (t1, w1) \<Rightarrow>
         retry_or E c attempt (backoff E t attempt) (Inr (outcomeFailed, Some (server_error status body)))
           (bump_failed t1) w1)
     else if status = 401 \<or> status = 403 then
       (case breaker_Failure E t w of (t1, w1) \<Rightarrow>
         retry_or E c attempt (backoff E t attempt) (Inr (outcomeFailed, Some (auth_error status)))
           (bump_failed t1) w1)
     else (Return (Inr (outcomePartial, Some (unexpected_status status))),
           t\<lparr>breaker := Success (breaker t)\<rparr>, w))"

text \<open>The request an attempt makes: every attempt of a batch sends the same one.\<close>

definition the_request :: "gostring \<Rightarrow> gostring \<Rightarrow> gostring \<Rightarrow> gostring \<Rightarrow> transport \<Rightarrow> http_request" where
  "the_request path wire contentEncoding signature t =
     \<lparr>rq_method = ''POST'', rq_url = Endpoint (t_cfg t) @ path,
      rq_headers = request_headers t contentEncoding signature, rq_body = wire\<rparr>"

text \<open>From the answer of \<open>client.Do\<close> on.\<close>

definition after_request :: "env \<Rightarrow> ctx \<Rightarrow> bool \<Rightarrow> int \<Rightarrow> transport \<Rightarrow> http_result \<Rightarrow> world
    \<Rightarrow> sent step \<times> transport \<times> world" where
  "after_request E c evaluate attempt t2 a w3 = (case a of
       NetPanic v \<Rightarrow> (Return (Inl v), t2, w3)
     | NetErr err \<Rightarrow>
         (case breaker_Failure E t2 w3 of (t3, w4) \<Rightarrow>
          let t4 = bump_failed t3 in
          case ctx_Err E c w4 of
            (Some e, w5) \<Rightarrow> (Return (Inr (outcomeFailed, Some e)), t4, w5)
          | (None, w5) \<Rightarrow> retry_or E c attempt (backoff E t4 attempt)
              (Inr (outcomeFailed, Some (Errorf err))) t4 w5)
     | Resp status retryAfter body \<Rightarrow> on_response E c evaluate attempt status retryAfter body t2 w3)"

text \<open>The body of the loop of \<open>sendBatch\<close>.\<close>

definition sendAttempt :: "env \<Rightarrow> ctx \<Rightarrow> gostring \<Rightarrow> bool \<Rightarrow> gostring \<Rightarrow> gostring \<Rightarrow> gostring \<Rightarrow> int
    \<Rightarrow> transport \<Rightarrow> world \<Rightarrow> sent step \<times> transport \<times> world" where
  "sendAttempt E c path evaluate wire contentEncoding signature attempt t w =
    (case limiterGate E c attempt ''batch send'' t w of ((allowed, gateErr), t1, w1) \<Rightarrow>
     if \<not> allowed then (case gateErr of Some e \<Rightarrow> (Return (Inr (outcomeFailed, Some e)), t1, w1)
       | None \<Rightarrow> (Again, t1, w1))
     else case now E w1 of (tm, w2) \<Rightarrow> case Admit tm (breaker t1) of
       (Some err, cb) \<Rightarrow> (Return (Inr (outcomeFailed, Some err)), t1\<lparr>breaker := cb\<rparr>, w2)
     | (None, cb) \<Rightarrow>
       let t2 = t1\<lparr>breaker := cb\<rparr>; url = Endpoint (t_cfg t2) @ path in
       case NewRequest_err E url of
         Some err \<Rightarrow> (Return (Inr (outcomeFailed, Some (Errorf err))), bump_failed t2, w2)
       | None \<Rightarrow>
         case client_Do E (the_request path wire contentEncoding signature t2) w2 of
           (a, w3) \<Rightarrow> after_request E c evaluate attempt t2 a w3)"

section \<open>What one attempt can do\<close>

text \<open>
  The verdict of an answer, as a specification: what \<open>sendBatch\<close> reports when it stops at it.
\<close>

fun verdict :: "env \<Rightarrow> bool \<Rightarrow> http_result \<Rightarrow> sendOutcome" where
  "verdict E evaluate (Resp status ra body) =
    (if status = 201 \<or> status = 200 \<and> \<not> evaluate then outcomeAccepted
     else if status = 200 then fst (evaluateBatchResponse E (take httpReadLimit body))
     else if status \<in> {400, 404, 422} then outcomePermanent
     else if status \<in> {401, 403, 413, 429} \<or> status \<ge> 500 then outcomeFailed
     else outcomePartial)"
| "verdict E evaluate _ = outcomeFailed"

text \<open>The answers after which the loop may go round again.\<close>

fun retryable :: "http_result \<Rightarrow> bool" where
  "retryable (Resp status ra body) \<longleftrightarrow> status \<in> {401, 403, 429} \<or> status \<ge> 500"
| "retryable (NetErr e) \<longleftrightarrow> True"
| "retryable (NetPanic v) \<longleftrightarrow> False"

fun is_413 :: "http_result \<Rightarrow> bool" where
  "is_413 (Resp status ra body) \<longleftrightarrow> status = 413"
| "is_413 _ \<longleftrightarrow> False"

fun is_panic :: "http_result \<Rightarrow> bool" where
  "is_panic (NetPanic v) \<longleftrightarrow> True"
| "is_panic _ \<longleftrightarrow> False"

text \<open>A transport keeps its configuration, identity and encryptor.\<close>

definition same_transport :: "transport \<Rightarrow> transport \<Rightarrow> bool" where
  "same_transport t t' \<longleftrightarrow> t_cfg t' = t_cfg t \<and> t_installID t' = t_installID t \<and> encryptor t' = encryptor t"

lemma same_transport_refl [simp, intro]: "same_transport t t"
  by (simp add: same_transport_def)

lemma same_transport_trans [trans]: "same_transport t u \<Longrightarrow> same_transport u v \<Longrightarrow> same_transport t v"
  by (simp add: same_transport_def)

lemma same_transport_upd [simp]:
  "same_transport t (bump_failed t') = same_transport t t'"
  "same_transport t (bump_sent t') = same_transport t t'"
  "same_transport t (t'\<lparr>breaker := cb\<rparr>) = same_transport t t'"
  "same_transport t (t'\<lparr>limiter := l\<rparr>) = same_transport t t'"
  by (simp_all add: same_transport_def bump_failed_def bump_sent_def)

lemma same_transport_request: "same_transport t t' \<Longrightarrow>
  the_request path wire ce sg t' = the_request path wire ce sg t"
  by (simp add: same_transport_def the_request_def request_headers_def)

text \<open>The result of a step of the transport: its answer, and what it left alone.\<close>

definition quiet :: "transport \<Rightarrow> world \<Rightarrow> transport \<Rightarrow> world \<Rightarrow> bool" where
  "quiet t w t' w' \<longleftrightarrow> same_transport t t' \<and> http_trace w' = http_trace w
     \<and> hook_trace w' = hook_trace w \<and> redis_trace w' = redis_trace w \<and> later w w'"

lemma quiet_refl [simp, intro]: "quiet t w t w"
  by (simp add: quiet_def)

lemma quiet_trans [trans]: "quiet t u t' v \<Longrightarrow> quiet t' v t'' w \<Longrightarrow> quiet t u t'' w"
  by (auto simp: quiet_def intro: same_transport_trans later_trans)

lemma now_quiet: "now E w = (tm, w') \<Longrightarrow> quiet t w t w'"
  using now_traces [of E w] later_steps(2) [of w E] by (simp add: quiet_def)

lemma ctx_Err_quiet: "ctx_Err E c w = (e, w') \<Longrightarrow> quiet t w t w'"
  using ctx_Err_traces [of E c w] later_steps(3) [of w E c] by (simp add: quiet_def)

lemma sleepCtx_quiet: "sleepCtx E c d w = (b, w') \<Longrightarrow> quiet t w t w'"
  using sleepCtx_traces [of E c d w] later_steps(4) [of w E c d] by (simp add: quiet_def)

lemma quiet_upd [simp]:
  "quiet t w (bump_failed t') w' = quiet t w t' w'"
  "quiet t w (bump_sent t') w' = quiet t w t' w'"
  "quiet t w (t'\<lparr>breaker := cb\<rparr>) w' = quiet t w t' w'"
  "quiet t w (t'\<lparr>limiter := l\<rparr>) w' = quiet t w t' w'"
  by (simp_all add: quiet_def)

lemma limiterGate_quiet:
  assumes "limiterGate E c attempt what t w = (r, t', w')"
  shows "quiet t w t' w'"
proof -
  obtain tm w1 where n: "now E w = (tm, w1)" by fastforce
  obtain ok l where a: "Acquire tm (limiter t) = (ok, l)" by fastforce
  obtain tm2 w2 where n2: "now E w1 = (tm2, w2)" by fastforce
  obtain slept w3 where s: "sleepCtx E c (RetryAfter tm2 l) w2 = (slept, w3)" by fastforce
  have q1: "quiet t w t w1" by (rule now_quiet [OF n])
  also have q2: "quiet t w1 t w2" by (rule now_quiet [OF n2])
  also have q3: "quiet t w2 t w3" by (rule sleepCtx_quiet [OF s])
  finally have q: "quiet t w t w3" .
  then have "quiet t w t (snd (ctx_Err E c w3))"
    using ctx_Err_quiet [of E c w3] by (metis prod.collapse quiet_trans)
  with q q1 assms show ?thesis
    by (auto simp: limiterGate_def n a n2 s Let_def split: if_splits prod.splits)
qed

text \<open>When the gate sends the loop round again, there are attempts left.\<close>

lemma limiterGate_again:
  assumes "limiterGate E c attempt what t w = ((False, None), t', w')"
  shows "attempt < RetryAttempts (t_cfg t)"
proof -
  obtain tm w1 where n: "now E w = (tm, w1)" by fastforce
  obtain ok l where a: "Acquire tm (limiter t) = (ok, l)" by fastforce
  obtain tm2 w2 where n2: "now E w1 = (tm2, w2)" by fastforce
  obtain slept w3 where s: "sleepCtx E c (RetryAfter tm2 l) w2 = (slept, w3)" by fastforce
  have "fst (ctx_Err E c w3) \<noteq> None" if "\<not> slept"
    using sleepCtx_False_done [of E c _ w2 w3] s that
    by (auto simp: ctx_Err_def Let_def ctx_done_later [of c w3 "observe E w3"])
  then show ?thesis
    using assms by (auto simp: limiterGate_def n a n2 s Let_def split: if_splits prod.splits)
qed

lemma breaker_Failure_quiet: "breaker_Failure E t w = (t', w') \<Longrightarrow> quiet t w t' w'"
  by (auto simp: breaker_Failure_def split: prod.splits dest: now_quiet [of E w _ _ t])

lemma retry_or_cases:
  assumes "retry_or E c attempt d r t w = (x, t', w')"
  shows "quiet t w t' w' \<and> t' = t \<and> (x = Return r \<or> x = Again \<and> attempt < RetryAttempts (t_cfg t))"
  using assms sleepCtx_quiet [of E c d w _ w' t]
  by (auto simp: retry_or_def split: if_splits prod.splits)

lemma limiterGate_error:
  assumes "limiterGate E c attempt what t w = ((b, Some e), t', w')"
  shows "\<not> b \<and> as_tooLarge e = None"
  using assms by (auto simp: limiterGate_def Let_def ctx_Err_def split: if_splits prod.splits)

lemma limiterGate_allowed:
  assumes "limiterGate E c attempt what t w = ((True, e), t', w')"
  shows "e = None"
  using assms by (auto simp: limiterGate_def Let_def split: if_splits prod.splits)

text \<open>The result an attempt returns for an answer.\<close>

fun answer_result :: "env \<Rightarrow> bool \<Rightarrow> http_result \<Rightarrow> sent \<Rightarrow> bool" where
  "answer_result E evaluate (NetPanic v) r \<longleftrightarrow> r = Inl v"
| "answer_result E evaluate a r \<longleftrightarrow>
     (\<exists>err. r = Inr (verdict E evaluate a, err) \<and> (err_tooLarge err \<longleftrightarrow> is_413 a))"

text \<open>
  An attempt after the request: nothing more goes out, and either the loop goes round again, which
  it may on the answers of \<open>ag\<close>, or the result is what \<open>res\<close> says of the answer. Both retry loops of
  the agent have this shape.
\<close>

definition settled :: "(http_result \<Rightarrow> bool) \<Rightarrow> (http_result \<Rightarrow> 'r \<Rightarrow> bool) \<Rightarrow> int \<Rightarrow> http_result
    \<Rightarrow> transport \<Rightarrow> world \<Rightarrow> 'r step \<Rightarrow> transport \<Rightarrow> world \<Rightarrow> bool" where
  "settled ag res attempt a t w x t' w' \<longleftrightarrow> quiet t w t' w'
     \<and> (x = Again \<and> attempt < RetryAttempts (t_cfg t) \<and> ag a \<or> (\<exists>r. x = Return r \<and> res a r))"

lemma retry_or_settled:
  assumes "retry_or E c attempt d r t1 w1 = (x, t', w')" "quiet t w t1 w1" "ag a" "res a r"
  shows "settled ag res attempt a t w x t' w'"
proof -
  from retry_or_cases [OF assms(1)] have "quiet t1 w1 t' w'"
    and "x = Return r \<or> x = Again \<and> attempt < RetryAttempts (t_cfg t1)" by auto
  moreover have "t_cfg t1 = t_cfg t" using assms(2) by (simp add: quiet_def same_transport_def)
  ultimately show ?thesis using assms by (auto simp: settled_def intro: quiet_trans)
qed

lemma evaluateBatchResponse_error: "\<not> err_tooLarge (snd (evaluateBatchResponse E body))"
  by (simp add: evaluateBatchResponse_def split: sum.splits)

lemma on_response_settled:
  assumes "on_response E c evaluate attempt status ra body t w = (x, t', w')"
  shows "settled retryable (answer_result E evaluate) attempt (Resp status ra body) t w x t' w'"
proof -
  obtain t1 w1 where f: "breaker_Failure E t w = (t1, w1)" by fastforce
  have q: "quiet t w (bump_failed t1) w1" using breaker_Failure_quiet [OF f] by simp
  have ev: "answer_result E evaluate (Resp status ra body)
      (Inr (evaluateBatchResponse E (take httpReadLimit body)))" if "status = 200" "evaluate"
    using that evaluateBatchResponse_error [of E "take httpReadLimit body"]
    by (auto intro!: exI [of _ "snd (evaluateBatchResponse E (take httpReadLimit body))"])
  consider "status = 200 \<or> status = 201" | "status = 429" | "status = 413"
    | "status \<in> {400, 404, 422}" | "status \<ge> 500" | "status \<in> {401, 403}"
    | "status \<notin> {200, 201, 429, 413, 400, 404, 422, 401, 403}" "status < 500" by force
  then show ?thesis
  proof cases
    case 1
    show ?thesis
    proof (cases "\<not> evaluate \<or> status = 201")
      case True
      with 1 have "x = Return (Inr (outcomeAccepted, None))" "t' = bump_sent (t\<lparr>breaker := Success (breaker t)\<rparr>)" "w' = w"
        using assms by (simp_all add: on_response_def Let_def)
      with True 1 show ?thesis by (auto simp: settled_def)
    next
      case False
      with 1 have "x = Return (Inr (evaluateBatchResponse E (take httpReadLimit body)))"
        "t' = bump_sent (t\<lparr>breaker := Success (breaker t)\<rparr>)" "w' = w"
        using assms by (simp_all add: on_response_def Let_def)
      with False 1 ev show ?thesis by (simp add: settled_def)
    qed
  next
    case 2
    then have "retry_or E c attempt (parseRetryAfter (conv E) ra) (Inr (outcomeFailed,
        Some (RateLimitedError (parseRetryAfter (conv E) ra)))) (bump_failed t1) w1 = (x, t', w')"
      using assms by (simp add: on_response_def f Let_def)
    from retry_or_settled [OF this q, of retryable "Resp status ra body" "answer_result E evaluate"] 2 show ?thesis by auto
  next
    case 3
    then show ?thesis using assms by (auto simp: on_response_def Let_def settled_def)
  next
    case 4
    then show ?thesis using assms by (auto simp: on_response_def Let_def settled_def)
  next
    case 5
    then have "retry_or E c attempt (backoff E t attempt) (Inr (outcomeFailed, Some (server_error status (take httpReadLimit body))))
        (bump_failed t1) w1 = (x, t', w')"
      using assms by (auto simp: on_response_def f Let_def)
    from retry_or_settled [OF this q, of retryable "Resp status ra body" "answer_result E evaluate"] 5 show ?thesis by auto
  next
    case 6
    then have "retry_or E c attempt (backoff E t attempt) (Inr (outcomeFailed, Some (auth_error status))) (bump_failed t1) w1 = (x, t', w')"
      using assms by (auto simp: on_response_def f Let_def)
    from retry_or_settled [OF this q, of retryable "Resp status ra body" "answer_result E evaluate"] 6 show ?thesis by auto
  next
    case 7
    then have "x = Return (Inr (outcomePartial, Some (unexpected_status status)))"
      "t' = t\<lparr>breaker := Success (breaker t)\<rparr>" "w' = w"
      using assms by (auto simp: on_response_def Let_def)
    with 7 show ?thesis by (simp add: settled_def)
  qed
qed

text \<open>
  An attempt makes one request or none; without one it waited for the limiter and goes round again,
  or it gives up before sending.
\<close>

definition attempted :: "(http_result \<Rightarrow> bool) \<Rightarrow> (http_result \<Rightarrow> 'r \<Rightarrow> bool) \<Rightarrow> ('r \<Rightarrow> bool) \<Rightarrow> int
    \<Rightarrow> http_request \<Rightarrow> transport \<Rightarrow> world \<Rightarrow> 'r step \<Rightarrow> transport \<Rightarrow> world \<Rightarrow> bool" where
  "attempted ag res gu attempt rq t w x t' w' \<longleftrightarrow>
     same_transport t t' \<and> later w w' \<and> hook_trace w' = hook_trace w \<and> redis_trace w' = redis_trace w
     \<and> (http_trace w' = http_trace w
          \<and> (x = Again \<and> attempt < RetryAttempts (t_cfg t) \<or> (\<exists>r. x = Return r \<and> gu r))
        \<or> (\<exists>a. http_trace w' = http_trace w @ [(rq, a)]
          \<and> (x = Again \<and> attempt < RetryAttempts (t_cfg t) \<and> ag a \<or> (\<exists>r. x = Return r \<and> res a r))))"

lemma attempted_settled:
  assumes "quiet t w t2 w2" "client_Do E rq w2 = (a, w3)" "settled ag res attempt a t2 w3 x t' w'"
  shows "attempted ag res gu attempt rq t w x t' w'"
proof -
  have w3: "http_trace w3 = http_trace w @ [(rq, a)]" "hook_trace w3 = hook_trace w"
    "redis_trace w3 = redis_trace w" "later w2 w3"
    using assms(1,2) by (auto simp: client_Do_def Let_def quiet_def later_def)
  have "t_cfg t2 = t_cfg t" using assms(1) by (simp add: quiet_def same_transport_def)
  then show ?thesis
    using assms(1,3) w3 by (auto simp: attempted_def settled_def quiet_def intro: later_trans same_transport_trans)
qed

lemma attempted_quiet:
  assumes "quiet t w t' w'" "x = Again \<and> attempt < RetryAttempts (t_cfg t) \<or> (\<exists>r. x = Return r \<and> gu r)"
  shows "attempted ag res gu attempt rq t w x t' w'"
  using assms by (auto simp: attempted_def quiet_def)

text \<open>A loop of attempts, and what every such loop does.\<close>

locale retry_loop =
  fixes step :: "int \<Rightarrow> transport \<Rightarrow> world \<Rightarrow> 'r step \<times> transport \<times> world"
    and loop :: "int \<Rightarrow> transport \<Rightarrow> world \<Rightarrow> 'r \<times> transport \<times> world"
    and rq :: "transport \<Rightarrow> http_request"
    and ag :: "http_result \<Rightarrow> bool"
    and res :: "http_result \<Rightarrow> 'r \<Rightarrow> bool"
    and gu :: "'r \<Rightarrow> bool"
  assumes loop_eq: "loop k t w = (case step k t w of
      (Return r, t', w') \<Rightarrow> (r, t', w') | (Again, t', w') \<Rightarrow> loop (k + 1) t' w')"
    and step_attempted: "step k t w = (x, t', w') \<Longrightarrow> attempted ag res gu k (rq t) t w x t' w'"
    and rq_same: "same_transport t t' \<Longrightarrow> rq t' = rq t"
begin

text \<open>
  The loop ends; it makes at most one request more than the retries left, always the same one; and it
  stops with the result of its last answer, or gives up without sending.
\<close>

definition loop_done :: "int \<Rightarrow> transport \<Rightarrow> world \<Rightarrow> 'r \<Rightarrow> transport \<Rightarrow> world \<Rightarrow> bool" where
  "loop_done k t w r t' w' \<longleftrightarrow> same_transport t t' \<and> later w w' \<and> hook_trace w' = hook_trace w
     \<and> redis_trace w' = redis_trace w
     \<and> (\<exists>as. http_trace w' = http_trace w @ map (Pair (rq t)) as
          \<and> int (length as) \<le> max 0 (RetryAttempts (t_cfg t) - k) + 1
          \<and> (list_all ag as \<and> gu r \<or> as \<noteq> [] \<and> list_all ag (butlast as) \<and> res (last as) r))"

lemma loop_done_Return:
  assumes "attempted ag res gu k (rq t) t w (Return r) t' w'"
  shows "loop_done k t w r t' w'"
proof -
  from assms have base: "same_transport t t'" "later w w'" "hook_trace w' = hook_trace w"
    "redis_trace w' = redis_trace w" by (simp_all add: attempted_def)
  from assms consider "http_trace w' = http_trace w" "gu r"
    | a where "http_trace w' = http_trace w @ [(rq t, a)]" "res a r"
    by (auto simp: attempted_def)
  then show ?thesis
  proof cases
    case 1
    with base show ?thesis unfolding loop_done_def by (intro conjI exI [of _ "[]"]) auto
  next
    case (2 a)
    with base show ?thesis unfolding loop_done_def by (intro conjI exI [of _ "[a]"]) auto
  qed
qed

lemma loop_done_Again:
  assumes "attempted ag res gu k (rq t) t w Again t1 w1" "loop_done (k + 1) t1 w1 r t' w'"
  shows "loop_done k t w r t' w'"
proof -
  from assms(1) have b: "same_transport t t1" "later w w1" "hook_trace w1 = hook_trace w"
    "redis_trace w1 = redis_trace w" "k < RetryAttempts (t_cfg t)" by (auto simp: attempted_def)
  have eq: "rq t1 = rq t" using b(1) by (rule rq_same)
  have cfg: "t_cfg t1 = t_cfg t" using b(1) by (simp add: same_transport_def)
  from assms(2) obtain as where as: "http_trace w' = http_trace w1 @ map (Pair (rq t)) as"
      "int (length as) \<le> max 0 (RetryAttempts (t_cfg t) - (k + 1)) + 1"
      "list_all ag as \<and> gu r \<or> as \<noteq> [] \<and> list_all ag (butlast as) \<and> res (last as) r"
    and d: "same_transport t t'" "later w w'" "hook_trace w' = hook_trace w" "redis_trace w' = redis_trace w"
    using b(1-4) unfolding loop_done_def eq cfg by (auto intro: same_transport_trans later_trans)
  from assms(1) obtain pre where pre: "http_trace w1 = http_trace w @ map (Pair (rq t)) pre"
      "list_all ag pre" "length pre \<le> 1"
  proof (cases "http_trace w1 = http_trace w")
    case True
    then show ?thesis using that [of "[]"] by simp
  next
    case False
    then obtain a where "http_trace w1 = http_trace w @ [(rq t, a)]" "ag a"
      using assms(1) by (auto simp: attempted_def)
    then show ?thesis using that [of "[a]"] by simp
  qed
  have "int (length (pre @ as)) \<le> max 0 (RetryAttempts (t_cfg t) - k) + 1" using as(2) pre(3) b(5) by simp
  with as pre d show ?thesis unfolding loop_done_def
    by (intro conjI exI [of _ "pre @ as"]) (auto simp: butlast_append)
qed

lemma loop_done: "loop k t w = (r, t', w') \<Longrightarrow> loop_done k t w r t' w'"
proof (induction "nat (RetryAttempts (t_cfg t) - k)" arbitrary: k t w rule: less_induct)
  case less
  obtain x t1 w1 where s: "step k t w = (x, t1, w1)" by (cases "step k t w") auto
  note at = step_attempted [OF s]
  show ?case
  proof (cases x)
    case (Return r')
    with less.prems s have "r' = r" "t1 = t'" "w1 = w'" by (simp_all add: loop_eq [of k t w])
    with at Return show ?thesis by (simp add: loop_done_Return)
  next
    case Again
    then have "k < RetryAttempts (t_cfg t)" "t_cfg t1 = t_cfg t"
      using at by (auto simp: attempted_def same_transport_def)
    moreover have "loop (k + 1) t1 w1 = (r, t', w')" using less.prems s Again by (simp add: loop_eq [of k t w])
    ultimately have "loop_done (k + 1) t1 w1 r t' w'" using less.hyps [of t1 "k + 1" w1] by simp
    with at Again show ?thesis by (simp add: loop_done_Again)
  qed
qed

end

lemma after_request_settled:
  assumes "after_request E c evaluate attempt t a w = (x, t', w')"
  shows "settled retryable (answer_result E evaluate) attempt a t w x t' w'"
proof (cases a)
  case (Resp status ra body)
  with assms show ?thesis by (simp add: after_request_def on_response_settled)
next
  case (NetPanic v)
  with assms show ?thesis by (auto simp: after_request_def settled_def)
next
  case (NetErr err)
  obtain t3 w4 where f: "breaker_Failure E t w = (t3, w4)" by fastforce
  obtain e w5 where x: "ctx_Err E c w4 = (e, w5)" by fastforce
  have q: "quiet t w (bump_failed t3) w5"
    using quiet_trans [OF breaker_Failure_quiet [OF f] ctx_Err_quiet [OF x]] by simp
  show ?thesis
  proof (cases e)
    case None
    then have "retry_or E c attempt (backoff E (bump_failed t3) attempt)
        (Inr (outcomeFailed, Some (Errorf err))) (bump_failed t3) w5 = (x, t', w')"
      using assms NetErr by (simp add: after_request_def f x Let_def)
    from retry_or_settled [OF this q, of retryable a "answer_result E evaluate"] show ?thesis by (simp add: NetErr)
  next
    case (Some e')
    moreover have "as_tooLarge e' = None" using x Some by (auto simp: ctx_Err_def Let_def split: if_splits)
    ultimately show ?thesis using assms NetErr q
      by (auto simp: after_request_def f x Let_def settled_def)
  qed
qed

text \<open>Giving up before a request was made: the gate, the breaker, or a request that cannot be built.\<close>

definition failed_early :: "sent \<Rightarrow> bool" where
  "failed_early r \<longleftrightarrow> (\<exists>e. r = Inr (outcomeFailed, Some e) \<and> as_tooLarge e = None)"

lemma sendAttempt_attempted:
  assumes "sendAttempt E c path evaluate wire ce sg attempt t w = (x, t', w')"
  shows "attempted retryable (answer_result E evaluate) failed_early attempt (the_request path wire ce sg t) t w x t' w'"
proof -
  obtain allowed gateErr t1 w1 where g: "limiterGate E c attempt ''batch send'' t w = ((allowed, gateErr), t1, w1)"
    by (metis prod.collapse)
  have q1: "quiet t w t1 w1" by (rule limiterGate_quiet [OF g])
  show ?thesis
  proof (cases allowed)
    case False
    show ?thesis
    proof (cases gateErr)
      case None
      with False g have "attempt < RetryAttempts (t_cfg t)" by (simp add: limiterGate_again)
      then show ?thesis using assms False None q1 by (auto simp: sendAttempt_def g failed_early_def intro: attempted_quiet)
    next
      case (Some e)
      then have "as_tooLarge e = None" using limiterGate_error g by blast
      then show ?thesis using assms False Some q1 by (auto simp: sendAttempt_def g failed_early_def intro: attempted_quiet)
    qed
  next
    case True
    obtain tm w2 where n: "now E w1 = (tm, w2)" by fastforce
    obtain adm cb where a: "Admit tm (breaker t1) = (adm, cb)" by fastforce
    define t2 where "t2 = t1\<lparr>breaker := cb\<rparr>"
    have q2: "quiet t w t2 w2" using quiet_trans [OF q1 now_quiet [OF n]] by (simp add: t2_def)
    have rq: "the_request path wire ce sg t2 = the_request path wire ce sg t"
      using q2 by (simp add: quiet_def same_transport_request)
    show ?thesis
    proof (cases adm)
      case (Some err)
      then have "err = ErrCircuitOpen" using a by (auto simp: Admit_def split: circuitState.splits if_splits)
      then show ?thesis using assms True Some q2
        by (auto simp: sendAttempt_def g n a t2_def failed_early_def intro: attempted_quiet)
    next
      case None
      show ?thesis
      proof (cases "NewRequest_err E (Endpoint (t_cfg t2) @ path)")
        case (Some err)
        then show ?thesis using assms True None q2
          by (auto simp: sendAttempt_def g n a t2_def Let_def failed_early_def intro!: attempted_quiet)
      next
        case ok: None
        obtain ans w3 where d: "client_Do E (the_request path wire ce sg t2) w2 = (ans, w3)" by fastforce
        have "sendAttempt E c path evaluate wire ce sg attempt t w = after_request E c evaluate attempt t2 ans w3"
          using True None ok d by (simp add: sendAttempt_def g n a t2_def Let_def)
        with assms have "settled retryable (answer_result E evaluate) attempt ans t2 w3 x t' w'" by (simp add: after_request_settled)
        from attempted_settled [OF q2 d this] show ?thesis by (simp add: rq)
      qed
    qed
  qed
qed

section \<open>The loop\<close>

function sendLoop :: "env \<Rightarrow> ctx \<Rightarrow> gostring \<Rightarrow> bool \<Rightarrow> gostring \<Rightarrow> gostring \<Rightarrow> gostring \<Rightarrow> int
    \<Rightarrow> transport \<Rightarrow> world \<Rightarrow> sent \<times> transport \<times> world" where
  "sendLoop E c path evaluate wire ce sg attempt t w =
    (case sendAttempt E c path evaluate wire ce sg attempt t w of
       (Return r, t', w') \<Rightarrow> (r, t', w')
     | (Again, t', w') \<Rightarrow> sendLoop E c path evaluate wire ce sg (attempt + 1) t' w')"
  by pat_completeness auto
termination
proof (relation "measure (\<lambda>(E, c, path, evaluate, wire, ce, sg, attempt, t, w).
    nat (RetryAttempts (t_cfg t) - attempt))", goal_cases)
  case (2 E c path evaluate wire ce sg attempt t w x y t' w')
  then have "attempted retryable (answer_result E evaluate) failed_early attempt
      (the_request path wire ce sg t) t w Again t' w'"
    by (metis sendAttempt_attempted)
  then show ?case by (auto simp: attempted_def same_transport_def)
qed simp

declare sendLoop.simps [simp del]

definition sendBatch :: "env \<Rightarrow> ctx \<Rightarrow> gostring \<Rightarrow> gostring \<Rightarrow> bool \<Rightarrow> transport \<Rightarrow> world
    \<Rightarrow> sent \<times> transport \<times> world" where
  "sendBatch E c path raw evaluate t w =
    (case encodeBody E t raw of (wire, contentEncoding) \<Rightarrow>
     let signature = (if SigningSecret (t_cfg t) \<noteq> [] then signPayload E raw (SigningSecret (t_cfg t)) else []) in
     sendLoop E c path evaluate wire contentEncoding signature 0 t w)"

interpretation send: retry_loop "sendAttempt E c path evaluate wire ce sg" "sendLoop E c path evaluate wire ce sg"
    "the_request path wire ce sg" retryable "answer_result E evaluate" failed_early
  for E c path evaluate wire ce sg
proof
  show "sendLoop E c path evaluate wire ce sg k t w = (case sendAttempt E c path evaluate wire ce sg k t w of
      (Return r, t', w') \<Rightarrow> (r, t', w') | (Again, t', w') \<Rightarrow> sendLoop E c path evaluate wire ce sg (k + 1) t' w')"
    for k t w
    by (rule sendLoop.simps)
qed (simp_all add: sendAttempt_attempted same_transport_request)

section \<open>What sending a batch does\<close>

text \<open>The one request all attempts of a batch make.\<close>

definition batch_request :: "env \<Rightarrow> transport \<Rightarrow> gostring \<Rightarrow> gostring \<Rightarrow> http_request" where
  "batch_request E t path raw = the_request path (fst (encodeBody E t raw)) (snd (encodeBody E t raw))
     (if SigningSecret (t_cfg t) \<noteq> [] then signPayload E raw (SigningSecret (t_cfg t)) else []) t"

lemma batch_request_same: "same_transport t t' \<Longrightarrow> batch_request E t' path raw = batch_request E t path raw"
  by (simp add: batch_request_def same_transport_def the_request_def request_headers_def encodeBody_def
      willCompress_def)

text \<open>The requests a step of the transport added, all answered.\<close>

definition batch_done :: "env \<Rightarrow> gostring \<Rightarrow> gostring \<Rightarrow> bool \<Rightarrow> transport \<Rightarrow> world \<Rightarrow> sent
    \<Rightarrow> transport \<Rightarrow> world \<Rightarrow> http_result list \<Rightarrow> bool" where
  "batch_done E path raw evaluate t w r t' w' as \<longleftrightarrow>
     http_trace w' = http_trace w @ map (Pair (batch_request E t path raw)) as
     \<and> int (length as) \<le> max 0 (RetryAttempts (t_cfg t)) + 1
     \<and> (list_all retryable as \<and> failed_early r
        \<or> as \<noteq> [] \<and> list_all retryable (butlast as) \<and> answer_result E evaluate (last as) r)"

lemma sendBatch_done:
  assumes "sendBatch E c path raw evaluate t w = (r, t', w')"
  shows "same_transport t t' \<and> later w w' \<and> hook_trace w' = hook_trace w \<and> redis_trace w' = redis_trace w
    \<and> (\<exists>as. batch_done E path raw evaluate t w r t' w' as)"
proof -
  have "sendLoop E c path evaluate (fst (encodeBody E t raw)) (snd (encodeBody E t raw))
      (if SigningSecret (t_cfg t) \<noteq> [] then signPayload E raw (SigningSecret (t_cfg t)) else []) 0 t w = (r, t', w')"
    using assms by (simp add: sendBatch_def split_beta Let_def)
  from send.loop_done [OF this] show ?thesis
    unfolding send.loop_done_def batch_done_def batch_request_def [symmetric] by simp
qed

text \<open>C14. Sending a batch makes at most \<open>RetryAttempts + 1\<close> requests, all of them the same POST to the
  configured endpoint and path; every request but the last was answered with a retryable failure
  (network error, 401, 403, 429 or 5xx), so that no answer that settles the batch is ever followed by
  another request for it.\<close>

theorem sendBatch_requests:
  assumes "sendBatch E c path raw evaluate t w = (r, t', w')" and "0 \<le> RetryAttempts (t_cfg t)"
  shows "\<exists>as. http_trace w' = http_trace w @ map (Pair (batch_request E t path raw)) as
    \<and> int (length as) \<le> RetryAttempts (t_cfg t) + 1 \<and> list_all retryable (butlast as)
    \<and> rq_method (batch_request E t path raw) = ''POST''
    \<and> rq_url (batch_request E t path raw) = Endpoint (t_cfg t) @ path"
proof -
  from sendBatch_done [OF assms(1)] obtain as where "batch_done E path raw evaluate t w r t' w' as" by blast
  with assms(2) show ?thesis
    by (intro exI [of _ as])
       (auto simp: batch_done_def batch_request_def the_request_def list_all_iff dest: in_set_butlastD)
qed

text \<open>A transport for the closed examples.\<close>

definition sample_transport :: transport where
  "sample_transport = newTransport (DefaultConfig\<lparr>CompressionEnabled := False\<rparr>) ''install''"

lemmas sample_simps = sample_transport_def newTransport_def DefaultConfig_def

theorem sendBatch_requests_witness:
  "\<exists>w' as. snd (snd (sendBatch calm Background statusPath ''{}'' False sample_transport start)) = w'
    \<and> http_trace w' = map (Pair (batch_request calm sample_transport statusPath ''{}'')) as \<and> length as \<le> 4"
proof -
  obtain r t' w' where s: "sendBatch calm Background statusPath ''{}'' False sample_transport start = (r, t', w')"
    by (metis prod.collapse)
  have "0 \<le> RetryAttempts (t_cfg sample_transport)" by (simp add: sample_simps)
  from sendBatch_requests [OF s this] s show ?thesis by (auto simp: sample_simps start_def)
qed




end
