(* ===== verification/Batches.thy ===== *)
theory Batches
  imports Transport
begin

text \<open>
  The batch operations of transport.go over \<open>sendBatch\<close>: plain batches with the split of an oversized
  one, encrypted batches, and status reports.
\<close>

section \<open>The two kinds\<close>

text \<open>
  What \<open>sendEvents\<close>/\<open>splitOrDropEvents\<close> and \<open>sendMetrics\<close>/\<open>splitOrDropMetrics\<close> differ in: the path, the
  names in messages and hooks, the field of the batch, the redaction of an item, and the arguments
  to \<open>sendEncryptedBatch\<close>.
\<close>

record 'a batch_kind =
  bk_path :: gostring
  bk_type :: gostring
  bk_one :: gostring
  bk_put :: "'a list \<Rightarrow> eventBatch \<Rightarrow> eventBatch"
  bk_redact :: "env \<Rightarrow> 'a \<Rightarrow> gostring list \<Rightarrow> 'a"
  bk_encrypted :: "'a list \<Rightarrow> SecurityEvent list \<times> SecurityMetric list"

definition event_batches :: "SecurityEvent batch_kind" where
  "event_batches = \<lparr>bk_path = eventsPath, bk_type = ''events'', bk_one = ''event'',
     bk_put = (\<lambda>xs b. b\<lparr>b_Events := xs\<rparr>), bk_redact = redactEventMetadata,
     bk_encrypted = (\<lambda>xs. (xs, []))\<rparr>"

definition metric_batches :: "SecurityMetric batch_kind" where
  "metric_batches = \<lparr>bk_path = metricsPath, bk_type = ''metrics'', bk_one = ''metric'',
     bk_put = (\<lambda>xs b. b\<lparr>b_Metrics := xs\<rparr>), bk_redact = redactMetricTags,
     bk_encrypted = (\<lambda>xs. ([], xs))\<rparr>"

section \<open>Encrypted batches\<close>

definition canonicalItemsJSON :: "env \<Rightarrow> SecurityEvent list \<Rightarrow> SecurityMetric list \<Rightarrow> goerror + gomap" where
  "canonicalItemsJSON E events metrics =
    (let generic = (\<lambda>arg. case jsonMarshal E arg of Inl err \<Rightarrow> Inl err | Inr raw \<Rightarrow> decodeGenericJSON E raw) in
     case (if length events > 0 then generic (JEvents events) else Inr (GSlice [])) of
       Inl err \<Rightarrow> Inl (Errorf err)
     | Inr evs \<Rightarrow> (case (if length metrics > 0 then generic (JMetrics metrics) else Inr (GSlice [])) of
         Inl err \<Rightarrow> Inl (Errorf err)
       | Inr ms \<Rightarrow> Inr [(''events'', evs), (''metrics'', ms)]))"

definition sendEncryptedBatch :: "env \<Rightarrow> ctx \<Rightarrow> PayloadEncryptor \<Rightarrow> SecurityEvent list \<Rightarrow> SecurityMetric list
    \<Rightarrow> transport \<Rightarrow> world \<Rightarrow> sent \<times> transport \<times> world" where
  "sendEncryptedBatch E c p events metrics t w =
    (let fail = (\<lambda>e w. (Inr (outcomePartial, Some e), t,
           fireHook t StageEncryption (Some e) [(''endpoint'', HStr encryptedPath)] w)) in
     case canonicalItemsJSON E events metrics of Inl err \<Rightarrow> fail err w
     | Inr plaintext \<Rightarrow> (case Encrypt E p plaintext [] w of
         (Inl encErr, w1) \<Rightarrow> fail encErr w1
       | (Inr encryptedPayload, w1) \<Rightarrow> (case gen_batchID E w1 of (batchID, w2) \<Rightarrow>
           (case jsonMarshal E (JEnvelope \<lparr>e_EncryptedPayload = encryptedPayload, e_BatchID = batchID,
               e_AgentVersion = Version, e_GuardVersion = GuardVersion (t_cfg t),
               e_GuardCoreVersion = GuardCoreVersion (t_cfg t)\<rparr>) of
             Inl err \<Rightarrow> fail (Errorf err) w2
           | Inr envelope \<Rightarrow> (case sendBatch E c encryptedPath envelope True t w2 of
               (Inl v, t3, w3) \<Rightarrow> (Inl v, t3, w3)
             | (Inr (outcome, err), t3, w3) \<Rightarrow> (case Option.bind err as_tooLarge of
                 Some d \<Rightarrow> (Inr (outcomePermanent, None), bump_failed t3,
                   fireHook t3 StageTransportSend (Some (payloadTooLargeError d))
                     [(''endpoint'', HStr encryptedPath)] w3)
               | None \<Rightarrow> (Inr (outcome, err), t3, w3)))))))"

section \<open>Plain batches\<close>

definition new_batch :: "env \<Rightarrow> transport \<Rightarrow> world \<Rightarrow> eventBatch \<times> world" where
  "new_batch E t w = (case gen_batchID E w of (batchID, w1) \<Rightarrow> case now E w1 of (tm, w2) \<Rightarrow>
     (\<lparr>b_ProjectID = projectIDOrDefault t, b_Events = [], b_Metrics = [], b_BatchID = batchID,
       b_CreatedAt = tm, b_Compressed = False, b_AgentVersion = Version,
       b_GuardVersion = GuardVersion (t_cfg t), b_GuardCoreVersion = GuardCoreVersion (t_cfg t)\<rparr>, w2))"

definition send_failure :: "'a batch_kind \<Rightarrow> transport \<Rightarrow> goerror option \<Rightarrow> world \<Rightarrow> world" where
  "send_failure K t err w = fireHook t StageTransportSend err
     [(''endpoint'', HStr (bk_path K)), (''data_type'', HStr (bk_type K))] w"

definition singleton_dropped :: "'a batch_kind \<Rightarrow> 'a list \<Rightarrow> transport \<Rightarrow> world \<Rightarrow> world" where
  "singleton_dropped K items t w = fireHook t StageTransportSend
     (Some (payloadTooLargeError (''singleton '' @ bk_one K @ '' exceeds the payload limit'')))
     [(''data_type'', HStr (bk_type K)), (''item_count'', HInt (int (length items)))] w"

text \<open>
  \<open>marshalBatch\<close> writes the redacted items back into the slice it is given (\<open>redactBatch\<close>), so that it
  is the redacted items that are split.
\<close>

function sendItems :: "env \<Rightarrow> ctx \<Rightarrow> 'a batch_kind \<Rightarrow> 'a list \<Rightarrow> transport \<Rightarrow> world \<Rightarrow> sent \<times> transport \<times> world"
and splitOrDrop :: "env \<Rightarrow> ctx \<Rightarrow> 'a batch_kind \<Rightarrow> 'a list \<Rightarrow> transport \<Rightarrow> world
    \<Rightarrow> (gostring + sendOutcome) \<times> transport \<times> world" where
  "sendItems E c K items t w =
    (if items = [] then (Inr (outcomeAccepted, None), t, w)
     else case encryptor t of
       Some p \<Rightarrow> (case bk_encrypted K items of (events, metrics) \<Rightarrow> sendEncryptedBatch E c p events metrics t w)
     | None \<Rightarrow> (case new_batch E t w of (batch, w1) \<Rightarrow>
         (case marshalBatch E t (bk_put K items batch) of
            Inl err \<Rightarrow> (Inr (outcomePartial, Some (Errorf err)), t, send_failure K t (Some (Errorf err)) w1)
          | Inr raw \<Rightarrow> (case sendBatch E c (bk_path K) raw True t w1 of
              (Inl v, t2, w2) \<Rightarrow> (Inl v, t2, w2)
            | (Inr (outcome, err), t2, w2) \<Rightarrow>
                if err_tooLarge err
                then (case splitOrDrop E c K (map (\<lambda>x. bk_redact K E x (sensitive (t_cfg t))) items) t2 w2 of
                    (Inl v, t3, w3) \<Rightarrow> (Inl v, t3, w3)
                  | (Inr o', t3, w3) \<Rightarrow> (Inr (o', None), t3, w3))
                else (Inr (outcome, err), t2,
                      if outcome = outcomeFailed \<and> err \<noteq> None then send_failure K t2 err w2 else w2)))))"
| "splitOrDrop E c K items t w =
    (if length items \<le> 1 then (Inr outcomePermanent, bump_failed t, singleton_dropped K items t w)
     else (case sendItems E c K (take (length items div 2) items) t w of
         (Inl v, t1, w1) \<Rightarrow> (Inl v, t1, w1)
       | (Inr (left, e1), t1, w1) \<Rightarrow> (case sendItems E c K (drop (length items div 2) items) t1 w1 of
           (Inl v, t2, w2) \<Rightarrow> (Inl v, t2, w2)
         | (Inr (right, e2), t2, w2) \<Rightarrow>
             (Inr (if outcomeConfirms left \<and> outcomeConfirms right then outcomeAccepted else outcomeFailed),
              t2, w2))))"
  by pat_completeness auto
termination
  by (relation "measure (\<lambda>x. case x of Inl (E, c, K, items, t, w) \<Rightarrow> 2 * length items + 1
      | Inr (E, c, K, items, t, w) \<Rightarrow> 2 * length items)") (auto, arith)

declare sendItems.simps [simp del] splitOrDrop.simps [simp del]

definition sendEvents :: "env \<Rightarrow> ctx \<Rightarrow> SecurityEvent list \<Rightarrow> transport \<Rightarrow> world \<Rightarrow> sent \<times> transport \<times> world" where
  "sendEvents E c events t w = sendItems E c event_batches events t w"

definition sendMetrics :: "env \<Rightarrow> ctx \<Rightarrow> SecurityMetric list \<Rightarrow> transport \<Rightarrow> world \<Rightarrow> sent \<times> transport \<times> world" where
  "sendMetrics E c metrics t w = sendItems E c metric_batches metrics t w"

definition splitOrDropEvents :: "env \<Rightarrow> ctx \<Rightarrow> SecurityEvent list \<Rightarrow> transport \<Rightarrow> world
    \<Rightarrow> (gostring + sendOutcome) \<times> transport \<times> world" where
  "splitOrDropEvents E c = splitOrDrop E c event_batches"

definition splitOrDropMetrics :: "env \<Rightarrow> ctx \<Rightarrow> SecurityMetric list \<Rightarrow> transport \<Rightarrow> world
    \<Rightarrow> (gostring + sendOutcome) \<times> transport \<times> world" where
  "splitOrDropMetrics E c = splitOrDrop E c metric_batches"

section \<open>Status reports\<close>

definition sendStatus :: "env \<Rightarrow> ctx \<Rightarrow> agentStatusPayload \<Rightarrow> transport \<Rightarrow> world \<Rightarrow> sent \<times> transport \<times> world" where
  "sendStatus E c payload t w = (case marshalStatus E payload of
     Inl err \<Rightarrow> (Inr (outcomePartial, Some (Errorf err)), t, w)
   | Inr raw \<Rightarrow> (case sendBatch E c statusPath raw False t w of
       (Inl v, t1, w1) \<Rightarrow> (Inl v, t1, w1)
     | (Inr (outcome, err), t1, w1) \<Rightarrow>
         if err_tooLarge err then (Inr (outcomePermanent, None), bump_failed t1, w1)
         else (Inr (outcome, err), t1, w1)))"

section \<open>How much is sent\<close>

text \<open>The requests of a run that went from one world to another.\<close>

definition new_requests :: "world \<Rightarrow> world \<Rightarrow> (http_request \<times> http_result) list" where
  "new_requests w w' = drop (length (http_trace w)) (http_trace w')"

definition grows :: "transport \<Rightarrow> world \<Rightarrow> transport \<Rightarrow> world \<Rightarrow> bool" where
  "grows t w t' w' \<longleftrightarrow> same_transport t t' \<and> redis_trace w' = redis_trace w \<and> later w w'
     \<and> (\<exists>xs. http_trace w' = http_trace w @ xs)"

lemma grows_refl [simp, intro]: "grows t w t w"
  by (simp add: grows_def)

lemma grows_trans [trans]: "grows t u t' v \<Longrightarrow> grows t' v t'' w \<Longrightarrow> grows t u t'' w"
  by (auto simp: grows_def intro: same_transport_trans later_trans)

lemma new_requests_append: "grows t u t' v \<Longrightarrow> grows t' v t'' w \<Longrightarrow>
  new_requests u w = new_requests u v @ new_requests v w"
  by (auto simp: grows_def new_requests_def)

lemma new_requests_same [simp]: "http_trace w' = http_trace w \<Longrightarrow> new_requests w w' = []"
  by (simp add: new_requests_def)

lemma fireHook_frame [simp]:
  "http_trace (fireHook t s e x w) = http_trace w" "redis_trace (fireHook t s e x w) = redis_trace w"
  "http_trace (send_failure K t e w) = http_trace w" "http_trace (singleton_dropped K xs t w) = http_trace w"
  "redis_trace (send_failure K t e w) = redis_trace w" "redis_trace (singleton_dropped K xs t w) = redis_trace w"
  "later u (fireHook t s e x w) = later u w" "later u (send_failure K t e w) = later u w"
  "later u (singleton_dropped K xs t w) = later u w"
  by (simp_all add: fireHook_def send_failure_def singleton_dropped_def later_def)

lemma new_requests_fire [simp]:
  "new_requests w (send_failure K t e w') = new_requests w w'"
  "new_requests w (singleton_dropped K xs t w') = new_requests w w'"
  "new_requests w (fireHook t s e x w') = new_requests w w'"
  by (simp_all add: new_requests_def)

lemma new_batch_world: "new_batch E t w = (b, w') \<Longrightarrow> w' = snd (now E (snd (gen_batchID E w)))"
  by (auto simp: new_batch_def split_beta)

lemma new_batch_trace: "new_batch E t w = (b, w') \<Longrightarrow> http_trace w' = http_trace w \<and> redis_trace w' = redis_trace w \<and> later w w'"
  by (drule new_batch_world) (auto intro: later_trans)

text \<open>What one \<open>sendBatch\<close> adds.\<close>

lemma sendBatch_grows:
  assumes "sendBatch E c path raw evaluate t w = (r, t', w')"
  obtains as where "grows t w t' w'" "new_requests w w' = map (Pair (batch_request E t path raw)) as"
    "batch_done E path raw evaluate t w r t' w' as"
proof -
  from sendBatch_done [OF assms] obtain as where d: "same_transport t t'" "redis_trace w' = redis_trace w" "later w w'"
    "batch_done E path raw evaluate t w r t' w' as" by blast
  then have "grows t w t' w'" "new_requests w w' = map (Pair (batch_request E t path raw)) as"
    by (auto simp: grows_def batch_done_def new_requests_def)
  with d(4) show thesis by (rule that [rotated 2])
qed

text \<open>The rules of the recursion, one for every way through the code.\<close>

lemma sendItems_cases:
  assumes "sendItems E c K items t w = (r, t', w')" "encryptor t = None" "items \<noteq> []"
  obtains (unserialisable) e batch w1 where "new_batch E t w = (batch, w1)" "r = Inr (outcomePartial, Some e)"
      "t' = t" "http_trace w' = http_trace w" "redis_trace w' = redis_trace w" "later w w'"
  | (sent) batch w1 raw w2 where "new_batch E t w = (batch, w1)"
      "marshalBatch E t (bk_put K items batch) = Inr raw"
      "sendBatch E c (bk_path K) raw True t w1 = (r, t', w2)" "http_trace w' = http_trace w2 \<and> redis_trace w' = redis_trace w2 \<and> later w2 w'"
      "\<And>o' e. r = Inr (o', e) \<Longrightarrow> \<not> err_tooLarge e"
  | (split) batch w1 raw o' e t2 w2 q where "new_batch E t w = (batch, w1)"
      "marshalBatch E t (bk_put K items batch) = Inr raw"
      "sendBatch E c (bk_path K) raw True t w1 = (Inr (o', e), t2, w2)" "err_tooLarge e"
      "splitOrDrop E c K (map (\<lambda>x. bk_redact K E x (sensitive (t_cfg t))) items) t2 w2 = (q, t', w')"
      "r = map_sum id (\<lambda>o'. (o', None)) q"
proof -
  obtain batch w1 where b: "new_batch E t w = (batch, w1)" by fastforce
  show thesis
  proof (cases "marshalBatch E t (bk_put K items batch)")
    case (Inl err)
    with assms b new_batch_trace [OF b] show thesis
      by (intro unserialisable) (auto simp: sendItems.simps [of E c K items])
  next
    case (Inr raw)
    obtain r2 t2 w2 where s: "sendBatch E c (bk_path K) raw True t w1 = (r2, t2, w2)"
      by (metis prod.collapse)
    show thesis
    proof (cases r2)
      case (Inl v)
      with assms b Inr s show thesis
        by (intro sent [of batch w1 raw w2]) (auto simp: sendItems.simps [of E c K items])
    next
      case r2: (Inr oe)
      obtain o' e where oe: "oe = (o', e)" by fastforce
      show thesis
      proof (cases "err_tooLarge e")
        case True
        with assms b Inr s r2 oe show thesis
          by (intro split [of batch w1 raw o' e t2 w2 "fst (splitOrDrop E c K
                (map (\<lambda>x. bk_redact K E x (sensitive (t_cfg t))) items) t2 w2)"])
             (auto simp: sendItems.simps [of E c K items] split: prod.splits sum.splits)
      next
        case False
        with assms b Inr s r2 oe show thesis
          by (intro sent [of batch w1 raw w2]) (auto simp: sendItems.simps [of E c K items] split: if_splits)
      qed
    qed
  qed
qed

section \<open>A settled batch was carried\<close>

text \<open>
  A request that carries an item: its body is the marshalled form of a batch with the item in it, and
  its answer settles the item, either by settling the batch or by refusing the item alone as too
  large.
\<close>

definition carried :: "env \<Rightarrow> 'a batch_kind \<Rightarrow> transport \<Rightarrow> 'a \<Rightarrow> http_request \<times> http_result \<Rightarrow> bool" where
  "carried E K t x entry \<longleftrightarrow> (\<exists>items batch raw. x \<in> set items
     \<and> marshalBatch E t (bk_put K items batch) = Inr raw
     \<and> fst entry = batch_request E t (bk_path K) raw
     \<and> (outcomeConfirms (verdict E True (snd entry)) \<or> is_413 (snd entry) \<and> items = [x]))"

text \<open>An item of a split batch has been redacted by the earlier attempts, once for each of them.\<close>

definition redacted_times :: "env \<Rightarrow> 'a batch_kind \<Rightarrow> Config \<Rightarrow> nat \<Rightarrow> 'a \<Rightarrow> 'a" where
  "redacted_times E K cfg n = (\<lambda>x. bk_redact K E x (sensitive cfg)) ^^ n"

definition covered :: "env \<Rightarrow> 'a batch_kind \<Rightarrow> transport \<Rightarrow> 'a list \<Rightarrow> (http_request \<times> http_result) list \<Rightarrow> bool" where
  "covered E K t items tr \<longleftrightarrow> (\<forall>x\<in>set items. \<exists>n. \<exists>entry\<in>set tr.
     carried E K t (redacted_times E K (t_cfg t) n x) entry)"

definition budget :: "transport \<Rightarrow> nat \<Rightarrow> int" where
  "budget t n = (2 * int n - 1) * (max 0 (RetryAttempts (t_cfg t)) + 1)"

lemma marshalBatch_same: "same_transport t t' \<Longrightarrow> marshalBatch E t' b = marshalBatch E t b"
proof -
  assume "same_transport t t'"
  then have c: "t_cfg t' = t_cfg t" by (simp add: same_transport_def)
  then show ?thesis by (simp add: marshalBatch_def willCompress_def Let_def cong: sum.case_cong)
qed

lemma carried_same: "same_transport t t' \<Longrightarrow> carried E K t' x e = carried E K t x e"
  by (simp add: carried_def batch_request_same marshalBatch_same)

lemma covered_same: "same_transport t t' \<Longrightarrow> covered E K t' xs tr = covered E K t xs tr"
  by (simp add: covered_def carried_same) (simp add: same_transport_def)

lemma budget_same: "same_transport t t' \<Longrightarrow> budget t' n = budget t n"
  by (simp add: budget_def same_transport_def)

lemma covered_append: "covered E K t xs tr \<Longrightarrow> covered E K t ys tr' \<Longrightarrow> covered E K t (xs @ ys) (tr @ tr')"
  unfolding covered_def by (metis (no_types, lifting) Un_iff set_append)

lemma covered_redacted:
  assumes "covered E K t (map (\<lambda>x. bk_redact K E x (sensitive (t_cfg t))) xs) tr"
  shows "covered E K t xs (tr' @ tr)"
proof -
  have "redacted_times E K (t_cfg t) n (bk_redact K E x (sensitive (t_cfg t)))
      = redacted_times E K (t_cfg t) (Suc n) x" for n x
    by (simp add: redacted_times_def funpow_Suc_right del: funpow.simps)
  with assms show ?thesis unfolding covered_def by (metis UnCI image_eqI list.set_map set_append)
qed

text \<open>A request on the plain path carries a marshalled batch.\<close>

definition plain_request :: "env \<Rightarrow> 'a batch_kind \<Rightarrow> transport \<Rightarrow> http_request \<times> http_result \<Rightarrow> bool" where
  "plain_request E K t entry \<longleftrightarrow> (\<exists>b raw. marshalBatch E t b = Inr raw
     \<and> fst entry = batch_request E t (bk_path K) raw)"

lemma plain_request_same: "same_transport t t' \<Longrightarrow> plain_request E K t' = plain_request E K t"
  by (intro ext) (simp add: plain_request_def batch_request_same marshalBatch_same)

lemma plain_requests_map: "marshalBatch E t b = Inr raw \<Longrightarrow>
  list_all (plain_request E K t) (map (Pair (batch_request E t (bk_path K) raw)) as)"
  by (auto simp: list_all_iff plain_request_def)

definition sent_ok :: "env \<Rightarrow> 'a batch_kind \<Rightarrow> 'a list \<Rightarrow> transport \<Rightarrow> world \<Rightarrow> sent \<Rightarrow> transport \<Rightarrow> world \<Rightarrow> bool" where
  "sent_ok E K items t w r t' w' \<longleftrightarrow> grows t w t' w'
     \<and> int (length (new_requests w w')) \<le> budget t (length items)
     \<and> list_all (plain_request E K t) (new_requests w w')
     \<and> (\<forall>o' e. r = Inr (o', e) \<longrightarrow> outcomeConfirms o' \<longrightarrow> covered E K t items (new_requests w w'))"

lemma splitOrDrop_cases:
  assumes "splitOrDrop E c K xs t w = (q, t', w')" "\<not> length xs \<le> 1"
  obtains (left_panics) v where "sendItems E c K (take (length xs div 2) xs) t w = (Inl v, t', w')" "q = Inl v"
  | (right_panics) le t1 w1 v where "sendItems E c K (take (length xs div 2) xs) t w = (Inr le, t1, w1)"
      "sendItems E c K (drop (length xs div 2) xs) t1 w1 = (Inl v, t', w')" "q = Inl v"
  | (both) l e t1 w1 r e' where "sendItems E c K (take (length xs div 2) xs) t w = (Inr (l, e), t1, w1)"
      "sendItems E c K (drop (length xs div 2) xs) t1 w1 = (Inr (r, e'), t', w')"
      "q = Inr (if outcomeConfirms l \<and> outcomeConfirms r then outcomeAccepted else outcomeFailed)"
  using assms by (auto simp: splitOrDrop.simps [of E c K xs] split: prod.splits sum.splits)

lemma budget_halves: "n div 2 + m = n \<Longrightarrow>
  budget t (n div 2) + budget t m = budget t n - (max 0 (RetryAttempts (t_cfg t)) + 1)"
proof -
  assume "n div 2 + m = n"
  then have "int (n div 2) + int m = int n" by linarith
  then have "(2 * int (n div 2) - 1) + (2 * int m - 1) = (2 * int n - 1) - 1" by linarith
  then show ?thesis unfolding budget_def by (metis distrib_right left_diff_distrib mult_1)
qed

lemma budget_nonneg: "0 < n \<Longrightarrow> 0 \<le> budget t n"
  by (simp add: budget_def)

lemma split_ok:
  assumes IH: "\<And>ys t w r t' w'. sendItems E c K ys t w = (r, t', w') \<Longrightarrow> encryptor t = None \<Longrightarrow> ys \<noteq> []
      \<Longrightarrow> length ys < length xs \<Longrightarrow> sent_ok E K ys t w r t' w'"
    and split: "splitOrDrop E c K xs t w = (q, t', w')" "encryptor t = None" "\<not> length xs \<le> 1"
  shows "grows t w t' w'
    \<and> int (length (new_requests w w')) \<le> budget t (length xs) - (max 0 (RetryAttempts (t_cfg t)) + 1)
    \<and> list_all (plain_request E K t) (new_requests w w')
    \<and> (\<forall>o'. q = Inr o' \<longrightarrow> outcomeConfirms o' \<longrightarrow> covered E K t xs (new_requests w w'))"
proof -
  let ?l = "take (length xs div 2) xs" and ?r = "drop (length xs div 2) xs"
  note len = half_less [OF split(3)] half_less' [OF split(3)]
  have ne: "?l \<noteq> []" "?r \<noteq> []" using halves_nonempty [OF split(3)] by auto
  have bud: "budget t (length ?l) + budget t (length ?r)
      = budget t (length xs) - (max 0 (RetryAttempts (t_cfg t)) + 1)"
    using budget_halves [of "length xs" "length ?r" t] by simp
  have pos: "0 \<le> budget t (length ?r)" using ne(2) by (intro budget_nonneg) simp
  have enc: "encryptor t1 = None" if "grows t w t1 w1" for t1 w1
    using that split(2) by (simp add: grows_def same_transport_def)
  from split(1,3) show ?thesis
  proof (cases rule: splitOrDrop_cases)
    case (left_panics v)
    from IH [OF this(1) split(2) ne(1) len(1)] left_panics bud pos show ?thesis by (auto simp: sent_ok_def)
  next
    case (right_panics le t1 w1 v)
    from IH [OF this(1) split(2) ne(1) len(1)] have 1: "sent_ok E K ?l t w (Inr le) t1 w1" .
    then have g: "grows t w t1 w1" by (simp add: sent_ok_def)
    from IH [OF right_panics(2) enc [OF g] ne(2) len(2)] have 2: "sent_ok E K ?r t1 w1 (Inl v) t' w'" .
    then have g2: "grows t1 w1 t' w'" by (simp add: sent_ok_def)
    have st: "same_transport t t1" using g by (simp add: grows_def)
    from 1 2 g right_panics bud show ?thesis
      using new_requests_append [OF g g2] grows_trans [OF g g2] budget_same [OF st] plain_request_same [OF st, of E K]
      by (auto simp: sent_ok_def)
  next
    case (both l e t1 w1 r e')
    from IH [OF this(1) split(2) ne(1) len(1)] have 1: "sent_ok E K ?l t w (Inr (l, e)) t1 w1" .
    then have g: "grows t w t1 w1" by (simp add: sent_ok_def)
    from IH [OF both(2) enc [OF g] ne(2) len(2)] have 2: "sent_ok E K ?r t1 w1 (Inr (r, e')) t' w'" .
    then have g2: "grows t1 w1 t' w'" by (simp add: sent_ok_def)
    have st: "same_transport t t1" using g by (simp add: grows_def)
    have cov: "covered E K t xs (new_requests w w')" if "outcomeConfirms l" "outcomeConfirms r"
      using covered_append [of E K t ?l "new_requests w w1" ?r "new_requests w1 w'"] 1 2 that
      by (simp add: sent_ok_def covered_same [OF st] new_requests_append [OF g g2])
    from 1 2 both bud cov show ?thesis
      using new_requests_append [OF g g2] grows_trans [OF g g2] budget_same [OF st] plain_request_same [OF st, of E K]
      by (auto simp: sent_ok_def outcomeConfirms_def [of outcomeFailed])
  qed
qed

lemma answer_confirms:
  assumes "answer_result E True a (Inr (o', e))" "outcomeConfirms o'"
  shows "outcomeConfirms (verdict E True a)"
  using assms by (cases a) auto

lemma sendItems_ok:
  "sendItems E c K items t w = (r, t', w') \<Longrightarrow> encryptor t = None \<Longrightarrow> items \<noteq> []
    \<Longrightarrow> sent_ok E K items t w r t' w'"
proof (induction "length items" arbitrary: items t w r t' w' rule: less_induct)
  case less
  let ?R = "max 0 (RetryAttempts (t_cfg t)) + 1"
  have pos: "?R \<le> budget t (length items)"
  proof -
    have "1 * ?R \<le> (2 * int (length items) - 1) * ?R"
      using less.prems(3) by (cases items) (auto intro!: mult_right_mono)
    then show ?thesis by (simp add: budget_def)
  qed
  from less.prems show ?case
  proof (cases rule: sendItems_cases)
    case (unserialisable e batch w1)
    then show ?thesis using pos by (auto simp: sent_ok_def grows_def outcomeConfirms_def)
  next
    case (sent batch w1 raw w2)
    from sent(3) obtain as where g: "grows t w1 t' w2"
      and n: "new_requests w1 w2 = map (Pair (batch_request E t (bk_path K) raw)) as"
      and d: "batch_done E (bk_path K) raw True t w1 r t' w2 as" by (rule sendBatch_grows)
    have g': "grows t w t' w'" and n': "new_requests w w' = new_requests w1 w2"
      using g new_batch_trace [OF sent(1)] sent(4)
      by (auto simp: grows_def new_requests_def) (blast intro: later_trans)
    have "covered E K t items (new_requests w w')" if "r = Inr (o', e)" "outcomeConfirms o'" for o' e
    proof -
      from d that have as: "as \<noteq> []" "answer_result E True (last as) r"
        by (auto simp: batch_done_def failed_early_def outcomeConfirms_def)
      have "carried E K t x (batch_request E t (bk_path K) raw, last as)" if "x \<in> set items" for x
        unfolding carried_def using that sent(2) answer_confirms as(2) \<open>r = Inr (o', e)\<close> \<open>outcomeConfirms o'\<close>
        by (intro exI [of _ items] exI [of _ batch] exI [of _ raw]) auto
      then show ?thesis using as(1) unfolding covered_def n' n
        by (intro ballI exI [of _ 0] bexI [of _ "(batch_request E t (bk_path K) raw, last as)"])
           (auto simp: redacted_times_def)
    qed
    with g' n' n d pos plain_requests_map [OF sent(2)] show ?thesis by (auto simp: sent_ok_def batch_done_def)
  next
    case (split batch w1 raw o' e t2 w2 q)
    let ?xs = "map (\<lambda>x. bk_redact K E x (sensitive (t_cfg t))) items"
    from split(3) obtain as where g: "grows t w1 t2 w2"
      and n: "new_requests w1 w2 = map (Pair (batch_request E t (bk_path K) raw)) as"
      and d: "batch_done E (bk_path K) raw True t w1 (Inr (o', e)) t2 w2 as" by (rule sendBatch_grows)
    have g': "grows t w t2 w2" and n': "new_requests w w2 = new_requests w1 w2"
      using g new_batch_trace [OF split(1)]
      by (auto simp: grows_def new_requests_def intro: later_trans)
    have st: "same_transport t t2" using g by (simp add: grows_def)
    have as: "as \<noteq> []" "is_413 (last as)"
      using d split(4) by (cases "last as"; auto simp: batch_done_def failed_early_def)+
    have len: "int (length (new_requests w w2)) \<le> ?R" using d by (simp add: n' n batch_done_def)
    show ?thesis
    proof (cases "length ?xs \<le> 1")
      case True
      with less.prems(3) obtain x where x: "items = [x]" by (cases items) auto
      have q: "q = Inr outcomePermanent" "same_transport t2 t'" "http_trace w' = http_trace w2"
        "redis_trace w' = redis_trace w2" "later w2 w'"
        using split(5) by (auto simp: splitOrDrop.simps x)
      have g2: "grows t2 w2 t' w'" using q by (simp add: grows_def)
      have nn: "new_requests w w' = new_requests w w2" using q by (simp add: new_requests_def)
      have "carried E K t x (batch_request E t (bk_path K) raw, last as)"
        unfolding carried_def using split(2) as(2) x
        by (intro exI [of _ items] exI [of _ batch] exI [of _ raw]) auto
      then have "covered E K t items (new_requests w w')"
        unfolding covered_def nn n' n x using as(1)
        by (intro ballI exI [of _ 0] bexI [of _ "(batch_request E t (bk_path K) raw, last as)"])
           (auto simp: redacted_times_def)
      then show ?thesis using grows_trans [OF g' g2] len pos nn plain_requests_map [OF split(2), of K as]
        by (simp add: sent_ok_def n' n)
    next
      case False
      have "encryptor t2 = None" using st less.prems(2) by (simp add: same_transport_def)
      from split_ok [OF _ split(5) this False] less.hyps
      have s: "grows t2 w2 t' w'"
        "int (length (new_requests w2 w')) \<le> budget t2 (length ?xs) - (max 0 (RetryAttempts (t_cfg t2)) + 1)"
        "list_all (plain_request E K t2) (new_requests w2 w')"
        "\<forall>o'. q = Inr o' \<longrightarrow> outcomeConfirms o' \<longrightarrow> covered E K t2 ?xs (new_requests w2 w')"
        by auto
      have cfg: "t_cfg t2 = t_cfg t" using st by (simp add: same_transport_def)
      have "covered E K t items (new_requests w w')" if "r = Inr (oo, ee)" "outcomeConfirms oo" for oo ee
      proof -
        have "q = Inr oo" using that(1) split(6) by (cases q) auto
        with s(4) that(2) have "covered E K t ?xs (new_requests w2 w')" by (simp add: covered_same [OF st])
        from covered_redacted [OF this] show ?thesis by (simp add: new_requests_append [OF g' s(1)])
      qed
      then show ?thesis
        using grows_trans [OF g' s(1)] len s(2,3) budget_same [OF st] plain_request_same [OF st, of E K]
          plain_requests_map [OF split(2), of K as]
        by (auto simp: sent_ok_def new_requests_append [OF g' s(1)] cfg n' n)
    qed
  qed
qed

section \<open>What the batch operations promise\<close>

lemma new_requests_refl [simp]: "new_requests w w = []"
  by (simp add: new_requests_def)

text \<open>C12. Nothing is confirmed that the server did not settle: when \<open>sendEvents\<close> or \<open>sendMetrics\<close> on the
  plain path reports a confirming outcome, also after splitting an oversized batch at any depth, then
  for each item there is a request of this call whose body is a marshalled batch with the item in it
  (redacted once per attempt before), answered by a verdict that settles the whole batch or, for a batch
  of this item alone, by 413.\<close>

theorem sendItems_covered:
  assumes "sendItems E c K items t w = (Inr (o', e), t', w')" and "encryptor t = None"
    and "outcomeConfirms o'"
  shows "covered E K t items (new_requests w w')"
proof (cases "items = []")
  case True
  then show ?thesis by (simp add: covered_def)
next
  case False
  from sendItems_ok [OF assms(1,2) False] assms(3) show ?thesis by (simp add: sent_ok_def)
qed

text \<open>One event, sent to a server that answers 200: one request.\<close>

lemma sample_send:
  "sendItems calm Background event_batches [sample_event] sample_transport start =
    (Inr (outcomeAccepted, None), snd (sendItems calm Background event_batches [sample_event] sample_transport start))
   \<and> length (new_requests start (snd (snd (sendItems calm Background event_batches [sample_event] sample_transport start)))) = 1"
  by (simp add: sendItems.simps sample_simps new_batch_def gen_batchID_def now_def Let_def new_requests_def
     gen_randomHex_def calm_def start_def marshalBatch_def willCompress_def sendBatch_def
     encodeBody_def sendLoop.simps sendAttempt_def limiterGate_def Acquire_def pruneLocked_def newRateLimiter_def
     Admit_def newCircuitBreaker_def client_Do_def after_request_def on_response_def evaluateBatchResponse_def)

lemma sample_send_obtains:
  obtains t' w' rq a where "sendItems calm Background event_batches [sample_event] sample_transport start
      = (Inr (outcomeAccepted, None), t', w')" "(rq, a) \<in> set (new_requests start w')"
proof -
  obtain t' w' where s: "sendItems calm Background event_batches [sample_event] sample_transport start
      = (Inr (outcomeAccepted, None), t', w')"
    using sample_send by (metis prod.collapse)
  then have "length (new_requests start w') = 1" using sample_send by simp
  then obtain entry where "entry \<in> set (new_requests start w')" by (cases "new_requests start w'") auto
  with s show thesis using that by (cases entry) blast
qed

lemma sample_plain: "encryptor sample_transport = None"
  by (simp add: sample_simps)

theorem sendItems_covered_witness:
  "\<exists>t' w'. sendItems calm Background event_batches [sample_event] sample_transport start
      = (Inr (outcomeAccepted, None), t', w')
    \<and> covered calm event_batches sample_transport [sample_event] (new_requests start w')"
proof -
  obtain t' w' where s: "sendItems calm Background event_batches [sample_event] sample_transport start
      = (Inr (outcomeAccepted, None), t', w')" by (rule sample_send_obtains)
  with sendItems_covered [OF s sample_plain] show ?thesis by (auto simp: outcomeConfirms_def)
qed

text \<open>What an encrypted batch puts on the wire: nothing, or the envelope of the encrypted items.\<close>

definition enveloped :: "env \<Rightarrow> PayloadEncryptor \<Rightarrow> SecurityEvent list \<Rightarrow> SecurityMetric list \<Rightarrow> transport
    \<Rightarrow> (http_request \<times> http_result) list \<Rightarrow> bool" where
  "enveloped E p events metrics t tr \<longleftrightarrow> (\<exists>plaintext w1 envelope raw as.
     canonicalItemsJSON E events metrics = Inr plaintext
     \<and> fst (Encrypt E p plaintext [] w1) = Inr (e_EncryptedPayload envelope)
     \<and> jsonMarshal E (JEnvelope envelope) = Inr raw
     \<and> tr = map (Pair (batch_request E t encryptedPath raw)) as
     \<and> int (length as) \<le> max 0 (RetryAttempts (t_cfg t)) + 1)"

lemma Encrypt_world: "Encrypt E p data ad w = (r, w') \<Longrightarrow> http_trace w' = http_trace w \<and> redis_trace w' = redis_trace w \<and> later w w'"
  by (auto simp: Encrypt_def)

lemma gen_batchID_world: "gen_batchID E w = (b, w') \<Longrightarrow> http_trace w' = http_trace w \<and> redis_trace w' = redis_trace w \<and> later w w'"
  using gen_traces(3,6) [of E w] later_steps(7) [of w E] by simp

lemma sendEncryptedBatch_trace:
  assumes "sendEncryptedBatch E c p events metrics t w = (r, t', w')"
  shows "grows t w t' w' \<and> (new_requests w w' = [] \<or> enveloped E p events metrics t (new_requests w w'))"
proof (cases "canonicalItemsJSON E events metrics")
  case (Inl err)
  with assms show ?thesis by (auto simp: sendEncryptedBatch_def grows_def new_requests_def)
next
  case pt: (Inr plaintext)
  obtain x w1 where e: "Encrypt E p plaintext [] w = (x, w1)" by fastforce
  note w1 = Encrypt_world [OF e]
  show ?thesis
  proof (cases x)
    case (Inl encErr)
    with assms pt e w1 show ?thesis by (auto simp: sendEncryptedBatch_def grows_def new_requests_def)
  next
    case payload: (Inr payload)
    obtain bid w2 where b: "gen_batchID E w1 = (bid, w2)" by fastforce
    have w2: "http_trace w2 = http_trace w" "redis_trace w2 = redis_trace w" "later w w2"
      using gen_batchID_world [OF b] w1 by (auto intro: later_trans)
    define envelope where "envelope = \<lparr>e_EncryptedPayload = payload, e_BatchID = bid, e_AgentVersion = Version,
        e_GuardVersion = GuardVersion (t_cfg t), e_GuardCoreVersion = GuardCoreVersion (t_cfg t)\<rparr>"
    show ?thesis
    proof (cases "jsonMarshal E (JEnvelope envelope)")
      case (Inl err)
      with assms pt e payload b w2 show ?thesis
        by (auto simp: sendEncryptedBatch_def envelope_def grows_def new_requests_def)
    next
      case raw: (Inr raw)
      obtain r3 t3 w3 where sb: "sendBatch E c encryptedPath raw True t w2 = (r3, t3, w3)"
        by (metis prod.collapse)
      then obtain as where g: "grows t w2 t3 w3"
        and n: "new_requests w2 w3 = map (Pair (batch_request E t encryptedPath raw)) as"
        and d: "batch_done E encryptedPath raw True t w2 r3 t3 w3 as" by (rule sendBatch_grows)
      have fin: "http_trace w' = http_trace w3 \<and> redis_trace w' = redis_trace w3 \<and> later w3 w' \<and> same_transport t3 t'"
        using assms pt e payload b raw sb
        by (auto simp: sendEncryptedBatch_def envelope_def [symmetric] same_transport_def bump_failed_def
            split: sum.splits option.splits prod.splits)
      have "grows t w t' w'" "new_requests w w' = new_requests w2 w3"
        using g fin w2 by (auto simp: grows_def new_requests_def intro: same_transport_trans later_trans)
      moreover have "enveloped E p events metrics t (new_requests w2 w3)"
        unfolding enveloped_def using pt e payload raw n d
        by (intro exI [of _ plaintext] exI [of _ w] exI [of _ envelope] exI [of _ raw] exI [of _ as])
           (simp add: envelope_def batch_done_def)
      ultimately show ?thesis by simp
    qed
  qed
qed

lemma sendItems_encrypted:
  assumes "sendItems E c K items t w = (r, t', w')" "encryptor t = Some p"
  shows "grows t w t' w' \<and> (new_requests w w' = []
    \<or> enveloped E p (fst (bk_encrypted K items)) (snd (bk_encrypted K items)) t (new_requests w w'))"
proof (cases "items = []")
  case True
  with assms(1) show ?thesis by (auto simp: sendItems.simps)
next
  case False
  with assms have "sendEncryptedBatch E c p (fst (bk_encrypted K items)) (snd (bk_encrypted K items)) t w = (r, t', w')"
    by (simp add: sendItems.simps split_beta)
  then show ?thesis by (rule sendEncryptedBatch_trace)
qed

lemma sendItems_grows: "sendItems E c K items t w = (r, t', w') \<Longrightarrow> grows t w t' w'"
  using sendItems_encrypted [of E c K items t w r t' w'] sendItems_ok [of E c K items t w r t' w']
  by (cases "encryptor t"; cases "items = []") (auto simp: sent_ok_def sendItems.simps [of E c K "[]"])

text \<open>C15. Sending n items makes at most (2n-1) * (RetryAttempts + 1) requests, however often the server
  answers 413; an encrypted batch is never split and makes at most RetryAttempts + 1.\<close>

theorem sendItems_budget:
  assumes "sendItems E c K items t w = (r, t', w')" and "items \<noteq> []" and "0 \<le> RetryAttempts (t_cfg t)"
  shows "int (length (new_requests w w')) \<le>
    (if encryptor t = None then 2 * int (length items) - 1 else 1) * (RetryAttempts (t_cfg t) + 1)"
proof (cases "encryptor t")
  case None
  from sendItems_ok [OF assms(1) None assms(2)] assms(3) None show ?thesis
    by (simp add: sent_ok_def budget_def)
next
  case (Some p)
  from sendItems_encrypted [OF assms(1) Some] assms(3) Some show ?thesis by (auto simp: enveloped_def)
qed

theorem sendItems_budget_witness:
  "\<exists>w'. snd (snd (sendItems calm Background event_batches [sample_event] sample_transport start)) = w'
     \<and> length (new_requests start w') \<le> 4"
proof -
  obtain t' w' where s: "sendItems calm Background event_batches [sample_event] sample_transport start
      = (Inr (outcomeAccepted, None), t', w')" by (rule sample_send_obtains)
  from sendItems_budget [OF s] s show ?thesis by (simp add: sample_simps)
qed

text \<open>C16. With a project key nothing goes out in clear: every request of a send is a POST of an encrypted
  envelope to the encrypted path, whose payload is the AES-GCM ciphertext of the canonical items.\<close>

theorem sendItems_no_plaintext:
  assumes "sendItems E c K items t w = (r, t', w')" and "encryptor t = Some p"
    and "(rq, a) \<in> set (new_requests w w')"
  shows "\<exists>plaintext w1 envelope raw.
    canonicalItemsJSON E (fst (bk_encrypted K items)) (snd (bk_encrypted K items)) = Inr plaintext
    \<and> fst (Encrypt E p plaintext [] w1) = Inr (e_EncryptedPayload envelope)
    \<and> jsonMarshal E (JEnvelope envelope) = Inr raw \<and> rq = batch_request E t encryptedPath raw"
proof -
  have "enveloped E p (fst (bk_encrypted K items)) (snd (bk_encrypted K items)) t (new_requests w w')"
    using sendItems_encrypted [OF assms(1,2)] assms(3) by auto
  then obtain plaintext w1 envelope raw as where
    "canonicalItemsJSON E (fst (bk_encrypted K items)) (snd (bk_encrypted K items)) = Inr plaintext"
    "fst (Encrypt E p plaintext [] w1) = Inr (e_EncryptedPayload envelope)"
    "jsonMarshal E (JEnvelope envelope) = Inr raw"
    "new_requests w w' = map (Pair (batch_request E t encryptedPath raw)) as"
    unfolding enveloped_def by blast
  with assms(3) show ?thesis by (intro exI conjI) auto
qed

lemma sample_encrypted:
  "length (new_requests start (snd (snd (sendItems calm Background event_batches [sample_event]
     (sample_transport\<lparr>encryptor := Some \<lparr>aead = ''k''\<rparr>\<rparr>) start)))) = 1"
  by (simp add: sendItems.simps sample_simps gen_batchID_def now_def Let_def new_requests_def
     gen_randomHex_def calm_def start_def willCompress_def sendBatch_def sendEncryptedBatch_def
     canonicalItemsJSON_def event_batches_def Encrypt_def
     encodeBody_def sendLoop.simps sendAttempt_def limiterGate_def Acquire_def pruneLocked_def newRateLimiter_def
     Admit_def newCircuitBreaker_def client_Do_def after_request_def on_response_def evaluateBatchResponse_def)

theorem sendItems_no_plaintext_witness:
  "\<exists>t w' rq a raw. encryptor t \<noteq> None
     \<and> (rq, a) \<in> set (new_requests start w') \<and> rq = batch_request calm t encryptedPath raw"
proof -
  let ?t = "sample_transport\<lparr>encryptor := Some \<lparr>aead = ''k''\<rparr>\<rparr>"
  obtain r t' w' where s: "sendItems calm Background event_batches [sample_event] ?t start = (r, t', w')"
    by (metis prod.collapse)
  then have "length (new_requests start w') = 1" using sample_encrypted by simp
  then obtain rq a where m: "(rq, a) \<in> set (new_requests start w')"
    by (cases "new_requests start w'") auto
  have "encryptor ?t = Some \<lparr>aead = ''k''\<rparr>" by simp
  from sendItems_no_plaintext [OF s this m] m this show ?thesis by (metis option.distinct(1))
qed

text \<open>Without a key, every body of a send is the JSON of a batch all of whose events and metrics are
  redacted under the configured header list, also where the batch was split or retried.\<close>

theorem sendItems_redacted:
  assumes "sendItems E c K items t w = (r, t', w')" and "encryptor t = None"
    and "(rq, a) \<in> set (new_requests w w')"
  shows "\<exists>b raw. jsonMarshal E (JBatch b) = Inr raw \<and> rq = batch_request E t (bk_path K) raw
    \<and> list_all (event_redacted E (normalizeSensitiveHeaders E (Some (sensitive (t_cfg t))))) (b_Events b)
    \<and> list_all (metric_redacted E (normalizeSensitiveHeaders E (Some (sensitive (t_cfg t))))) (b_Metrics b)"
proof -
  have "items \<noteq> []" using assms(1,3) by (auto simp: sendItems.simps)
  with assms sendItems_ok have "list_all (plain_request E K t) (new_requests w w')"
    unfolding sent_ok_def by blast
  with assms(3) obtain b raw where m: "marshalBatch E t b = Inr raw" "rq = batch_request E t (bk_path K) raw"
    by (auto simp: list_all_iff plain_request_def)
  let ?b = "redactBatch E b (sensitive (t_cfg t))"
  have "jsonMarshal E (JBatch ?b) = Inr raw \<or> jsonMarshal E (JBatch (?b\<lparr>b_Compressed := True\<rparr>)) = Inr raw"
    using m(1) by (auto simp: marshalBatch_def Let_def split: sum.splits if_splits)
  then obtain b' where b': "jsonMarshal E (JBatch b') = Inr raw" "b_Events b' = b_Events ?b" "b_Metrics b' = b_Metrics ?b"
    by fastforce
  have "list_all (event_redacted E (normalizeSensitiveHeaders E (Some (sensitive (t_cfg t))))) (b_Events b')"
    "list_all (metric_redacted E (normalizeSensitiveHeaders E (Some (sensitive (t_cfg t))))) (b_Metrics b')"
    using redactBatch_redacted [of E "sensitive (t_cfg t)" b] by (simp_all add: b')
  with b'(1) m(2) show ?thesis by blast
qed

theorem sendItems_redacted_witness:
  "\<exists>w' rq a b raw. (rq, a) \<in> set (new_requests start w')
     \<and> rq = batch_request calm sample_transport eventsPath raw \<and> jsonMarshal calm (JBatch b) = Inr raw"
proof -
  obtain t' w' rq a where s: "sendItems calm Background event_batches [sample_event] sample_transport start
      = (Inr (outcomeAccepted, None), t', w')" and m: "(rq, a) \<in> set (new_requests start w')"
    by (rule sample_send_obtains)
  from sendItems_redacted [OF s sample_plain m] m show ?thesis
    by (auto simp: event_batches_def)
qed

end
