(* ===== verification/Persist.thy ===== *)
theory Persist
  imports Config
begin

text \<open>
  persistence.go: the keys of persisted records, the write path with its cooldown, deletion and the
  startup scan. The Redis server is the environment's \<open>redis_Set\<close>, \<open>redis_Scan\<close> and \<open>redis_Get\<close>; the
  write and delete commands issued are recorded in \<open>redis_trace\<close>.
\<close>

section \<open>State and operations\<close>

abbreviation persistNamespaceEvents :: gostring where "persistNamespaceEvents \<equiv> ''agent_events''"
abbreviation persistNamespaceMetrics :: gostring where "persistNamespaceMetrics \<equiv> ''agent_metrics''"
abbreviation redisMaxConsecutiveFailures :: int where "redisMaxConsecutiveFailures \<equiv> 3"
abbreviation redisFailureCooldown :: duration where "redisFailureCooldown \<equiv> 30 * Second"

record persistence =
  p_prefix :: gostring
  p_ttl :: duration
  consecutiveFailures :: int
  cooldownUntil :: gotime
  p_failures :: counter

definition newPersistence :: "env \<Rightarrow> RedisConfig \<Rightarrow> gostring + persistence" where
  "newPersistence E cfg = (case redis_ParseURL E (URL cfg) of Some err \<Rightarrow> Inl err
     | None \<Rightarrow> Inr \<lparr>p_prefix = Prefix cfg, p_ttl = redis_TTL cfg, consecutiveFailures = 0,
         cooldownUntil = 0, p_failures = 0\<rparr>)"

definition short_text :: "gostring \<Rightarrow> int \<Rightarrow> gostring \<Rightarrow> gostring" where
  "short_text kind nanos hex = kind @ ''_'' @ Itoa nanos @ ''_'' @ hex"

definition shortKey :: "env \<Rightarrow> gostring \<Rightarrow> world \<Rightarrow> gostring \<times> world" where
  "shortKey E kind w = (case now E w of (tm, w1) \<Rightarrow> case gen_randomHex E 4 w1 of (hex, w2) \<Rightarrow>
     (short_text kind (UnixNano tm) hex, w2))"

definition fullKey :: "persistence \<Rightarrow> gostring \<Rightarrow> gostring \<Rightarrow> gostring" where
  "fullKey p namespace short = p_prefix p @ '':'' @ namespace @ '':'' @ short"

definition shortOf :: "gostring \<Rightarrow> gostring" where
  "shortOf full = (if CHR '':'' \<in> set full then after_last (CHR '':'') full else full)"

definition storeAvailable :: "env \<Rightarrow> persistence \<Rightarrow> world \<Rightarrow> bool \<times> world" where
  "storeAvailable E p w = (case now E w of (tm, w1) \<Rightarrow> (\<not> tm < cooldownUntil p, w1))"

definition redis_write :: "env \<Rightarrow> redis_cmd \<Rightarrow> world \<Rightarrow> world" where
  "redis_write E cmd w = (observe E w)\<lparr>redis_trace := redis_trace w @ [cmd]\<rparr>"

definition store :: "env \<Rightarrow> persistence \<Rightarrow> gostring \<Rightarrow> gostring \<Rightarrow> world \<Rightarrow> bool \<times> persistence \<times> world" where
  "store E p key val w =
    (case storeAvailable E p w of (avail, w1) \<Rightarrow>
     if \<not> avail then (False, p, w1)
     else let err = redis_Set E (tick w1) key val (p_ttl p);
              w2 = redis_write E (RSet key val (p_ttl p) err) w1 in
       if err = None then (True, p\<lparr>consecutiveFailures := 0\<rparr>, w2)
       else let p1 = p\<lparr>p_failures := p_failures p + 1, consecutiveFailures := consecutiveFailures p + 1\<rparr> in
         if consecutiveFailures p1 \<ge> redisMaxConsecutiveFailures
         then (case now E w2 of (tm, w3) \<Rightarrow>
           (False, p1\<lparr>cooldownUntil := tm + redisFailureCooldown, consecutiveFailures := 0\<rparr>, w3))
         else (False, p1, w2))"

definition del :: "env \<Rightarrow> gostring list \<Rightarrow> world \<Rightarrow> world" where
  "del E keys w = (if keys = [] then w else redis_write E (RDel keys) w)"

record persistedItem =
  Short :: gostring
  Value :: gostring

text \<open>
  The scan runs under a context with a timeout of five seconds: a command issued after the deadline
  fails with the context's error, whatever the server would say. The scan asks for one page after the
  other until the server returns cursor 0; it need not end when no time passes, which is the value
  None.
\<close>

abbreviation scanTimeout :: duration where "scanTimeout \<equiv> 5 * Second"

definition deadline_error :: gostring where
  "deadline_error = ctx_reason_text DeadlineExceeded"

partial_function (option) scan_loop :: "env \<Rightarrow> gotime \<Rightarrow> gostring \<Rightarrow> gostring list \<Rightarrow> nat \<Rightarrow> world
    \<Rightarrow> ((gostring + gostring list) \<times> world) option" where
  "scan_loop E deadline pattern shorts cursor w =
    (if deadline \<le> clock w then Some (Inl deadline_error, observe E w)
     else case redis_Scan E (tick w) cursor pattern of
       Inl err \<Rightarrow> Some (Inl err, observe E w)
     | Inr (page, nxt) \<Rightarrow> if nxt = 0 then Some (Inr (shorts @ page), observe E w)
         else scan_loop E deadline pattern (shorts @ page) nxt (observe E w))"

fun get_items :: "env \<Rightarrow> gotime \<Rightarrow> gostring list \<Rightarrow> world \<Rightarrow> (gostring + persistedItem list) \<times> world" where
  "get_items E deadline [] w = (Inr [], w)"
| "get_items E deadline (full # rest) w = (let w1 = observe E w in
     case (if deadline \<le> clock w then RErr deadline_error else redis_Get E (tick w) full) of
       RNil \<Rightarrow> get_items E deadline rest w1
     | RErr err \<Rightarrow> (Inl err, w1)
     | RVal val \<Rightarrow> (case get_items E deadline rest w1 of
           (Inl err, w2) \<Rightarrow> (Inl err, w2)
         | (Inr items, w2) \<Rightarrow> (Inr (\<lparr>Short = shortOf full, Value = val\<rparr> # items), w2)))"

definition loadKind :: "env \<Rightarrow> persistence \<Rightarrow> gostring \<Rightarrow> world
    \<Rightarrow> ((gostring + persistedItem list) \<times> world) option" where
  "loadKind E p namespace w =
    (case now E w of (tm, w0) \<Rightarrow>
     let deadline = tm + scanTimeout in
     case scan_loop E deadline (p_prefix p @ '':'' @ namespace @ '':*'') [] 0 w0 of
       None \<Rightarrow> None
     | Some (Inl err, w1) \<Rightarrow> Some (Inl err, w1)
     | Some (Inr shorts, w1) \<Rightarrow> Some (get_items E deadline (sort shorts) w1))"

text \<open>A state for the closed examples.\<close>

definition sample_persistence :: persistence where
  "sample_persistence = \<lparr>p_prefix = ''guard:agent'', p_ttl = 3600 * Second, consecutiveFailures = 0,
     cooldownUntil = 0, p_failures = 0\<rparr>"

section \<open>Keys\<close>

text \<open>
  The interface of the key space: a short key without the separator comes back from its full key, and
  full keys of different namespaces or short keys differ.
\<close>

locale key_space =
  fixes full :: "gostring \<Rightarrow> gostring \<Rightarrow> gostring"
    and short :: "gostring \<Rightarrow> gostring"
    and ok :: "gostring \<Rightarrow> bool"
  assumes short_full: "ok s \<Longrightarrow> short (full n s) = s"
    and full_namespace: "full n s = full n' s \<Longrightarrow> n = n'"
begin

lemma full_inject: "ok s \<Longrightarrow> ok s' \<Longrightarrow> full n s = full n' s' \<longleftrightarrow> n = n' \<and> s = s'"
  by (metis short_full full_namespace)

lemma reload_same: "ok s \<Longrightarrow> full n (short (full n s)) = full n s"
  by (simp add: short_full)

lemma full_inj: "inj_on (full n) {s. ok s}"
  by (auto intro!: inj_onI simp: full_inject)

end

definition colon_free :: "gostring \<Rightarrow> bool" where
  "colon_free s \<longleftrightarrow> CHR '':'' \<notin> set s"

interpretation keys: key_space "fullKey p" shortOf colon_free for p
proof
  show "shortOf (fullKey p n s) = s" if "colon_free s" for s n
    using that after_last_append [of "CHR '':''" s "p_prefix p @ '':'' @ n"]
    by (simp add: shortOf_def fullKey_def colon_free_def)
  show "n = n'" if "fullKey p n s = fullKey p n' s" for n n' s
    using that by (simp add: fullKey_def)
qed

lemma Itoa_colon_free: "colon_free (Itoa n)"
proof -
  have "CHR '':'' \<notin> set (show_nat m)" for m
    using show_nat_digits [of m] by (auto simp: list_all_iff is_digit_def byte_in_def)
  then show ?thesis by (simp add: colon_free_def Itoa_def)
qed

lemma hex_digit_colon: "d < 16 \<Longrightarrow> hex_digit d \<noteq> CHR '':''"
  using hex_lower_digit [of d] by (auto simp: hex_lower_def byte_in_def)

lemma hexEncode_colon_free: "colon_free (hexEncode bs)"
proof (induction bs)
  case (Cons b bs)
  have "code b mod 16 < (16::nat)" by simp
  with Cons hex_digit_colon [of "code b div 16"] hex_digit_colon [of "code b mod 16"] show ?case
    by (auto simp: colon_free_def)
qed (simp add: colon_free_def)

lemma show_hex_colon_free: "colon_free (show_hex n)"
proof (induction n rule: show_hex.induct)
  case (1 n)
  have m: "n mod 16 < 16" by simp
  show ?case
  proof (cases "n < 16")
    case True
    with hex_digit_colon [of n] show ?thesis by (subst show_hex.simps) (auto simp: colon_free_def)
  next
    case False
    with 1 hex_digit_colon [OF m] show ?thesis by (subst show_hex.simps) (auto simp: colon_free_def)
  qed
qed

lemma randomHex_colon_free: "colon_free (randomHex r n c)"
  using hexEncode_colon_free show_hex_colon_free
  by (auto simp: randomHex_def pad_hex_def colon_free_def Let_def split: option.split)

lemma shortKey_colon_free: "colon_free kind \<Longrightarrow> colon_free (fst (shortKey E kind w))"
proof -
  assume k: "colon_free kind"
  have "colon_free (fst (gen_randomHex E 4 w1))" for w1
    by (simp add: gen_randomHex_def Let_def randomHex_colon_free split: option.split)
  then have "\<exists>nanos hex. fst (shortKey E kind w) = short_text kind nanos hex \<and> colon_free hex"
    by (auto simp: shortKey_def split_beta)
  with k Itoa_colon_free show ?thesis by (auto simp: short_text_def colon_free_def)
qed

text \<open>The key under which a record was persisted is found again from the short part that a reload
  keeps of it, and the events and metrics namespaces never share a key.\<close>

theorem persist_key_roundtrip:
  assumes "colon_free kind"
  shows "fullKey p ns (shortOf (fullKey p ns (fst (shortKey E kind w)))) = fullKey p ns (fst (shortKey E kind w))
    \<and> (\<forall>E' kind' w'. colon_free kind' \<longrightarrow>
        fullKey p persistNamespaceEvents (fst (shortKey E kind w))
          \<noteq> fullKey p persistNamespaceMetrics (fst (shortKey E' kind' w')))"
  using keys.reload_same [OF shortKey_colon_free [OF assms]]
    keys.full_inject [OF shortKey_colon_free [OF assms] shortKey_colon_free]
  by auto

theorem persist_key_roundtrip_witness:
  "colon_free ''event''
   \<and> fullKey sample_persistence ''ns'' (shortOf (fullKey sample_persistence ''ns'' (fst (shortKey calm ''event'' start))))
     = fullKey sample_persistence ''ns'' (fst (shortKey calm ''event'' start))"
proof -
  have "colon_free ''event''" by (simp add: colon_free_def)
  with persist_key_roundtrip [OF this] show ?thesis by blast
qed

text \<open>What a load returns carries short keys without the separator.\<close>

lemma shortOf_colon_free: "colon_free (shortOf full)"
  using set_takeWhileD [of "CHR '':''" "(\<noteq>) (CHR '':'')" "rev full"]
  by (auto simp: shortOf_def colon_free_def after_last_def)

lemma get_items_short:
  "get_items E deadline fulls w = (Inr its, w') \<Longrightarrow> \<forall>it \<in> set its. colon_free (Short it)"
  by (induction fulls arbitrary: w its w')
     (auto simp: Let_def shortOf_colon_free split: redis_get.splits sum.splits prod.splits if_splits)

lemma loadKind_short:
  assumes "loadKind E p ns w = Some (Inr its, w')"
  shows "\<forall>it \<in> set its. colon_free (Short it)"
  using assms by (auto simp: loadKind_def Let_def split_beta split: option.splits sum.splits)
    (metis prod.collapse get_items_short)

section \<open>Chronological order\<close>

lemma char_less_iff: "c < d \<longleftrightarrow> code c < (code d :: nat)"
  by (simp add: less_char_def)

lemma show_nat_length: "length (show_nat m) = length (show_nat n) \<Longrightarrow> 10 \<le> m \<Longrightarrow> 10 \<le> n
  \<Longrightarrow> length (show_nat (m div 10)) = length (show_nat (n div 10))"
  by (simp add: show_nat.simps [of m] show_nat.simps [of n])

lemma show_nat_less: "m < n \<Longrightarrow> length (show_nat m) = length (show_nat n) \<Longrightarrow> show_nat m < show_nat n"
proof (induction n arbitrary: m rule: show_nat.induct)
  case (1 n)
  have one: "length (show_nat k) = 1 \<longleftrightarrow> k < 10" for k
    using show_nat_digits [of "k div 10"] by (simp add: show_nat.simps [of k])
  show ?case
  proof (cases "n < 10")
    case True
    then have "m < 10" "n < 10" using "1.prems" by auto
    then show ?thesis using "1.prems"(1) by (simp add: show_nat.simps char_less_iff)
  next
    case False
    then have m: "\<not> m < 10" using "1.prems"(2) one [of m] one [of n] by auto
    have sm: "show_nat m = show_nat (m div 10) @ [char_of (48 + m mod 10)]"
      and sn: "show_nat n = show_nat (n div 10) @ [char_of (48 + n mod 10)]"
      using m False by (simp_all add: show_nat.simps [of m] show_nat.simps [of n])
    have len: "length (show_nat (m div 10)) = length (show_nat (n div 10))" using "1.prems"(2) sm sn by simp
    show ?thesis
    proof (cases "m div 10 = n div 10")
      case True
      have "m = m div 10 * 10 + m mod 10" "n = n div 10 * 10 + n mod 10" by simp_all
      with True "1.prems"(1) have "m mod 10 < n mod 10" by linarith
      then have "char_of (48 + m mod 10) < (char_of (48 + n mod 10) :: char)"
        by (simp add: char_less_iff)
      then show ?thesis unfolding sm sn True list_less_def
        by (intro lexord_append_leftI) simp
    next
      case False
      then have "m div 10 < n div 10" using "1.prems"(1) by (simp add: div_le_mono le_neq_implies_less)
      with "1.IH" [OF \<open>\<not> n < 10\<close> this len] len show ?thesis
        unfolding sm sn list_less_def by (intro lexord_sufI) auto
    qed
  qed
qed

text \<open>The keys of records persisted later sort after those persisted earlier, as long as the Unix time
  in nanoseconds has the same number of digits; so the sorted scan of a reload is chronological.\<close>

theorem shortKey_chronological:
  assumes "0 \<le> t1" "t1 < t2" "length (Itoa t1) = length (Itoa t2)"
  shows "fullKey p ns (short_text kind t1 h1) < fullKey p ns (short_text kind t2 h2)"
proof -
  have "show_nat (nat t1) < show_nat (nat t2)"
    using assms by (intro show_nat_less) (auto simp: Itoa_def)
  then have "(Itoa t1, Itoa t2) \<in> lexord {(u, v). u < v}"
    using assms(1,2) by (simp add: Itoa_def list_less_def)
  then have "(Itoa t1 @ ''_'' @ h1, Itoa t2 @ ''_'' @ h2) \<in> lexord {(u, v). u < v}"
    by (rule lexord_sufI) (simp add: assms(3))
  then show ?thesis
    unfolding fullKey_def short_text_def list_less_def
    by (intro lexord_append_leftI)
qed

theorem shortKey_chronological_witness:
  "fullKey sample_persistence ''ns'' (short_text ''event'' 1700000000000000000 ''aa'')
     < fullKey sample_persistence ''ns'' (short_text ''event'' 1700000000000000001 ''00'')"
  using shortKey_chronological [of 1700000000000000000 1700000000000000001 sample_persistence "''ns''"
      "''event''" "''aa''" "''00''"]
  by (simp add: Itoa_def show_nat.simps)

section \<open>The write path\<close>

text \<open>Writes allowed by the failure count, with the cooldown when it is used up.\<close>

definition store_inv :: "persistence \<Rightarrow> bool" where
  "store_inv p \<longleftrightarrow> 0 \<le> consecutiveFailures p \<and> consecutiveFailures p < redisMaxConsecutiveFailures"

lemma store_cases:
  assumes "store E p key val w = (ok, p', w')"
  obtains (paused) "clock (observe E w) < cooldownUntil p" "\<not> ok" "p' = p" "w' = observe E w"
  | (stored) "cooldownUntil p \<le> clock (observe E w)" "ok" "p' = p\<lparr>consecutiveFailures := 0\<rparr>"
      "redis_trace w' = redis_trace w @ [RSet key val (p_ttl p) None]"
  | (failed) err where "cooldownUntil p \<le> clock (observe E w)" "\<not> ok" "consecutiveFailures p + 1 < redisMaxConsecutiveFailures"
      "p' = p\<lparr>p_failures := p_failures p + 1, consecutiveFailures := consecutiveFailures p + 1\<rparr>"
      "redis_trace w' = redis_trace w @ [RSet key val (p_ttl p) (Some err)]"
  | (tripped) err where "cooldownUntil p \<le> clock (observe E w)" "\<not> ok" "redisMaxConsecutiveFailures \<le> consecutiveFailures p + 1"
      "p' = p\<lparr>p_failures := p_failures p + 1, consecutiveFailures := 0,
         cooldownUntil := clock w' + redisFailureCooldown\<rparr>"
      "redis_trace w' = redis_trace w @ [RSet key val (p_ttl p) (Some err)]"
  using assms
  by (auto simp: store_def storeAvailable_def now_def redis_write_def Let_def split: if_splits)

text \<open>The write path: a store reports success only after a write command with the record and its TTL;
  the third failure in a row starts a pause of 30 seconds, and while the pause lasts a store sends
  nothing and changes nothing, so a broken Redis costs at most three attempts per pause.\<close>

theorem store_cooldown:
  assumes "store E p key val w = (ok, p', w')" and "store_inv p"
  shows "store_inv p'
    \<and> (ok \<longrightarrow> RSet key val (p_ttl p) None \<in> set (redis_trace w') \<and> consecutiveFailures p' = 0)
    \<and> (clock (observe E w) < cooldownUntil p \<longrightarrow> \<not> ok \<and> p' = p \<and> redis_trace w' = redis_trace w)
    \<and> (\<not> ok \<and> cooldownUntil p \<le> clock (observe E w) \<longrightarrow> p_failures p' = p_failures p + 1
        \<and> (if consecutiveFailures p = 2 then cooldownUntil p' = clock w' + 30 * Second
           else consecutiveFailures p' = consecutiveFailures p + 1))"
  using assms(1) assms(2) by (cases rule: store_cases) (auto simp: store_inv_def)

theorem store_cooldown_witness:
  "\<exists>ok p' w'. store calm sample_persistence ''k'' ''v'' start = (ok, p', w') \<and> store_inv p'"
proof -
  obtain ok p' w' where s: "store calm sample_persistence ''k'' ''v'' start = (ok, p', w')"
    by (metis prod.collapse)
  have "store_inv sample_persistence" by (simp add: store_inv_def sample_persistence_def)
  from store_cooldown [OF s this] s show ?thesis by blast
qed

section \<open>The startup scan\<close>

text \<open>An outside in which every observation takes time.\<close>

definition timely :: "env \<Rightarrow> bool" where
  "timely E \<longleftrightarrow> (\<forall>t. 0 < elapsed E t)"

lemma scan_loop_ends:
  assumes "timely E"
  shows "\<exists>r w'. scan_loop E deadline pattern shorts cursor w = Some (r, w')"
proof (induction "nat (deadline - clock w)" arbitrary: shorts cursor w rule: less_induct)
  case less
  show ?case
  proof (cases "deadline \<le> clock w")
    case True
    then show ?thesis by (simp add: scan_loop.simps)
  next
    case False
    have "clock w < clock (observe E w)" using assms by (simp add: timely_def)
    with False have "nat (deadline - clock (observe E w)) < nat (deadline - clock w)" by simp
    from less [OF this] False show ?thesis
      by (subst scan_loop.simps) (auto split: sum.split prod.split)
  qed
qed

lemma loadKind_ends: "timely E \<Longrightarrow> \<exists>r. loadKind E p namespace w = Some r"
  using scan_loop_ends [of E "fst (now E w) + scanTimeout" "p_prefix p @ '':'' @ namespace @ '':*''" "[]" 0 "snd (now E w)"]
  by (auto simp: loadKind_def Let_def split_beta split: sum.split)

lemma scan_loop_redis:
  assumes "scan_loop E deadline pattern shorts cursor w = Some y"
  shows "redis_trace (snd y) = redis_trace w"
proof (rule scan_loop.raw_induct [OF _ assms, where P = "\<lambda>E d p ss c w y. redis_trace (snd y) = redis_trace w"])
  fix f E d p ss c w y
  assume IH: "\<And>E d p ss c w y. f E d p ss c w = Some y \<Longrightarrow> redis_trace (snd y) = redis_trace w"
    and "(if d \<le> clock w then Some (Inl deadline_error, observe E w)
      else case redis_Scan E (tick w) c p of
         Inl err \<Rightarrow> Some (Inl err, observe E w)
       | Inr (page, nxt) \<Rightarrow> if nxt = 0 then Some (Inr (ss @ page), observe E w)
           else f E d p (ss @ page) nxt (observe E w)) = Some y"
  then show "redis_trace (snd y) = redis_trace w"
    by (auto split: if_splits sum.splits prod.splits dest!: IH)
qed

lemma get_items_redis: "redis_trace (snd (get_items E deadline fulls w)) = redis_trace w"
  by (induction E deadline fulls w rule: get_items.induct)
     (auto simp: Let_def split: redis_get.split sum.split prod.split)

lemma loadKind_redis: "loadKind E p namespace w = Some (r, w') \<Longrightarrow> redis_trace w' = redis_trace w"
  by (auto simp: loadKind_def Let_def split_beta split: option.splits sum.splits dest!: scan_loop_redis)
     (metis get_items_redis snd_conv)

end
