(* ===== verification/Buffer.thy ===== *)
theory Buffer
  imports Batches Persist
begin

text \<open>
  The buffers of agent.go: enqueueing under the three overflow policies, draining, and the settlement
  of a drained batch. The agent's fields for events and metrics are two \<open>kstate\<close> records; the code's
  two copies of every buffer operation are one definition over a \<open>kind\<close>, the record of what the copies
  differ in. An operation that holds the agent's mutex from beginning to end is one definition, so
  that interleavings can be built from them (theory Delivery).
\<close>

section \<open>The agent's state\<close>

text \<open>\<open>bufferedEvent\<close> and \<open>bufferedMetric\<close>.\<close>

record 'a buffered =
  payload :: 'a
  key :: gostring

text \<open>
  \<open>events\<close>, \<open>eventsBuffered\<close>, \<open>eventsFlushed\<close>, \<open>eventsSent\<close>, \<open>eventsFailed\<close>, \<open>eventsDropped\<close>, \<open>eventStreak\<close>
  and \<open>eventGate\<close>; for metrics likewise.
\<close>

record 'a kstate =
  items :: "'a buffered list"
  buffered :: counter
  flushed :: counter
  sent_count :: counter
  failed :: counter
  dropped :: counter
  streak :: int
  gate :: gotime

text \<open>
  The agent. A channel of capacity one that only signals is a boolean; \<open>confirmCh\<close> is the queue of
  pending deletions and \<open>confirmClosed\<close> that \<open>Stop\<close> closed it.
\<close>

record agent =
  cfg :: Config
  installID :: gostring
  persist :: "persistence option"
  tr :: transport
  events :: "SecurityEvent kstate"
  metrics :: "SecurityMetric kstate"
  redisPersistFailures :: counter
  statusSent :: counter
  statusFailed :: counter
  statusStreak :: int
  lastFlush :: gotime
  lastErrors :: "gostring list"
  rulesFetched :: counter
  cachedRules :: "DynamicRules option"
  rulesLastUpdate :: gotime
  started :: bool
  closed :: bool
  startedAt :: gotime
  loop_context :: "ctx option"
  flushWake :: bool
  flushSignal :: bool
  confirmCh :: "gostring list list"
  confirmClosed :: bool

text \<open>The agent that \<open>New\<close> builds.\<close>

definition empty_kstate :: "'a kstate" where
  "empty_kstate = \<lparr>items = [], buffered = 0, flushed = 0, sent_count = 0, failed = 0, dropped = 0,
     streak = 0, gate = 0\<rparr>"

definition new_agent :: "Config \<Rightarrow> gostring \<Rightarrow> persistence option \<Rightarrow> transport \<Rightarrow> agent" where
  "new_agent c ident p t = \<lparr>cfg = c, installID = ident, persist = p, tr = t, events = empty_kstate,
     metrics = empty_kstate, redisPersistFailures = 0, statusSent = 0, statusFailed = 0, statusStreak = 0,
     lastFlush = 0, lastErrors = [], rulesFetched = 0, cachedRules = None, rulesLastUpdate = 0,
     started = False, closed = False, startedAt = 0, loop_context = None, flushWake = False,
     flushSignal = False, confirmCh = [], confirmClosed = False\<rparr>"

text \<open>An agent for the closed examples.\<close>

definition sample_agent :: agent where
  "sample_agent = new_agent (t_cfg sample_transport) ''install'' None sample_transport"

abbreviation maxTrackedErrors :: nat where "maxTrackedErrors \<equiv> 10"
abbreviation confirmCapacity :: nat where "confirmCapacity \<equiv> 64"

definition recordErrorLocked :: "gostring \<Rightarrow> agent \<Rightarrow> agent" where
  "recordErrorLocked msg a = (let es = lastErrors a @ [msg] in
     a\<lparr>lastErrors := (if length es > maxTrackedErrors then last_n maxTrackedErrors es else es)\<rparr>)"

section \<open>The two kinds\<close>

record 'a kind =
  kd_get :: "agent \<Rightarrow> 'a kstate"
  kd_map :: "('a kstate \<Rightarrow> 'a kstate) \<Rightarrow> agent \<Rightarrow> agent"
  kd_enabled :: "Config \<Rightarrow> bool"
  kd_name :: gostring
  kd_namespace :: gostring
  kd_marshal :: "env \<Rightarrow> 'a \<Rightarrow> gostring + gostring"
  kd_unmarshal :: "env \<Rightarrow> gostring \<Rightarrow> gostring + 'a"
  kd_batches :: "'a batch_kind"
  kd_stage :: gostring

text \<open>The serialisation error of a metric is ignored by the code (\<open>data, _ := json.Marshal(m)\<close>).\<close>

definition event_kind :: "SecurityEvent kind" where
  "event_kind = \<lparr>kd_get = events, kd_map = (\<lambda>f a. a\<lparr>events := f (events a)\<rparr>), kd_enabled = EnableEvents,
     kd_name = ''event'', kd_namespace = persistNamespaceEvents,
     kd_marshal = (\<lambda>E ev. jsonMarshal E (JEvent ev)), kd_unmarshal = unmarshal_event,
     kd_batches = event_batches, kd_stage = StageFlushEvents\<rparr>"

definition metric_kind :: "SecurityMetric kind" where
  "metric_kind = \<lparr>kd_get = metrics, kd_map = (\<lambda>f a. a\<lparr>metrics := f (metrics a)\<rparr>), kd_enabled = EnableMetrics,
     kd_name = ''metric'', kd_namespace = persistNamespaceMetrics,
     kd_marshal = (\<lambda>E m. case jsonMarshal E (JMetric m) of Inl err \<Rightarrow> Inr [] | Inr data \<Rightarrow> Inr data),
     kd_unmarshal = unmarshal_metric, kd_batches = metric_batches, kd_stage = StageFlushMetrics\<rparr>"

section \<open>Enqueueing\<close>

definition combined :: "agent \<Rightarrow> int" where
  "combined a = int (length (items (events a)) + length (items (metrics a)))"

definition watermarkReachedLocked :: "agent \<Rightarrow> bool" where
  "watermarkReachedLocked a \<longleftrightarrow>
     f64_mul (f64_of_int (BufferSize (cfg a))) (HighWatermarkRatio (cfg a)) \<le> f64_of_int (combined a)"

definition persistItemLocked :: "env \<Rightarrow> gostring \<Rightarrow> gostring \<Rightarrow> gostring \<Rightarrow> persistence \<Rightarrow> agent \<Rightarrow> world
    \<Rightarrow> gostring \<times> agent \<times> world" where
  "persistItemLocked E namespace kind data p a w =
    (case shortKey E kind w of (short, w1) \<Rightarrow>
     let k = fullKey p namespace short in
     case store E p k data w1 of (ok, p1, w2) \<Rightarrow>
       let a1 = a\<lparr>persist := Some p1\<rparr> in
       if ok then (k, a1, w2)
       else ([], a1\<lparr>redisPersistFailures := redisPersistFailures a1 + 1\<rparr>, w2))"

definition reserveKeyLocked :: "env \<Rightarrow> 'a kind \<Rightarrow> 'a \<Rightarrow> agent \<Rightarrow> world \<Rightarrow> gostring \<times> agent \<times> world" where
  "reserveKeyLocked E K x a w =
    (case persist a of None \<Rightarrow> ([], a, w)
     | Some p \<Rightarrow> (case kd_marshal K E x of
         Inl err \<Rightarrow> ([], recordErrorLocked (kd_name K @ '' serialization for persistence failed: '' @ err)
           (a\<lparr>redisPersistFailures := redisPersistFailures a + 1\<rparr>), w)
       | Inr data \<Rightarrow> persistItemLocked E (kd_namespace K) (kd_name K) data p a w))"

definition appendLocked :: "env \<Rightarrow> 'a kind \<Rightarrow> 'a \<Rightarrow> agent \<Rightarrow> world \<Rightarrow> bool \<times> agent \<times> world" where
  "appendLocked E K x a w =
    (case reserveKeyLocked E K x a w of (k, a1, w1) \<Rightarrow>
     let a2 = kd_map K (\<lambda>s. s\<lparr>items := items s @ [\<lparr>payload = x, key = k\<rparr>], buffered := buffered s + 1\<rparr>) a1 in
     (watermarkReachedLocked a2, a2, w1))"

definition triggerFlush :: "agent \<Rightarrow> agent" where
  "triggerFlush a = a\<lparr>flushWake := True\<rparr>"

text \<open>
  \<open>confirmKeys\<close>: the keys go to the confirm worker, or are deleted here when its queue is full; sending
  on the closed channel panics, and the panic is recovered.
\<close>

definition confirmKeys :: "env \<Rightarrow> gostring list \<Rightarrow> agent \<Rightarrow> world \<Rightarrow> agent \<times> world" where
  "confirmKeys E keys a w =
    (if persist a = None \<or> keys = [] then (a, w)
     else if confirmClosed a then (a, w)
     else if length (confirmCh a) < confirmCapacity then (a\<lparr>confirmCh := confirmCh a @ [keys]\<rparr>, w)
     else (a, del E keys w))"

text \<open>The keys of the persisted ones among some buffered items.\<close>

definition nonempty_keys :: "'a buffered list \<Rightarrow> gostring list" where
  "nonempty_keys xs = filter (\<lambda>k. k \<noteq> []) (map key xs)"

text \<open>
  One pass of the loop of \<open>enqueueEvent\<close>: the item is in the buffer, or refused, or the caller has to
  wait for space (OverflowBlock) and try again; popping an empty buffer is a panic.
\<close>

datatype enq = Enqueued | Refused goerror | MustWait | EnqPanic

definition enqueue_locked :: "env \<Rightarrow> 'a kind \<Rightarrow> 'a \<Rightarrow> agent \<Rightarrow> world
    \<Rightarrow> (enq \<times> bool \<times> gostring list) \<times> agent \<times> world" where
  "enqueue_locked E K x a w =
    (if int (length (items (kd_get K a))) < BufferSize (cfg a)
     then (case appendLocked E K x a w of (needFlush, a1, w1) \<Rightarrow> ((Enqueued, needFlush, []), a1, w1))
     else if Overflow (cfg a) = OverflowRaise
     then ((Refused (BufferFullError (kd_name K) (BufferSize (cfg a))), False, []), a, w)
     else if Overflow (cfg a) = OverflowDrop
     then (case items (kd_get K a) of [] \<Rightarrow> ((EnqPanic, False, []), a, w)
       | evicted # rest \<Rightarrow>
         (case appendLocked E K x (kd_map K (\<lambda>s. s\<lparr>items := rest, dropped := dropped s + 1\<rparr>) a) w of
           (needFlush, a1, w1) \<Rightarrow> ((Enqueued, needFlush, nonempty_keys [evicted]), a1, w1)))
     else ((MustWait, False, []), a, w))"

text \<open>What the loop does after the mutex: the evicted item's record is confirmed, a flusher woken.\<close>

definition enqueue :: "env \<Rightarrow> 'a kind \<Rightarrow> 'a \<Rightarrow> agent \<Rightarrow> world \<Rightarrow> enq \<times> agent \<times> world" where
  "enqueue E K x a w =
    (case enqueue_locked E K x a w of ((r, needFlush, evicted), a1, w1) \<Rightarrow>
     case confirmKeys E evicted a1 w1 of (a2, w2) \<Rightarrow>
       (r, if needFlush then triggerFlush a2 else a2, w2))"

text \<open>The waiting of OverflowBlock: the signal, or the poll interval, or the end of the caller's context.\<close>

abbreviation blockPollInterval :: duration where "blockPollInterval \<equiv> 500 * Millisecond"

definition block_wait :: "env \<Rightarrow> ctx \<Rightarrow> agent \<Rightarrow> world \<Rightarrow> goerror option \<times> agent \<times> world" where
  "block_wait E c a w = (let w1 = observe E w in
     if ctx_done c w1 \<and> \<not> (flushSignal a \<and> timer_wins E (tick w)) then (Some (CtxErr (reason c)), a, w1)
     else if flushSignal a then (None, a\<lparr>flushSignal := False\<rparr>, w1)
     else (None, a, w1\<lparr>clock := clock w1 + blockPollInterval\<rparr>))"

section \<open>Draining and settling\<close>

definition gateClosedLocked :: "env \<Rightarrow> gotime \<Rightarrow> world \<Rightarrow> bool \<times> world" where
  "gateClosedLocked E g w = (if isZero g then (False, w) else case now E w of (tm, w1) \<Rightarrow> (tm < g, w1))"

definition signalSpaceLocked :: "agent \<Rightarrow> agent" where
  "signalSpaceLocked a = a\<lparr>flushSignal := True\<rparr>"

text \<open>The locked part of \<open>flushEvents\<close>: None when there is nothing to do.\<close>

definition drain :: "env \<Rightarrow> 'a kind \<Rightarrow> bool \<Rightarrow> agent \<Rightarrow> world \<Rightarrow> 'a buffered list option \<times> agent \<times> world" where
  "drain E K force a w =
    (case (if force then (False, w) else gateClosedLocked E (gate (kd_get K a)) w) of (shut, w1) \<Rightarrow>
     if shut then (None, a, w1)
     else if items (kd_get K a) = [] then (None, a, w1)
     else let drained = items (kd_get K a);
              a1 = kd_map K (\<lambda>s. s\<lparr>items := [], flushed := flushed s + of_nat (length drained)\<rparr>) a in
       case now E w1 of (tm, w2) \<Rightarrow> (Some drained, signalSpaceLocked (a1\<lparr>lastFlush := tm\<rparr>), w2))"

text \<open>
  The requeue: the drained batch before what has been buffered meanwhile, cut at the buffer size from
  the end. The cut pops one item after the other, so that the orphaned keys come newest first.
\<close>

definition requeue_locked :: "'a kind \<Rightarrow> 'a buffered list \<Rightarrow> agent \<Rightarrow> gostring list \<times> agent" where
  "requeue_locked K drained a =
    (let merged = drained @ items (kd_get K a);
         n = nat (BufferSize (cfg a));
         cut = drop n merged;
         a1 = kd_map K (\<lambda>s. s\<lparr>items := take n merged, dropped := dropped s + of_nat (length cut)\<rparr>) a in
     (rev (nonempty_keys cut), signalSpaceLocked a1))"

definition requeue :: "env \<Rightarrow> 'a kind \<Rightarrow> 'a buffered list \<Rightarrow> agent \<Rightarrow> world \<Rightarrow> agent \<times> world" where
  "requeue E K drained a w = (case requeue_locked K drained a of (orphaned, a1) \<Rightarrow> confirmKeys E orphaned a1 w)"

abbreviation item_count :: "'a list \<Rightarrow> gostring \<times> hook_val" where
  "item_count xs \<equiv> (''item_count'', HInt (int (length xs)))"

definition settle_accepted :: "'a kind \<Rightarrow> nat \<Rightarrow> agent \<Rightarrow> agent" where
  "settle_accepted K n = kd_map K (\<lambda>s. s\<lparr>sent_count := sent_count s + of_nat n, streak := 0, gate := 0\<rparr>)"

definition settle_permanent :: "'a kind \<Rightarrow> nat \<Rightarrow> agent \<Rightarrow> agent" where
  "settle_permanent K n a = recordErrorLocked
     (Itoa (int n) @ '' '' @ kd_name K @ ''(s) permanently rejected by ingestion API'')
     (kd_map K (\<lambda>s. s\<lparr>sent_count := sent_count s + of_nat n\<rparr>) a)"

definition settle_failed :: "env \<Rightarrow> 'a kind \<Rightarrow> nat \<Rightarrow> agent \<Rightarrow> world \<Rightarrow> agent \<times> world" where
  "settle_failed E K n a w =
    (let a1 = kd_map K (\<lambda>s. s\<lparr>failed := failed s + of_nat n, streak := streak s + 1\<rparr>) a;
         delay = partialFailureBackoff (conv E) (streak (kd_get K a1)) (FlushInterval (cfg a)) in
     case now E w of (tm, w1) \<Rightarrow> (kd_map K (\<lambda>s. s\<lparr>gate := tm + delay\<rparr>) a1, w1))"

definition settle :: "env \<Rightarrow> 'a kind \<Rightarrow> 'a buffered list \<Rightarrow> sendOutcome \<Rightarrow> goerror option \<Rightarrow> agent \<Rightarrow> world
    \<Rightarrow> goerror option \<times> agent \<times> world" where
  "settle E K drained outcome err a w =
    (let n = length drained; keys = nonempty_keys drained in
     case outcome of
       outcomeAccepted \<Rightarrow> (case confirmKeys E keys a w of (a1, w1) \<Rightarrow> (None, settle_accepted K n a1, w1))
     | outcomePermanent \<Rightarrow> (case confirmKeys E keys a w of (a1, w1) \<Rightarrow>
         (None, settle_permanent K n a1, fireErrorHook (OnError (cfg a)) StageTransportSend err
            [(''data_type'', HStr (bk_type (kd_batches K))), item_count drained] w1))
     | _ \<Rightarrow> (case settle_failed E K n a w of (a1, w1) \<Rightarrow> case requeue E K drained a1 w1 of (a2, w2) \<Rightarrow>
         let e = (case err of None \<Rightarrow> Errorf (''guardagent: '' @ kd_name K @ '' flush failed'') | Some e \<Rightarrow> e) in
         (Some e, a2, fireErrorHook (OnError (cfg a)) (kd_stage K) (Some e)
            [(''batch_size'', HInt (int n))] w2)))"

text \<open>\<open>sendEventsSafely\<close>: a panic of the transport is a failed send.\<close>

definition sendSafely :: "env \<Rightarrow> ctx \<Rightarrow> 'a kind \<Rightarrow> 'a list \<Rightarrow> transport \<Rightarrow> world
    \<Rightarrow> (sendOutcome \<times> goerror option) \<times> transport \<times> world" where
  "sendSafely E c K xs t w = (case sendItems E c (kd_batches K) xs t w of
     (Inl v, t1, w1) \<Rightarrow> ((outcomeFailed, Some (Wrapf (Error (conv E) ErrInternal @ '' during '' @ kd_name K
        @ '' send: '' @ v) ErrInternal)), t1, w1)
   | (Inr r, t1, w1) \<Rightarrow> (r, t1, w1))"

definition flush_kind :: "env \<Rightarrow> 'a kind \<Rightarrow> ctx \<Rightarrow> bool \<Rightarrow> agent \<Rightarrow> world \<Rightarrow> goerror option \<times> agent \<times> world" where
  "flush_kind E K c force a w =
    (if \<not> kd_enabled K (cfg a) then (None, a, w)
     else case drain E K force a w of
       (None, a1, w1) \<Rightarrow> (None, a1, w1)
     | (Some drained, a1, w1) \<Rightarrow>
         (case sendSafely E c K (map payload drained) (tr a1) w1 of ((outcome, err), t1, w2) \<Rightarrow>
          settle E K drained outcome err (a1\<lparr>tr := t1\<rparr>) w2))"

definition flushEvents :: "env \<Rightarrow> ctx \<Rightarrow> bool \<Rightarrow> agent \<Rightarrow> world \<Rightarrow> goerror option \<times> agent \<times> world" where
  "flushEvents E = flush_kind E event_kind"

definition flushMetrics :: "env \<Rightarrow> ctx \<Rightarrow> bool \<Rightarrow> agent \<Rightarrow> world \<Rightarrow> goerror option \<times> agent \<times> world" where
  "flushMetrics E = flush_kind E metric_kind"

section \<open>The two copies\<close>

text \<open>The code's own names for the operations at the two kinds.\<close>

definition reserveEventKeyLocked :: "env \<Rightarrow> SecurityEvent \<Rightarrow> agent \<Rightarrow> world \<Rightarrow> gostring \<times> agent \<times> world" where
  "reserveEventKeyLocked E = reserveKeyLocked E event_kind"

definition reserveMetricKeyLocked :: "env \<Rightarrow> SecurityMetric \<Rightarrow> agent \<Rightarrow> world \<Rightarrow> gostring \<times> agent \<times> world" where
  "reserveMetricKeyLocked E = reserveKeyLocked E metric_kind"

definition appendEventLocked :: "env \<Rightarrow> SecurityEvent \<Rightarrow> agent \<Rightarrow> world \<Rightarrow> bool \<times> agent \<times> world" where
  "appendEventLocked E = appendLocked E event_kind"

definition appendMetricLocked :: "env \<Rightarrow> SecurityMetric \<Rightarrow> agent \<Rightarrow> world \<Rightarrow> bool \<times> agent \<times> world" where
  "appendMetricLocked E = appendLocked E metric_kind"

definition enqueueEvent :: "env \<Rightarrow> SecurityEvent \<Rightarrow> agent \<Rightarrow> world \<Rightarrow> enq \<times> agent \<times> world" where
  "enqueueEvent E = enqueue E event_kind"

definition enqueueMetric :: "env \<Rightarrow> SecurityMetric \<Rightarrow> agent \<Rightarrow> world \<Rightarrow> enq \<times> agent \<times> world" where
  "enqueueMetric E = enqueue E metric_kind"

definition requeueEvents :: "env \<Rightarrow> SecurityEvent buffered list \<Rightarrow> agent \<Rightarrow> world \<Rightarrow> agent \<times> world" where
  "requeueEvents E = requeue E event_kind"

definition requeueMetrics :: "env \<Rightarrow> SecurityMetric buffered list \<Rightarrow> agent \<Rightarrow> world \<Rightarrow> agent \<times> world" where
  "requeueMetrics E = requeue E metric_kind"

definition sendEventsSafely :: "env \<Rightarrow> ctx \<Rightarrow> SecurityEvent list \<Rightarrow> transport \<Rightarrow> world
    \<Rightarrow> (sendOutcome \<times> goerror option) \<times> transport \<times> world" where
  "sendEventsSafely E c = sendSafely E c event_kind"

definition sendMetricsSafely :: "env \<Rightarrow> ctx \<Rightarrow> SecurityMetric list \<Rightarrow> transport \<Rightarrow> world
    \<Rightarrow> (sendOutcome \<times> goerror option) \<times> transport \<times> world" where
  "sendMetricsSafely E c = sendSafely E c metric_kind"

definition settleEvents :: "env \<Rightarrow> SecurityEvent buffered list \<Rightarrow> sendOutcome \<Rightarrow> goerror option \<Rightarrow> agent \<Rightarrow> world
    \<Rightarrow> goerror option \<times> agent \<times> world" where
  "settleEvents E = settle E event_kind"

definition settleMetrics :: "env \<Rightarrow> SecurityMetric buffered list \<Rightarrow> sendOutcome \<Rightarrow> goerror option \<Rightarrow> agent \<Rightarrow> world
    \<Rightarrow> goerror option \<times> agent \<times> world" where
  "settleMetrics E = settle E metric_kind"

lemmas event_copies = reserveEventKeyLocked_def appendEventLocked_def enqueueEvent_def requeueEvents_def
  sendEventsSafely_def settleEvents_def flushEvents_def
lemmas metric_copies = reserveMetricKeyLocked_def appendMetricLocked_def enqueueMetric_def requeueMetrics_def
  sendMetricsSafely_def settleMetrics_def flushMetrics_def

text \<open>How the flush of each kind reads in these names.\<close>

lemma flushEvents_code: "flushEvents E c force a w =
  (if \<not> EnableEvents (cfg a) then (None, a, w)
   else case drain E event_kind force a w of (None, a1, w1) \<Rightarrow> (None, a1, w1)
   | (Some drained, a1, w1) \<Rightarrow>
       (case sendEventsSafely E c (map payload drained) (tr a1) w1 of ((outcome, err), t1, w2) \<Rightarrow>
        settleEvents E drained outcome err (a1\<lparr>tr := t1\<rparr>) w2))"
  unfolding event_copies flush_kind_def by (simp add: event_kind_def)

lemma flushMetrics_code: "flushMetrics E c force a w =
  (if \<not> EnableMetrics (cfg a) then (None, a, w)
   else case drain E metric_kind force a w of (None, a1, w1) \<Rightarrow> (None, a1, w1)
   | (Some drained, a1, w1) \<Rightarrow>
       (case sendMetricsSafely E c (map payload drained) (tr a1) w1 of ((outcome, err), t1, w2) \<Rightarrow>
        settleMetrics E drained outcome err (a1\<lparr>tr := t1\<rparr>) w2))"
  unfolding metric_copies flush_kind_def by (simp add: metric_kind_def)

section \<open>The interface of a kind\<close>

text \<open>
  What the buffer operations rely on: a kind's state is read back as it was written, and writing it
  leaves the rest of the agent alone.
\<close>

locale kind_access =
  fixes K :: "'a kind"
  assumes get_map [simp]: "kd_get K (kd_map K f a) = f (kd_get K a)"
    and map_frame [simp]: "cfg (kd_map K f a) = cfg a" "persist (kd_map K f a) = persist a"
      "tr (kd_map K f a) = tr a" "confirmCh (kd_map K f a) = confirmCh a"
      "confirmClosed (kd_map K f a) = confirmClosed a" "closed (kd_map K f a) = closed a"
      "redisPersistFailures (kd_map K f a) = redisPersistFailures a"
    and get_frame [simp]: "kd_get K (a\<lparr>persist := p\<rparr>) = kd_get K a"
      "kd_get K (a\<lparr>tr := t\<rparr>) = kd_get K a" "kd_get K (a\<lparr>confirmCh := ch\<rparr>) = kd_get K a"
      "kd_get K (a\<lparr>redisPersistFailures := n\<rparr>) = kd_get K a" "kd_get K (a\<lparr>lastErrors := es\<rparr>) = kd_get K a"
      "kd_get K (a\<lparr>flushWake := b\<rparr>) = kd_get K a" "kd_get K (a\<lparr>flushSignal := b\<rparr>) = kd_get K a"
      "kd_get K (a\<lparr>lastFlush := tm\<rparr>) = kd_get K a"
begin

lemma get_small [simp]:
  "kd_get K (recordErrorLocked m a) = kd_get K a" "kd_get K (triggerFlush a) = kd_get K a"
  "kd_get K (signalSpaceLocked a) = kd_get K a"
  by (simp_all add: recordErrorLocked_def triggerFlush_def signalSpaceLocked_def Let_def)

lemma confirmKeys_get: "confirmKeys E ks a w = (a', w') \<Longrightarrow> kd_get K a' = kd_get K a \<and> cfg a' = cfg a"
  by (auto simp: confirmKeys_def split: if_splits)

lemma reserveKey_get: "reserveKeyLocked E L x a w = (k, a', w') \<Longrightarrow>
  kd_get K a' = kd_get K a \<and> cfg a' = cfg a \<and> confirmCh a' = confirmCh a \<and> confirmClosed a' = confirmClosed a
   \<and> (persist a' = None \<longleftrightarrow> persist a = None)"
  by (auto simp: reserveKeyLocked_def persistItemLocked_def recordErrorLocked_def Let_def
      split: option.splits sum.splits prod.splits if_splits)

text \<open>Appending puts the item, with its key, at the end and counts it.\<close>

lemma appendLocked_get:
  assumes "appendLocked E K x a w = (b, a', w')"
  shows "\<exists>k. kd_get K a' = (kd_get K a)\<lparr>items := items (kd_get K a) @ [\<lparr>payload = x, key = k\<rparr>],
      buffered := buffered (kd_get K a) + 1\<rparr>"
    and "cfg a' = cfg a" and "confirmCh a' = confirmCh a" and "confirmClosed a' = confirmClosed a"
    and "persist a' = None \<longleftrightarrow> persist a = None"
proof -
  obtain k a1 w1 where r: "reserveKeyLocked E K x a w = (k, a1, w1)" by (metis prod.collapse)
  note f = reserveKey_get [OF r]
  show "\<exists>k. kd_get K a' = (kd_get K a)\<lparr>items := items (kd_get K a) @ [\<lparr>payload = x, key = k\<rparr>],
      buffered := buffered (kd_get K a) + 1\<rparr>"
    and "cfg a' = cfg a" and "confirmCh a' = confirmCh a" and "confirmClosed a' = confirmClosed a"
    and "persist a' = None \<longleftrightarrow> persist a = None"
    using assms f by (auto simp: appendLocked_def r Let_def)
qed

text \<open>The three ways an enqueue goes.\<close>

lemma enqueue_locked_cases:
  assumes "enqueue_locked E K x a w = ((r, nf, ks), a', w')"
  obtains (room) k where "int (length (items (kd_get K a))) < BufferSize (cfg a)" "r = Enqueued" "ks = []"
      "kd_get K a' = (kd_get K a)\<lparr>items := items (kd_get K a) @ [\<lparr>payload = x, key = k\<rparr>],
         buffered := buffered (kd_get K a) + 1\<rparr>" "cfg a' = cfg a" "confirmCh a' = confirmCh a"
      "persist a' = None \<longleftrightarrow> persist a = None"
  | (evict) k old rest where "\<not> int (length (items (kd_get K a))) < BufferSize (cfg a)" "Overflow (cfg a) = OverflowDrop"
      "r = Enqueued" "items (kd_get K a) = old # rest" "ks = nonempty_keys [old]"
      "kd_get K a' = (kd_get K a)\<lparr>dropped := dropped (kd_get K a) + 1,
         items := rest @ [\<lparr>payload = x, key = k\<rparr>], buffered := buffered (kd_get K a) + 1\<rparr>" "cfg a' = cfg a"
      "confirmCh a' = confirmCh a" "persist a' = None \<longleftrightarrow> persist a = None"
  | (refused) "\<not> int (length (items (kd_get K a))) < BufferSize (cfg a)" "r \<noteq> Enqueued" "ks = []" "a' = a" "w' = w"
      "r = EnqPanic \<longrightarrow> items (kd_get K a) = []"
proof (cases "int (length (items (kd_get K a))) < BufferSize (cfg a)")
  case True
  with assms obtain b where ap: "appendLocked E K x a w = (b, a', w')" and "r = Enqueued" "ks = []"
    by (auto simp: enqueue_locked_def split: prod.splits)
  with True appendLocked_get [OF ap] show thesis using room by metis
next
  case full: False
  show thesis
  proof (cases "Overflow (cfg a) = OverflowDrop \<and> items (kd_get K a) \<noteq> []")
    case True
    then obtain old rest where it: "items (kd_get K a) = old # rest" by (cases "items (kd_get K a)") auto
    let ?a = "kd_map K (\<lambda>s. s\<lparr>items := rest, dropped := dropped s + 1\<rparr>) a"
    from assms full True it obtain b where ap: "appendLocked E K x ?a w = (b, a', w')"
      and r: "r = Enqueued" "ks = nonempty_keys [old]"
      by (auto simp: enqueue_locked_def split: prod.splits)
    from appendLocked_get(1) [OF ap] obtain k where "kd_get K a' = (kd_get K a)\<lparr>dropped := dropped (kd_get K a) + 1,
         items := rest @ [\<lparr>payload = x, key = k\<rparr>], buffered := buffered (kd_get K a) + 1\<rparr>" by auto
    with appendLocked_get(2-5) [OF ap] full True it r show thesis by (intro evict) auto
  next
    case False
    with assms full show thesis
      by (intro refused) (auto simp: enqueue_locked_def split: if_splits list.splits)
  qed
qed

lemma drain_get:
  assumes "drain E K force a w = (Some d, a', w')"
  shows "d = items (kd_get K a)" "d \<noteq> []"
    "kd_get K a' = (kd_get K a)\<lparr>items := [], flushed := flushed (kd_get K a) + of_nat (length d)\<rparr>"
    "cfg a' = cfg a" "confirmCh a' = confirmCh a" "persist a' = persist a" "tr a' = tr a" "confirmClosed a' = confirmClosed a"
  using assms by (auto simp: drain_def Let_def signalSpaceLocked_def split: if_splits prod.splits)

lemma drain_None: "drain E K force a w = (None, a', w') \<Longrightarrow> a' = a"
  by (auto simp: drain_def Let_def split: if_splits prod.splits)

lemma requeue_locked_get:
  assumes "requeue_locked K d a = (ks, a')"
  shows "kd_get K a' = (kd_get K a)\<lparr>items := take (nat (BufferSize (cfg a))) (d @ items (kd_get K a)),
      dropped := dropped (kd_get K a) + of_nat (length (drop (nat (BufferSize (cfg a))) (d @ items (kd_get K a))))\<rparr>"
    "ks = rev (nonempty_keys (drop (nat (BufferSize (cfg a))) (d @ items (kd_get K a))))"
    "cfg a' = cfg a" "confirmCh a' = confirmCh a" "persist a' = persist a"
  using assms by (auto simp: requeue_locked_def signalSpaceLocked_def Let_def
      simp del: take_append drop_append length_append length_drop)

lemma settle_get:
  "kd_get K (settle_accepted K n a) = (kd_get K a)\<lparr>sent_count := sent_count (kd_get K a) + of_nat n, streak := 0, gate := 0\<rparr>"
  "kd_get K (settle_permanent K n a) = (kd_get K a)\<lparr>sent_count := sent_count (kd_get K a) + of_nat n\<rparr>"
  "settle_failed E K n a w = (a', w') \<Longrightarrow> \<exists>g. kd_get K a' = (kd_get K a)\<lparr>failed := failed (kd_get K a) + of_nat n,
     streak := streak (kd_get K a) + 1, gate := g\<rparr>"
  by (auto simp: settle_accepted_def settle_permanent_def settle_failed_def Let_def split: prod.splits)

lemma settle_frame:
  "cfg (settle_accepted K n a) = cfg a" "confirmCh (settle_accepted K n a) = confirmCh a"
  "persist (settle_accepted K n a) = persist a"
  "cfg (settle_permanent K n a) = cfg a" "confirmCh (settle_permanent K n a) = confirmCh a"
  "persist (settle_permanent K n a) = persist a"
  by (simp_all add: settle_accepted_def settle_permanent_def recordErrorLocked_def Let_def)

lemma settle_failed_frame: "settle_failed E K n a w = (a', w') \<Longrightarrow>
  cfg a' = cfg a \<and> confirmCh a' = confirmCh a \<and> persist a' = persist a \<and> redis_trace w' = redis_trace w"
  by (auto simp: settle_failed_def Let_def now_def split: prod.splits)

end

interpretation ek: kind_access event_kind
  by standard (simp_all add: event_kind_def)

interpretation mk: kind_access metric_kind
  by standard (simp_all add: metric_kind_def)

end
