(* ===== verification/Reload.thy ===== *)
theory Reload
  imports Buffer
begin

text \<open>
  The reload of agent.go at \<open>Start\<close>: the persisted records of a kind are appended to its buffer, oldest
  first, and the buffer is cut at its head; what is cut and what does not parse is deleted in Redis.
\<close>

section \<open>The operations\<close>

definition reload_item :: "env \<Rightarrow> 'a kind \<Rightarrow> persistence \<Rightarrow> persistedItem \<Rightarrow> agent \<Rightarrow> world \<Rightarrow> agent \<times> world" where
  "reload_item E K p it a w =
    (let full = fullKey p (kd_namespace K) (Short it) in
     case kd_unmarshal K E (Value it) of
       Inl err \<Rightarrow> (a, del E [full] w)
     | Inr x \<Rightarrow>
       (case (if int (length (items (kd_get K a))) \<ge> BufferSize (cfg a)
              then (kd_map K (\<lambda>s. s\<lparr>items := tl (items s)\<rparr>) a,
                    if key (hd (items (kd_get K a))) \<noteq> [] then del E [key (hd (items (kd_get K a)))] w else w)
              else (a, w)) of (a1, w1) \<Rightarrow>
          (kd_map K (\<lambda>s. s\<lparr>items := items s @ [\<lparr>payload = x, key = full\<rparr>], buffered := buffered s + 1\<rparr>) a1, w1)))"

fun reload_items :: "env \<Rightarrow> 'a kind \<Rightarrow> persistence \<Rightarrow> persistedItem list \<Rightarrow> agent \<Rightarrow> world \<Rightarrow> agent \<times> world" where
  "reload_items E K p [] a w = (a, w)"
| "reload_items E K p (it # its) a w = (case reload_item E K p it a w of (a1, w1) \<Rightarrow> reload_items E K p its a1 w1)"

text \<open>None stands for a scan that does not end.\<close>

definition reloadKindLocked :: "env \<Rightarrow> 'a kind \<Rightarrow> persistence \<Rightarrow> agent \<Rightarrow> world \<Rightarrow> (agent \<times> world) option" where
  "reloadKindLocked E K p a w = (case loadKind E p (kd_namespace K) w of None \<Rightarrow> None
     | Some (Inl err, w1) \<Rightarrow> Some (a\<lparr>redisPersistFailures := redisPersistFailures a + 1\<rparr>, w1)
     | Some (Inr its, w1) \<Rightarrow> Some (reload_items E K p its a w1))"

definition reloadFromRedisLocked :: "env \<Rightarrow> persistence \<Rightarrow> agent \<Rightarrow> world \<Rightarrow> (agent \<times> world) option" where
  "reloadFromRedisLocked E p a w = (case reloadKindLocked E event_kind p a w of None \<Rightarrow> None
     | Some (a1, w1) \<Rightarrow> reloadKindLocked E metric_kind p a1 w1)"

section \<open>One record\<close>

context kind_access begin

lemma reload_item_cases:
  assumes "reload_item E K p it a w = (a', w')" "0 < BufferSize (cfg a)"
  obtains (corrupt) err where "kd_unmarshal K E (Value it) = Inl err" "a' = a"
      "w' = del E [fullKey p (kd_namespace K) (Short it)] w"
  | (room) x where "kd_unmarshal K E (Value it) = Inr x" "int (length (items (kd_get K a))) < BufferSize (cfg a)"
      "a' = kd_map K (\<lambda>s. s\<lparr>items := items s @ [\<lparr>payload = x, key = fullKey p (kd_namespace K) (Short it)\<rparr>],
         buffered := buffered s + 1\<rparr>) a" "w' = w"
  | (displace) x old rest where "kd_unmarshal K E (Value it) = Inr x" "items (kd_get K a) = old # rest"
      "\<not> int (length (items (kd_get K a))) < BufferSize (cfg a)"
      "a' = kd_map K (\<lambda>s. s\<lparr>items := items s @ [\<lparr>payload = x, key = fullKey p (kd_namespace K) (Short it)\<rparr>],
         buffered := buffered s + 1\<rparr>) (kd_map K (\<lambda>s. s\<lparr>items := tl (items s)\<rparr>) a)"
      "w' = del E (nonempty_keys [old]) w"
proof (cases "kd_unmarshal K E (Value it)")
  case (Inl err)
  with assms(1) show thesis by (intro corrupt) (auto simp: reload_item_def Let_def)
next
  case (Inr x)
  show thesis
  proof (cases "int (length (items (kd_get K a))) < BufferSize (cfg a)")
    case True
    with Inr assms(1) show thesis by (intro room) (auto simp: reload_item_def Let_def)
  next
    case False
    with assms(2) obtain old rest where "items (kd_get K a) = old # rest" by (cases "items (kd_get K a)") auto
    with False Inr assms(1) show thesis
      by (intro displace) (auto simp: reload_item_def Let_def nonempty_keys_def del_def)
  qed
qed

end

end
