(* ===== verification/Clock.thy ===== *)
theory Clock
  imports Reload
begin

text \<open>
  Time passes: no operation of the buffers or of the persistence moves the clock or the count of
  observations back. One lemma per operation, in the order in which the operations are built.
\<close>

named_theorems time_passes

lemma later_frames [simp]:
  "later u (fireErrorHook h st e x w) = later u w" "later u (redis_write E c w) = later u (observe E w)"
  by (simp_all add: later_def redis_write_def)

lemma now_later: "now E w = (tm, w') \<Longrightarrow> later w w' \<and> tm = clock w'"
  by (auto simp: now_def Let_def)

section \<open>Persistence\<close>

lemma shortKey_later [time_passes]: "later w (snd (shortKey E k w))"
  using later_trans [OF later_steps(2) [of w E] later_steps(6) [of "snd (now E w)" E 4]]
  by (simp add: shortKey_def split_beta)

lemma store_later [time_passes]: "store E p k v w = (ok, p', w') \<Longrightarrow> later w w'"
  by (auto simp: store_def storeAvailable_def now_def later_def redis_write_def Let_def split: if_splits)

lemma del_later [time_passes]: "later w (del E ks w)"
  by (simp add: del_def later_steps)

lemma scan_loop_later:
  assumes "scan_loop E deadline pattern shorts cursor w = Some y"
  shows "later w (snd y)"
proof (rule scan_loop.raw_induct [OF _ assms, where P = "\<lambda>E d p ss c w y. later w (snd y)"])
  fix f E d p ss c w y
  assume IH: "\<And>E d p ss c w y. f E d p ss c w = Some y \<Longrightarrow> later w (snd y)"
    and y: "(if d \<le> clock w then Some (Inl deadline_error, observe E w)
      else case redis_Scan E (tick w) c p of
         Inl err \<Rightarrow> Some (Inl err, observe E w)
       | Inr (page, nxt) \<Rightarrow> if nxt = 0 then Some (Inr (ss @ page), observe E w)
           else f E d p (ss @ page) nxt (observe E w)) = Some y"
  show "later w (snd y)"
    using y IH [of E d p _ _ "observe E w" y] later_trans [OF later_steps(1) [of w E]]
    by (auto split: if_splits sum.splits prod.splits)
qed

lemma get_items_later: "later w (snd (get_items E deadline fulls w))"
proof (induction fulls arbitrary: w)
  case (Cons k ks)
  have "later w (observe E w)" by (rule later_steps)
  also have "later (observe E w) (snd (get_items E deadline ks (observe E w)))" by (rule Cons)
  finally show ?case by (auto simp: Let_def split: redis_get.split sum.split prod.split)
qed simp

lemma loadKind_later [time_passes]:
  assumes "loadKind E p ns w = Some (r, w')"
  shows "later w w'"
proof -
  obtain tm w0 where n: "now E w = (tm, w0)" by fastforce
  obtain q w1 where s: "scan_loop E (tm + scanTimeout) (p_prefix p @ '':'' @ ns @ '':*'') [] 0 w0 = Some (q, w1)"
    using assms by (auto simp: loadKind_def n Let_def split: option.splits)
  have "later w w0" using now_later [OF n] by simp
  also have "later w0 w1" using scan_loop_later [OF s] by simp
  finally have l: "later w w1" .
  show ?thesis
  proof (cases q)
    case (Inl err)
    with assms s l show ?thesis by (simp add: loadKind_def n Let_def)
  next
    case (Inr shorts)
    with assms s have "w' = snd (get_items E (tm + scanTimeout) (sort shorts) w1)"
      by (simp add: loadKind_def n Let_def)
    with l get_items_later show ?thesis using later_trans by blast
  qed
qed

section \<open>Buffers\<close>

lemma reserveKey_later [time_passes]:
  assumes "reserveKeyLocked E K x a w = (k, a', w')"
  shows "later w w'"
proof (cases "persist a = None \<or> (\<exists>err. kd_marshal K E x = Inl err)")
  case True
  with assms show ?thesis by (auto simp: reserveKeyLocked_def split: option.splits)
next
  case False
  then obtain p data where p: "persist a = Some p" "kd_marshal K E x = Inr data"
    by (cases "kd_marshal K E x") auto
  obtain s w1 where s: "shortKey E (kd_name K) w = (s, w1)" by fastforce
  obtain ok p1 w2 where st: "store E p (fullKey p (kd_namespace K) s) data w1 = (ok, p1, w2)" by (metis prod.collapse)
  have "later w w1" using shortKey_later [of w E "kd_name K"] s by simp
  also have "later w1 w2" by (rule store_later [OF st])
  finally show ?thesis
    using assms p s st by (auto simp: reserveKeyLocked_def persistItemLocked_def Let_def split: if_splits)
qed

lemma appendLocked_later [time_passes]: "appendLocked E K x a w = (b, a', w') \<Longrightarrow> later w w'"
  by (auto simp: appendLocked_def Let_def split: prod.splits dest: reserveKey_later)

lemma enqueue_locked_later [time_passes]: "enqueue_locked E K x a w = (r, a', w') \<Longrightarrow> later w w'"
  by (auto simp: enqueue_locked_def split: if_splits list.splits prod.splits dest: appendLocked_later)

lemma drain_later [time_passes]: "drain E K force a w = (d, a', w') \<Longrightarrow> later w w'"
  by (auto simp: drain_def gateClosedLocked_def now_def later_def Let_def split: if_splits prod.splits)

lemma settle_failed_later [time_passes]: "settle_failed E K n a w = (a', w') \<Longrightarrow> later w w'"
  by (auto simp: settle_failed_def Let_def split: prod.splits dest: now_later)

lemma confirmKeys_later [time_passes]: "confirmKeys E ks a w = (a', w') \<Longrightarrow> later w w'"
  by (auto simp: confirmKeys_def del_later split: if_splits)

lemma reload_item_later [time_passes]: "reload_item E K p it a w = (a', w') \<Longrightarrow> later w w'"
  by (auto simp: reload_item_def del_later Let_def split: sum.splits if_splits)

end
