(* ===== verification/Delivery.thy ===== *)
theory Delivery
  imports Clock
begin

text \<open>
  The at-least-once handshake under concurrency. The agent's goroutines are interleaved at the
  granularity of the code's critical sections: one step is one section under the agent's mutex, one
  \<open>confirmKeys\<close>, one job of the confirm worker, one record of a reload, or anything that touches neither
  the buffers nor the persisted records. A \<open>flight\<close> holds what is between two sections of one kind, and as ghosts every
  item that ever entered the buffer, was settled by the transport, was dropped or was displaced by a
  reload, the keys of the records that a reload could not read, and what reloads read.
\<close>

section \<open>States and steps\<close>

record 'a flight =
  flying :: "'a buffered list multiset" \<comment> \<open>drained, being sent\<close>
  failing :: "'a buffered list multiset" \<comment> \<open>counted as failed, about to be requeued\<close>
  counting :: "(sendOutcome \<times> nat) multiset" \<comment> \<open>settled, about to be counted\<close>
  unconfirmed :: "gostring list multiset" \<comment> \<open>keys about to be confirmed\<close>
  entered :: "'a buffered multiset"
  finished :: "'a buffered multiset"
  lost :: "'a buffered multiset"
  displaced :: "'a buffered multiset" \<comment> \<open>pushed out of the buffer by a reload\<close>
  unreadable :: "gostring set"
  reread :: "(gostring \<times> gostring) set" \<comment> \<open>keys and values read by reloads\<close>

definition no_flight :: "'a buffered multiset \<Rightarrow> 'a flight" where
  "no_flight xs = \<lparr>flying = {#}, failing = {#}, counting = {#}, unconfirmed = {#}, entered = xs,
     finished = {#}, lost = {#}, displaced = {#}, unreadable = {}, reread = {}\<rparr>"

definition is_full :: "'a kind \<Rightarrow> agent \<Rightarrow> bool" where
  "is_full K a \<longleftrightarrow> \<not> int (length (items (kd_get K a))) < BufferSize (cfg a)"

definition after_enqueue :: "'a kind \<Rightarrow> enq \<Rightarrow> gostring list \<Rightarrow> agent \<Rightarrow> agent \<Rightarrow> 'a flight \<Rightarrow> 'a flight" where
  "after_enqueue K r ks a a' f = f\<lparr>
     entered := entered f + (if r = Enqueued then {#last (items (kd_get K a'))#} else {#}),
     lost := lost f + (if r = Enqueued \<and> is_full K a then {#hd (items (kd_get K a))#} else {#}),
     unconfirmed := unconfirmed f + {#ks#}\<rparr>"

definition after_reload :: "env \<Rightarrow> 'a kind \<Rightarrow> persistence \<Rightarrow> persistedItem \<Rightarrow> agent \<Rightarrow> agent \<Rightarrow> 'a flight \<Rightarrow> 'a flight" where
  "after_reload E K p it a a' f = (case kd_unmarshal K E (Value it) of
     Inl err \<Rightarrow> f\<lparr>unreadable := insert (fullKey p (kd_namespace K) (Short it)) (unreadable f),
       reread := insert (fullKey p (kd_namespace K) (Short it), Value it) (reread f)\<rparr>
   | Inr x \<Rightarrow> f\<lparr>entered := entered f + {#last (items (kd_get K a'))#},
       displaced := displaced f + (if is_full K a then {#hd (items (kd_get K a))#} else {#}),
       reread := insert (fullKey p (kd_namespace K) (Short it), Value it) (reread f)\<rparr>)"

inductive kstep :: "env \<Rightarrow> 'a kind \<Rightarrow> agent \<times> world \<times> 'a flight \<Rightarrow> agent \<times> world \<times> 'a flight \<Rightarrow> bool"
  for E K where
  enqueue: "enqueue_locked E K x a w = ((r, nf, ks), a', w')
    \<Longrightarrow> kstep E K (a, w, f) (a', w', after_enqueue K r ks a a' f)"
| drain: "drain E K force a w = (Some d, a', w')
    \<Longrightarrow> kstep E K (a, w, f) (a', w', f\<lparr>flying := flying f + {#d#}\<rparr>)"
| settle: "d \<in># flying f \<Longrightarrow> outcomeConfirms o'
    \<Longrightarrow> kstep E K (a, w, f) (a, w, f\<lparr>flying := flying f - {#d#}, finished := finished f + mset d,
      counting := counting f + {#(o', length d)#}, unconfirmed := unconfirmed f + {#nonempty_keys d#}\<rparr>)"
| count: "(o', n) \<in># counting f \<Longrightarrow> kstep E K (a, w, f)
    (if o' = outcomeAccepted then settle_accepted K n a else settle_permanent K n a, w,
     f\<lparr>counting := counting f - {#(o', n)#}\<rparr>)"
| fail: "d \<in># flying f \<Longrightarrow> settle_failed E K (length d) a w = (a', w')
    \<Longrightarrow> kstep E K (a, w, f) (a', w', f\<lparr>flying := flying f - {#d#}, failing := failing f + {#d#}\<rparr>)"
| requeue: "d \<in># failing f \<Longrightarrow> requeue_locked K d a = (ks, a')
    \<Longrightarrow> kstep E K (a, w, f) (a', w, f\<lparr>failing := failing f - {#d#},
      lost := lost f + mset (drop (nat (BufferSize (cfg a))) (d @ items (kd_get K a))),
      unconfirmed := unconfirmed f + {#ks#}\<rparr>)"
| confirm: "ks \<in># unconfirmed f \<Longrightarrow> confirmKeys E ks a w = (a', w')
    \<Longrightarrow> kstep E K (a, w, f) (a', w', f\<lparr>unconfirmed := unconfirmed f - {#ks#}\<rparr>)"
| reload: "persist a = Some p \<Longrightarrow> colon_free (Short it) \<Longrightarrow> reload_item E K p it a w = (a', w')
    \<Longrightarrow> kstep E K (a, w, f) (a', w', after_reload E K p it a a' f)"

type_synonym system = "agent \<times> world \<times> SecurityEvent flight \<times> SecurityMetric flight"

text \<open>What the rest of the agent and its outside may change: everything but this.\<close>

definition same_buffers :: "agent \<Rightarrow> world \<Rightarrow> agent \<Rightarrow> world \<Rightarrow> bool" where
  "same_buffers a w a' w' \<longleftrightarrow> events a' = events a \<and> metrics a' = metrics a \<and> cfg a' = cfg a
     \<and> confirmCh a' = confirmCh a \<and> redis_trace w' = redis_trace w 
     \<and> map_option p_prefix (persist a') = map_option p_prefix (persist a) \<and> later w w'"

inductive sys_step :: "env \<Rightarrow> system \<Rightarrow> system \<Rightarrow> bool" for E where
  event_step: "kstep E event_kind (a, w, fe) (a', w', fe') \<Longrightarrow> sys_step E (a, w, fe, fm) (a', w', fe', fm)"
| metric_step: "kstep E metric_kind (a, w, fm) (a', w', fm') \<Longrightarrow> sys_step E (a, w, fe, fm) (a', w', fe, fm')"
| worker: "confirmCh a = ks # rest \<Longrightarrow> sys_step E (a, w, fe, fm) (a\<lparr>confirmCh := rest\<rparr>, del E ks w, fe, fm)"
| other: "same_buffers a w a' w' \<Longrightarrow> sys_step E (a, w, fe, fm) (a', w', fe, fm)"

inductive_cases sys_stepE: "sys_step E s s'"

section \<open>The invariant of a kind\<close>

text \<open>Every item that entered is in the buffer, under way, settled, or dropped; and the counters say so.\<close>

definition in_batches :: "'a buffered list multiset \<Rightarrow> 'a buffered multiset" where
  "in_batches B = \<Sum>\<^sub># (image_mset mset B)"

definition count_sum :: "(sendOutcome \<times> nat) multiset \<Rightarrow> nat" where
  "count_sum C = \<Sum>\<^sub># (image_mset snd C)"

definition key_set :: "'a buffered multiset \<Rightarrow> gostring set" where
  "key_set M = key ` set_mset M"

text \<open>The keys whose records may be deleted: those of what is done with.\<close>

definition done_keys :: "'a flight \<Rightarrow> gostring set" where
  "done_keys f = key_set (finished f) \<union> key_set (lost f) \<union> key_set (displaced f) \<union> unreadable f"

definition kinv :: "'a kind \<Rightarrow> agent \<Rightarrow> 'a flight \<Rightarrow> bool" where
  "kinv K a f \<longleftrightarrow>
     entered f = mset (items (kd_get K a)) + in_batches (flying f) + in_batches (failing f) + finished f + lost f + displaced f
     \<and> int (length (items (kd_get K a))) \<le> BufferSize (cfg a)
     \<and> buffered (kd_get K a) = of_nat (size (entered f))
     \<and> dropped (kd_get K a) = of_nat (size (lost f))
     \<and> sent_count (kd_get K a) + of_nat (count_sum (counting f)) = of_nat (size (finished f))
     \<and> (\<forall>ks \<in># unconfirmed f. set ks \<subseteq> key_set (finished f + lost f))"

lemma in_batches_simps [simp]:
  "in_batches {#} = {#}" "in_batches (add_mset d B) = mset d + in_batches B"
  "in_batches (A + B) = in_batches A + in_batches B"
  by (simp_all add: in_batches_def)

lemma in_batches_remove: "d \<in># B \<Longrightarrow> in_batches B = mset d + in_batches (B - {#d#})"
  by (metis in_batches_simps(2) insert_DiffM)

lemma count_sum_simps [simp]: "count_sum {#} = 0" "count_sum (add_mset c C) = snd c + count_sum C"
  by (simp_all add: count_sum_def)

lemma count_sum_remove: "c \<in># C \<Longrightarrow> count_sum C = snd c + count_sum (C - {#c#})"
  by (metis count_sum_simps(2) insert_DiffM)

lemma key_set_mono: "A \<subseteq># B \<Longrightarrow> key_set A \<subseteq> key_set B"
  by (auto simp: key_set_def dest: mset_subset_eqD)

lemma nonempty_keys_sub: "set (nonempty_keys d) \<subseteq> key_set (mset d)"
  by (auto simp: nonempty_keys_def key_set_def)

lemma key_set_plus [simp]: "key_set (A + B) = key_set A \<union> key_set B"
  by (auto simp: key_set_def)

lemma kinv_unconfirmed:
  assumes "\<forall>ks \<in># unconfirmed f. set ks \<subseteq> key_set (finished f + lost f)"
    "set ks \<subseteq> key_set (F + L)" "finished f \<subseteq># F" "lost f \<subseteq># L"
  shows "\<forall>ks' \<in># unconfirmed f + {#ks#}. set ks' \<subseteq> key_set (F + L)"
  using assms key_set_mono [OF assms(3)] key_set_mono [OF assms(4)] by fastforce

context kind_access begin

lemma kinv_enqueue:
  assumes "enqueue_locked E K x a w = ((r, nf, ks), a', w')" "kinv K a f"
  shows "kinv K a' (after_enqueue K r ks a a' f)"
  using assms(1)
proof (cases rule: enqueue_locked_cases)
  case (room k)
  with assms(2) show ?thesis by (auto simp: kinv_def after_enqueue_def is_full_def)
next
  case (evict k old rest)
  have u: "\<forall>ks' \<in># unconfirmed f + {#ks#}. set ks' \<subseteq> key_set (finished f + (lost f + {#old#}))"
    using assms(2) evict(5) by (intro kinv_unconfirmed) (auto simp: kinv_def key_set_def nonempty_keys_def)
  from evict assms(2) u show ?thesis
    by (auto simp: kinv_def after_enqueue_def is_full_def)
next
  case refused
  with assms(2) show ?thesis by (auto simp: kinv_def after_enqueue_def is_full_def)
qed

lemma kinv_reload:
  assumes "reload_item E K p it a w = (a', w')" "kinv K a f" "0 < BufferSize (cfg a)"
  shows "kinv K a' (after_reload E K p it a a' f) \<and> cfg a' = cfg a"
  using assms(1,3)
proof (cases rule: reload_item_cases)
  case (corrupt err)
  with assms(2) show ?thesis by (simp add: after_reload_def kinv_def)
next
  case (room x)
  with assms(2) show ?thesis by (auto simp: after_reload_def kinv_def is_full_def)
next
  case (displace x old rest)
  with assms(2) show ?thesis by (auto simp: after_reload_def kinv_def is_full_def)
qed

lemma kinv_requeue:
  assumes "d \<in># failing f" "requeue_locked K d a = (ks, a')" "kinv K a f" "0 < BufferSize (cfg a)"
  shows "kinv K a' (f\<lparr>failing := failing f - {#d#},
      lost := lost f + mset (drop (nat (BufferSize (cfg a))) (d @ items (kd_get K a))),
      unconfirmed := unconfirmed f + {#ks#}\<rparr>)"
proof -
  let ?n = "nat (BufferSize (cfg a))" and ?m = "d @ items (kd_get K a)"
  note g = requeue_locked_get [OF assms(2)]
  have m: "mset ?m = mset (take ?n ?m) + mset (drop ?n ?m)" by (simp only: mset_take_drop)
  have "entered f = mset ?m + in_batches (flying f) + in_batches (failing f - {#d#}) + finished f + lost f + displaced f"
    using assms(3) in_batches_remove [OF assms(1)] by (simp add: kinv_def ac_simps)
  then have e: "entered f = mset (take ?n ?m) + in_batches (flying f) + in_batches (failing f - {#d#}) + finished f
      + (lost f + mset (drop ?n ?m)) + displaced f"
    unfolding m by (simp only: ac_simps)
  have u: "\<forall>ks' \<in># unconfirmed f + {#ks#}. set ks' \<subseteq> key_set (finished f + (lost f + mset (drop ?n ?m)))"
    using assms(3) g(2) nonempty_keys_sub [of "drop ?n ?m"]
    by (intro kinv_unconfirmed) (auto simp: kinv_def simp del: drop_append)
  have l: "int (length (take ?n ?m)) \<le> BufferSize (cfg a)" using assms(4) by simp
  from assms(3) show ?thesis unfolding kinv_def g(1,3)
    using e u l by (simp del: take_append drop_append length_drop length_take)
qed

lemma kstep_kinv:
  assumes "kstep E K (a, w, f) (a', w', f')" "kinv K a f" "0 < BufferSize (cfg a)"
  shows "kinv K a' f' \<and> cfg a' = cfg a"
  using assms(1)
proof (cases rule: kstep.cases)
  case (enqueue x r nf ks)
  from enqueue(2) have "cfg a' = cfg a" by (cases rule: enqueue_locked_cases) auto
  with enqueue kinv_enqueue [OF enqueue(2) assms(2)] show ?thesis by simp
next
  case (drain force d)
  with drain_get [OF drain(2)] assms(2) show ?thesis by (auto simp: kinv_def)
next
  case (settle d o')
  with in_batches_remove [OF settle(4)] assms(2) nonempty_keys_sub [of d] show ?thesis
    by (auto simp: kinv_def ac_simps)
next
  case (count o' n)
  with count_sum_remove [OF count(4)] assms(2) show ?thesis
    by (auto simp: kinv_def settle_get settle_frame ac_simps)
next
  case (fail d)
  with in_batches_remove [OF fail(2)] settle_get(3) [OF fail(3)] settle_failed_frame [OF fail(3)] assms(2) show ?thesis
    by (auto simp: kinv_def ac_simps)
next
  case (requeue d ks)
  with kinv_requeue [OF requeue(3,4) assms(2,3)] requeue_locked_get(3) [OF requeue(4)] show ?thesis by simp
next
  case (confirm ks)
  with confirmKeys_get [OF confirm(3)] assms(2) show ?thesis by (auto simp: kinv_def dest: in_diffD)
next
  case (reload p it)
  with kinv_reload [OF reload(4) assms(2,3)] show ?thesis by simp
qed

end

section \<open>The two kinds together\<close>

text \<open>Deletions under way or done, from the given position of the Redis trace on.\<close>

fun cmd_keys :: "redis_cmd \<Rightarrow> gostring set" where
  "cmd_keys (RSet k v d r) = {}"
| "cmd_keys (RDel ks) = set ks"

definition deleted :: "nat \<Rightarrow> world \<Rightarrow> gostring set" where
  "deleted n w = (\<Union>c \<in> set (drop n (redis_trace w)). cmd_keys c)"

definition queued :: "agent \<Rightarrow> gostring set" where
  "queued a = (\<Union>ks \<in> set (confirmCh a). set ks)"

definition redis_grows :: "world \<Rightarrow> world \<Rightarrow> gostring set \<Rightarrow> bool" where
  "redis_grows w w' D \<longleftrightarrow> (\<exists>cs. redis_trace w' = redis_trace w @ cs \<and> (\<Union>c \<in> set cs. cmd_keys c) \<subseteq> D)"

lemma redis_grows_same: "redis_trace w' = redis_trace w \<Longrightarrow> redis_grows w w' D"
  by (simp add: redis_grows_def)

lemma redis_grows_mono: "redis_grows w w' D \<Longrightarrow> D \<subseteq> D' \<Longrightarrow> redis_grows w w' D'"
  by (auto simp: redis_grows_def)

lemma redis_grows_deleted: "redis_grows w w' D \<Longrightarrow> n \<le> length (redis_trace w) \<Longrightarrow>
  n \<le> length (redis_trace w') \<and> deleted n w' \<subseteq> deleted n w \<union> D"
proof -
  assume "redis_grows w w' D" and n: "n \<le> length (redis_trace w)"
  then obtain cs where cs: "redis_trace w' = redis_trace w @ cs" "(\<Union>c \<in> set cs. cmd_keys c) \<subseteq> D"
    by (auto simp: redis_grows_def)
  then have "deleted n w' = deleted n w \<union> (\<Union>c \<in> set cs. cmd_keys c)" using n by (simp add: deleted_def)
  with cs n show ?thesis by auto
qed

lemma del_grows: "redis_grows w (del E ks w) (set ks)"
  by (auto simp: del_def redis_write_def redis_grows_def)

lemma confirmKeys_keys:
  assumes "confirmKeys E ks a w = (a', w')"
  shows "redis_grows w w' (set ks) \<and> queued a' \<subseteq> queued a \<union> set ks"
  using assms del_grows [of w E ks] by (auto simp: confirmKeys_def queued_def redis_grows_same split: if_splits)

lemma shortKey_redis: "redis_trace (snd (shortKey E k w)) = redis_trace w"
  using gen_traces(5) [of E 4 "snd (now E w)"] by (simp add: shortKey_def split_beta)

lemma store_grows: "store E p k v w = (ok, p', w') \<Longrightarrow> redis_grows w w' {}"
  by (auto simp: store_def storeAvailable_def now_def redis_write_def redis_grows_def Let_def split: if_splits)

lemma reserveKey_grows: "reserveKeyLocked E K x a w = (k, a', w') \<Longrightarrow> redis_grows w w' {}"
proof -
  assume r: "reserveKeyLocked E K x a w = (k, a', w')"
  have "redis_grows w2 w' {} \<Longrightarrow> redis_trace w2 = redis_trace w \<Longrightarrow> redis_grows w w' {}" for w2
    by (simp add: redis_grows_def)
  with r shortKey_redis [of E "kd_name K" w] store_grows show ?thesis
    by (auto simp: reserveKeyLocked_def persistItemLocked_def redis_grows_same Let_def
        split: option.splits sum.splits prod.splits if_splits) (metis snd_conv)+
qed

lemma appendLocked_grows: "appendLocked E K x a w = (b, a', w') \<Longrightarrow> redis_grows w w' {}"
  by (auto simp: appendLocked_def Let_def split: prod.splits dest: reserveKey_grows)

lemma enqueue_locked_grows: "enqueue_locked E K x a w = (r, a', w') \<Longrightarrow> redis_grows w w' {}"
  by (auto simp: enqueue_locked_def redis_grows_same split: if_splits list.splits prod.splits
      dest: appendLocked_grows)

lemma drain_redis: "drain E K force a w = (d, a', w') \<Longrightarrow> redis_trace w' = redis_trace w"
  by (auto simp: drain_def gateClosedLocked_def now_def Let_def split: if_splits prod.splits)

context kind_access begin

lemma done_keys_mono:
  "finished f \<subseteq># finished f' \<Longrightarrow> lost f \<subseteq># lost f' \<Longrightarrow> displaced f \<subseteq># displaced f'
    \<Longrightarrow> unreadable f \<subseteq> unreadable f' \<Longrightarrow> done_keys f \<subseteq> done_keys f'"
  unfolding done_keys_def by (intro Un_mono key_set_mono)

lemma kstep_keys:
  assumes "kstep E K (a, w, f) (a', w', f')" "kinv K a f" "0 < BufferSize (cfg a)"
  shows "redis_grows w w' (done_keys f') \<and> queued a' \<subseteq> queued a \<union> done_keys f' \<and> done_keys f \<subseteq> done_keys f'"
  using assms(1)
proof (cases rule: kstep.cases)
  case (enqueue x r nf ks)
  have "redis_grows w w' D" for D using enqueue_locked_grows [OF enqueue(2)] by (auto simp: redis_grows_def)
  moreover from enqueue(2) have "confirmCh a' = confirmCh a" by (cases rule: enqueue_locked_cases) auto
  ultimately show ?thesis using enqueue by (auto simp: queued_def after_enqueue_def done_keys_def)
next
  case (drain force d)
  with drain_get(5) [OF drain(2)] drain_redis [OF drain(2)] show ?thesis
    by (simp add: queued_def redis_grows_same done_keys_def)
next
  case (settle d o')
  then show ?thesis by (auto simp: redis_grows_same done_keys_def)
next
  case (count o' n)
  then show ?thesis by (simp add: redis_grows_same settle_frame queued_def done_keys_def)
next
  case (fail d)
  with settle_failed_frame [OF fail(3)] show ?thesis by (simp add: redis_grows_same queued_def done_keys_def)
next
  case (requeue d ks)
  with requeue_locked_get(4) [OF requeue(4)] show ?thesis by (auto simp: redis_grows_same queued_def done_keys_def)
next
  case (confirm ks)
  then have "set ks \<subseteq> done_keys f" using assms(2) by (auto simp: kinv_def done_keys_def)
  with confirmKeys_keys [OF confirm(3)] confirm(1) show ?thesis
    by (auto simp: redis_grows_def done_keys_def)
next
  case (reload p it)
  from reload(4) assms(3) show ?thesis
  proof (cases rule: reload_item_cases)
    case (corrupt err)
    with reload(1) del_grows [of w E "[fullKey p (kd_namespace K) (Short it)]"] show ?thesis
      by (auto simp: after_reload_def done_keys_def redis_grows_def)
  next
    case (room x)
    with reload(1) show ?thesis by (simp add: after_reload_def redis_grows_same done_keys_def queued_def is_full_def)
  next
    case (displace x old rest)
    have f': "f' = f\<lparr>entered := entered f + {#last (items (kd_get K a'))#}, displaced := displaced f + {#old#},
        reread := insert (fullKey p (kd_namespace K) (Short it), Value it) (reread f)\<rparr>"
      using displace reload(1) by (simp add: after_reload_def is_full_def)
    have "set (nonempty_keys [old]) \<subseteq> done_keys f'"
      by (auto simp: f' done_keys_def nonempty_keys_def key_set_def)
    then have "redis_grows w w' (done_keys f')"
      unfolding displace(5) by (rule redis_grows_mono [OF del_grows])
    moreover have "done_keys f \<subseteq> done_keys f'" unfolding f' by (rule done_keys_mono) simp_all
    moreover have "queued a' = queued a" by (simp add: queued_def displace(4))
    ultimately show ?thesis by simp
  qed
qed

end

text \<open>A step of one kind does not touch the other kind's buffer.\<close>

locale other_kind = kind_access K for K :: "'a kind" +
  fixes L :: "'b kind"
  assumes other_map: "kd_get L (kd_map K f a) = kd_get L a"
    and other_frame: "kd_get L (a\<lparr>persist := p\<rparr>) = kd_get L a" "kd_get L (a\<lparr>confirmCh := ch\<rparr>) = kd_get L a"
      "kd_get L (a\<lparr>redisPersistFailures := n\<rparr>) = kd_get L a" "kd_get L (a\<lparr>lastErrors := es\<rparr>) = kd_get L a"
      "kd_get L (a\<lparr>flushSignal := b\<rparr>) = kd_get L a" "kd_get L (a\<lparr>lastFlush := tm\<rparr>) = kd_get L a"
      "kd_get L (a\<lparr>tr := t\<rparr>) = kd_get L a"
begin

lemmas other_simps = other_map other_frame recordErrorLocked_def signalSpaceLocked_def Let_def

lemma other_reserve: "reserveKeyLocked E M x a w = (k, a', w') \<Longrightarrow> kd_get L a' = kd_get L a"
  by (auto simp: reserveKeyLocked_def persistItemLocked_def other_simps split: option.splits sum.splits prod.splits if_splits)

lemma other_append: "appendLocked E K x a w = (b, a', w') \<Longrightarrow> kd_get L a' = kd_get L a"
  by (auto simp: appendLocked_def other_simps split: prod.splits dest: other_reserve)

lemma kstep_other:
  assumes "kstep E K (a, w, f) (a', w', f')"
  shows "kd_get L a' = kd_get L a"
  using assms
proof (cases rule: kstep.cases)
  case (enqueue x r nf ks)
  then show ?thesis
    by (auto simp: enqueue_locked_def other_map split: if_splits list.splits prod.splits dest: other_append)
next
  case (drain force d)
  then show ?thesis by (auto simp: drain_def other_simps split: if_splits prod.splits)
next
  case (count o' n)
  then show ?thesis by (simp add: settle_accepted_def settle_permanent_def other_simps)
next
  case (fail d)
  then show ?thesis by (auto simp: settle_failed_def other_simps split: prod.splits)
next
  case (requeue d ks)
  then show ?thesis by (auto simp: requeue_locked_def other_simps)
next
  case (confirm ks)
  then show ?thesis by (auto simp: confirmKeys_def other_frame split: if_splits)
next
  case (reload p it)
  then show ?thesis by (auto simp: reload_item_def other_map Let_def split: sum.splits if_splits)
qed auto

end

interpretation em: other_kind event_kind metric_kind
  by standard (simp_all add: event_kind_def metric_kind_def)

interpretation me: other_kind metric_kind event_kind
  by standard (simp_all add: event_kind_def metric_kind_def)

text \<open>The invariant of the system: both kinds, and no record is deleted before its item is done with.\<close>

definition sys_inv :: "nat \<Rightarrow> system \<Rightarrow> bool" where
  "sys_inv n s = (case s of (a, w, fe, fm) \<Rightarrow>
     kinv event_kind a fe \<and> kinv metric_kind a fm \<and> 0 < BufferSize (cfg a) \<and> n \<le> length (redis_trace w)
     \<and> queued a \<union> deleted n w \<subseteq> done_keys fe \<union> done_keys fm)"

lemma kinv_frame: "kd_get K a' = kd_get K a \<Longrightarrow> cfg a' = cfg a \<Longrightarrow> kinv K a' f = kinv K a f"
  by (simp add: kinv_def)

lemma key_growth:
  "Q' \<subseteq> Q \<union> A' \<Longrightarrow> D' \<subseteq> D \<union> A' \<Longrightarrow> Q \<union> D \<subseteq> A \<union> B \<Longrightarrow> A \<subseteq> A' \<Longrightarrow> Q' \<union> D' \<subseteq> A' \<union> B"
  by blast

lemma sys_step_inv: "sys_step E s s' \<Longrightarrow> sys_inv n s \<Longrightarrow> sys_inv n s'"
proof (induction rule: sys_step.induct)
  case (event_step a w fe a' w' fe' fm)
  then have k: "kinv event_kind a fe" "0 < BufferSize (cfg a)" by (simp_all add: sys_inv_def)
  from ek.kstep_kinv [OF event_step(1) k] ek.kstep_keys [OF event_step(1) k] em.kstep_other [OF event_step(1)]
  have c: "kinv event_kind a' fe'" "cfg a' = cfg a" "kd_get metric_kind a' = kd_get metric_kind a"
    and g: "redis_grows w w' (done_keys fe')"
    and q: "queued a' \<subseteq> queued a \<union> done_keys fe'"
    and m: "done_keys fe \<subseteq> done_keys fe'"
    by simp_all
  from event_step.prems have n: "n \<le> length (redis_trace w)"
    and o': "queued a \<union> deleted n w \<subseteq> done_keys fe \<union> done_keys fm"
    by (auto simp: sys_inv_def)
  note d = redis_grows_deleted [OF g n]
  from key_growth [OF q conjunct2 [OF d] o' m] c d event_step.prems kinv_frame [of metric_kind a' a fm] show ?case
    by (auto simp: sys_inv_def)
next
  case (metric_step a w fm a' w' fm' fe)
  then have k: "kinv metric_kind a fm" "0 < BufferSize (cfg a)" by (simp_all add: sys_inv_def)
  from mk.kstep_kinv [OF metric_step(1) k] mk.kstep_keys [OF metric_step(1) k] me.kstep_other [OF metric_step(1)]
  have c: "kinv metric_kind a' fm'" "cfg a' = cfg a" "kd_get event_kind a' = kd_get event_kind a"
    and g: "redis_grows w w' (done_keys fm')"
    and q: "queued a' \<subseteq> queued a \<union> done_keys fm'"
    and m: "done_keys fm \<subseteq> done_keys fm'"
    by simp_all
  from metric_step.prems have n: "n \<le> length (redis_trace w)"
    and o': "queued a \<union> deleted n w \<subseteq> done_keys fm \<union> done_keys fe"
    by (auto simp: sys_inv_def)
  note d = redis_grows_deleted [OF g n]
  from key_growth [OF q conjunct2 [OF d] o' m] c d metric_step.prems kinv_frame [of event_kind a' a fe] show ?case
    by (auto simp: sys_inv_def)
next
  case (worker a ks rest w fe fm)
  then have q: "queued (a\<lparr>confirmCh := rest\<rparr>) \<subseteq> queued a" "set ks \<subseteq> queued a" by (auto simp: queued_def)
  from worker.prems have n: "n \<le> length (redis_trace w)" by (simp add: sys_inv_def)
  note d = redis_grows_deleted [OF del_grows [of w E ks] n]
  have "queued (a\<lparr>confirmCh := rest\<rparr>) \<union> deleted n (del E ks w) \<subseteq> queued a \<union> deleted n w" using q d by blast
  moreover have "kinv event_kind (a\<lparr>confirmCh := rest\<rparr>) fe = kinv event_kind a fe"
    "kinv metric_kind (a\<lparr>confirmCh := rest\<rparr>) fm = kinv metric_kind a fm"
    by (rule kinv_frame; simp)+
  ultimately show ?case using worker.prems d unfolding sys_inv_def by auto
next
  case (other a w a' w' fe fm)
  then have "kd_get event_kind a' = kd_get event_kind a" "kd_get metric_kind a' = kd_get metric_kind a" "cfg a' = cfg a"
    by (simp_all add: same_buffers_def event_kind_def metric_kind_def)
  then have "kinv event_kind a' fe = kinv event_kind a fe" "kinv metric_kind a' fm = kinv metric_kind a fm"
    using kinv_frame [of event_kind a' a fe] kinv_frame [of metric_kind a' a fm] by simp_all
  moreover have "queued a' = queued a" "deleted n w' = deleted n w" "cfg a' = cfg a"
    "redis_trace w' = redis_trace w"
    using other by (simp_all add: same_buffers_def queued_def deleted_def)
  ultimately show ?case using other.prems unfolding sys_inv_def by auto
qed

text \<open>An agent with the items of its buffers and nothing under way; \<open>New\<close> and \<open>Start\<close> leave one behind.\<close>

definition quiescent :: "agent \<Rightarrow> world \<Rightarrow> SecurityEvent flight \<Rightarrow> SecurityMetric flight \<Rightarrow> bool" where
  "quiescent a w fe fm \<longleftrightarrow> 0 < BufferSize (cfg a) \<and> confirmCh a = []
     \<and> int (length (items (events a))) \<le> BufferSize (cfg a) \<and> int (length (items (metrics a))) \<le> BufferSize (cfg a)
     \<and> fe = no_flight (mset (items (events a))) \<and> fm = no_flight (mset (items (metrics a)))
     \<and> buffered (events a) = of_nat (length (items (events a))) \<and> dropped (events a) = 0 \<and> sent_count (events a) = 0
     \<and> buffered (metrics a) = of_nat (length (items (metrics a))) \<and> dropped (metrics a) = 0 \<and> sent_count (metrics a) = 0"

lemma quiescent_inv: "quiescent a w fe fm \<Longrightarrow> sys_inv (length (redis_trace w)) (a, w, fe, fm)"
  by (simp add: quiescent_def sys_inv_def kinv_def no_flight_def queued_def deleted_def event_kind_def metric_kind_def)

lemma reachable_inv: "(sys_step E)\<^sup>*\<^sup>* s s' \<Longrightarrow> sys_inv n s \<Longrightarrow> sys_inv n s'"
  by (induction rule: rtranclp_induct) (auto intro: sys_step_inv)

section \<open>What every execution keeps\<close>

text \<open>C1. At-least-once accounting: in every state that any interleaving of producers, reloads, flushes,
  requeues, confirmations and the confirm worker can reach, each event that ever entered the buffer is in
  the buffer, in a batch under way, in a batch the transport settled, among the counted drops, or was
  pushed out by a reload, each exactly once; likewise each metric. No interleaving loses or duplicates
  one.\<close>

theorem delivery_conservation:
  assumes "quiescent a0 w0 fe0 fm0" and "(sys_step E)\<^sup>*\<^sup>* (a0, w0, fe0, fm0) (a, w, fe, fm)"
  shows "entered fe = mset (items (events a)) + in_batches (flying fe) + in_batches (failing fe) + finished fe + lost fe + displaced fe
    \<and> entered fm = mset (items (metrics a)) + in_batches (flying fm) + in_batches (failing fm) + finished fm + lost fm + displaced fm"
  using reachable_inv [OF assms(2) quiescent_inv [OF assms(1)]]
  by (simp add: sys_inv_def kinv_def event_kind_def metric_kind_def)

text \<open>C6. The buffers never exceed the configured size, and the lifetime counters of \<open>Stats\<close> are exact modulo
  2^64: buffered counts what entered, dropped what was dropped, and sent what was settled, up to the
  batches whose count is still to come.\<close>

theorem delivery_counters:
  assumes "quiescent a0 w0 fe0 fm0" and "(sys_step E)\<^sup>*\<^sup>* (a0, w0, fe0, fm0) (a, w, fe, fm)"
  shows "int (length (items (events a))) \<le> BufferSize (cfg a) \<and> int (length (items (metrics a))) \<le> BufferSize (cfg a)
    \<and> buffered (events a) = of_nat (size (entered fe)) \<and> dropped (events a) = of_nat (size (lost fe))
    \<and> sent_count (events a) + of_nat (count_sum (counting fe)) = of_nat (size (finished fe))
    \<and> buffered (metrics a) = of_nat (size (entered fm)) \<and> dropped (metrics a) = of_nat (size (lost fm))
    \<and> sent_count (metrics a) + of_nat (count_sum (counting fm)) = of_nat (size (finished fm))"
  using reachable_inv [OF assms(2) quiescent_inv [OF assms(1)]]
  by (simp add: sys_inv_def kinv_def event_kind_def metric_kind_def)


end
