(* ===== verification/Flush.thy ===== *)
theory Flush
  imports Delivery
begin

text \<open>
  The flush of one kind as a whole: what it does when no other goroutine runs in between, and that it
  is an execution of the step relation of theory Delivery, so that what holds of every execution holds
  of it under any interleaving.
\<close>

section \<open>Frames\<close>

definition same_http :: "world \<Rightarrow> world \<Rightarrow> bool" where
  "same_http w w' \<longleftrightarrow> http_trace w' = http_trace w"

lemma same_http_trans [trans]: "same_http u v \<Longrightarrow> same_http v w \<Longrightarrow> same_http u w"
  by (simp add: same_http_def)

lemma same_http_steps:
  "same_http w (del E ks w)" "same_http w (fireErrorHook h st e x w)" "same_http w (snd (now E w))"
  "same_http w (snd (confirmKeys E ks a w))" "same_http w (snd (settle_failed E K n a w))"
  by (auto simp: same_http_def del_def redis_write_def confirmKeys_def settle_failed_def now_def Let_def
      split: prod.splits)

lemma requeue_http: "same_http w (snd (requeue E K d a w))"
  by (simp add: requeue_def same_http_steps split: prod.splits)

lemma settle_http:
  assumes "settle E K d o' err a w = (r, a', w')"
  shows "http_trace w' = http_trace w"
proof -
  have c: "http_trace (snd (confirmKeys E ks a w)) = http_trace w" for ks a w
    using same_http_steps(4) by (simp add: same_http_def)
  have f: "http_trace (snd (settle_failed E K n a w)) = http_trace w" for n a w
    using same_http_steps(5) by (simp add: same_http_def)
  have q: "http_trace (snd (requeue E K d a w)) = http_trace w" for d a w
    using requeue_http by (simp add: same_http_def)
  show ?thesis
    using assms by (cases o') (auto simp: settle_def Let_def split_beta c f q)
qed

lemma drain_http: "drain E K force a w = (d, a', w') \<Longrightarrow> http_trace w' = http_trace w \<and> clock w \<le> clock w'"
  by (auto simp: drain_def gateClosedLocked_def now_def Let_def split: if_splits prod.splits)

lemma sendSafely_cases:
  assumes "sendSafely E c K xs t w = ((o', err), t', w')"
  obtains r where "sendItems E c (kd_batches K) xs t w = (r, t', w')"
    "outcomeConfirms o' \<Longrightarrow> r = Inr (o', err)" "grows t w t' w'"
proof -
  obtain r where r: "sendItems E c (kd_batches K) xs t w = (r, t', w')"
    using assms by (auto simp: sendSafely_def split: prod.splits sum.splits)
  moreover have "r = Inr (o', err)" if "outcomeConfirms o'"
    using assms r that by (cases r) (auto simp: sendSafely_def outcomeConfirms_def)
  moreover have "grows t w t' w'" using sendItems_grows [OF r] .
  ultimately show thesis by (rule that)
qed

section \<open>A flush on its own\<close>

context kind_access begin

lemma settle_confirmed:
  assumes "settle E K d o' err a w = (r, a', w')" "outcomeConfirms o'"
  shows "r = None \<and> items (kd_get K a') = items (kd_get K a) \<and> dropped (kd_get K a') = dropped (kd_get K a)
    \<and> sent_count (kd_get K a') = sent_count (kd_get K a) + of_nat (length d)
    \<and> failed (kd_get K a') = failed (kd_get K a)"
proof -
  obtain a1 w1 where c: "confirmKeys E (nonempty_keys d) a w = (a1, w1)" by fastforce
  note g = confirmKeys_get [OF c]
  consider "o' = outcomeAccepted" | "o' = outcomePermanent" using assms(2) by (auto simp: outcomeConfirms_def)
  then show ?thesis
    using assms(1) g by cases (auto simp: settle_def c settle_get Let_def)
qed

lemma settle_refused:
  assumes "settle E K d o' err a w = (r, a', w')" "\<not> outcomeConfirms o'" "items (kd_get K a) = []"
    "int (length d) \<le> BufferSize (cfg a)"
  shows "r \<noteq> None \<and> items (kd_get K a') = d \<and> dropped (kd_get K a') = dropped (kd_get K a)
    \<and> sent_count (kd_get K a') = sent_count (kd_get K a)
    \<and> failed (kd_get K a') = failed (kd_get K a) + of_nat (length d)
    \<and> streak (kd_get K a') = streak (kd_get K a) + 1
    \<and> (\<exists>tm. clock w \<le> tm \<and> gate (kd_get K a')
          = tm + partialFailureBackoff (conv E) (streak (kd_get K a) + 1) (FlushInterval (cfg a)))"
proof -
  define tm a1 where tm: "tm = fst (now E w)" and a1: "a1 = kd_map K (\<lambda>s. s\<lparr>gate := tm
      + partialFailureBackoff (conv E) (streak (kd_get K a) + 1) (FlushInterval (cfg a))\<rparr>)
      (kd_map K (\<lambda>s. s\<lparr>failed := failed s + of_nat (length d), streak := streak s + 1\<rparr>) a)"
  have f: "settle_failed E K (length d) a w = (a1, snd (now E w))"
    by (simp add: settle_failed_def Let_def split_beta tm a1)
  obtain ks a2 where q: "requeue_locked K d a1 = (ks, a2)" by fastforce
  obtain a3 w3 where c: "confirmKeys E ks a2 (snd (now E w)) = (a3, w3)" by fastforce
  have "kd_get K a' = kd_get K a3"
    using assms(1,2) by (cases o') (auto simp: settle_def Let_def f requeue_def q c outcomeConfirms_def)
  moreover have "kd_get K a3 = kd_get K a2" using confirmKeys_get [OF c] by simp
  moreover have "length d \<le> nat (BufferSize (cfg a))" using assms(4) by simp
  then have "kd_get K a2 = (kd_get K a1)\<lparr>items := d, dropped := dropped (kd_get K a1)\<rparr>"
    using requeue_locked_get(1) [OF q] assms(3) by (simp add: a1)
  moreover have "r \<noteq> None"
    using assms(1,2) by (cases o') (auto simp: settle_def Let_def outcomeConfirms_def split: prod.splits)
  moreover have "clock w \<le> tm" by (simp add: tm now_def Let_def)
  ultimately show ?thesis by (auto simp: a1)
qed

lemma flush_kind_cases:
  assumes "flush_kind E K c force a w = (r, a', w')"
  obtains (nothing) "r = None" "a' = a" "http_trace w' = http_trace w" "redis_trace w' = redis_trace w" "later w w'"
      "kd_enabled K (cfg a) \<longrightarrow> force \<longrightarrow> items (kd_get K a) = []"
  | (flushed) a1 w1 o' err t1 w2 where "kd_enabled K (cfg a)"
      "drain E K force a w = (Some (items (kd_get K a)), a1, w1)" "items (kd_get K a) \<noteq> []"
      "sendSafely E c K (map payload (items (kd_get K a))) (tr a) w1 = ((o', err), t1, w2)"
      "settle E K (items (kd_get K a)) o' err (a1\<lparr>tr := t1\<rparr>) w2 = (r, a', w')"
proof (cases "kd_enabled K (cfg a)")
  case False
  then have e: "r = None" "a' = a" "w' = w" using assms by (simp_all add: flush_kind_def)
  show thesis by (rule nothing) (simp_all add: e False)
next
  case True
  obtain d a1 w1 where d: "drain E K force a w = (d, a1, w1)" by (metis prod.collapse)
  show thesis
  proof (cases d)
    case None
    then have e: "r = None" "a' = a" "w' = w1" using True assms d drain_None by (auto simp: flush_kind_def)
    have f: "force \<longrightarrow> items (kd_get K a) = []"
      using d None by (auto simp: drain_def Let_def split: if_splits prod.splits)
    show thesis by (rule nothing) (use drain_http [OF d] drain_redis [OF d] drain_later [OF d] f in \<open>simp_all add: e\<close>)
  next
    case (Some ds)
    note g = drain_get [OF d [unfolded Some]]
    obtain o' err t1 w2 where s: "sendSafely E c K (map payload ds) (tr a1) w1 = ((o', err), t1, w2)"
      by (metis prod.collapse)
    have "settle E K ds o' err (a1\<lparr>tr := t1\<rparr>) w2 = (r, a', w')"
      using assms True d Some s by (simp add: flush_kind_def)
    with True d Some s g show thesis by (intro flushed) auto
  qed
qed

lemma flush_failure:
  assumes "flush_kind E K c force a w = (Some e, a', w')" "int (length (items (kd_get K a))) \<le> BufferSize (cfg a)"
  shows "items (kd_get K a') = items (kd_get K a) \<and> dropped (kd_get K a') = dropped (kd_get K a)
    \<and> sent_count (kd_get K a') = sent_count (kd_get K a)
    \<and> failed (kd_get K a') = failed (kd_get K a) + of_nat (length (items (kd_get K a)))
    \<and> streak (kd_get K a') = streak (kd_get K a) + 1
    \<and> (\<exists>tm. clock w \<le> tm \<and> gate (kd_get K a')
          = tm + partialFailureBackoff (conv E) (streak (kd_get K a) + 1) (FlushInterval (cfg a)))"
  using assms(1)
proof (cases rule: flush_kind_cases)
  case (flushed a1 w1 o' err t1 w2)
  note g = drain_get [OF flushed(2)]
  have n: "\<not> outcomeConfirms o'" using settle_confirmed [OF flushed(5)] by auto
  have "clock w \<le> clock w1" using drain_http [OF flushed(2)] by simp
  moreover have "clock w1 \<le> clock w2"
    using flushed(4) by (rule sendSafely_cases) (simp add: grows_def later_def)
  ultimately show ?thesis
    using settle_refused [OF flushed(5) n] g assms(2) by auto
qed simp

lemma flush_success:
  assumes "flush_kind E K c force a w = (None, a', w')"
  shows "kd_get K a' = kd_get K a \<and> http_trace w' = http_trace w
    \<or> items (kd_get K a') = [] \<and> dropped (kd_get K a') = dropped (kd_get K a)
      \<and> sent_count (kd_get K a') = sent_count (kd_get K a) + of_nat (length (items (kd_get K a)))
      \<and> (encryptor (tr a) = None \<longrightarrow>
           covered E (kd_batches K) (tr a) (map payload (items (kd_get K a))) (new_requests w w'))"
  using assms
proof (cases rule: flush_kind_cases)
  case (flushed a1 w1 o' err t1 w2)
  note g = drain_get [OF flushed(2)]
  have len: "int (length (items (kd_get K a))) \<le> BufferSize (cfg a) \<or> True" by simp
  have conf: "outcomeConfirms o'"
  proof (rule ccontr)
    assume "\<not> outcomeConfirms o'"
    then have "(None :: goerror option) \<noteq> None"
      using flushed(5) by (cases o') (auto simp: settle_def Let_def outcomeConfirms_def split: prod.splits)
    then show False by simp
  qed
  obtain q where q: "sendItems E c (kd_batches K) (map payload (items (kd_get K a))) (tr a) w1 = (q, t1, w2)"
    "q = Inr (o', err)"
    using flushed(4) by (rule sendSafely_cases) (use conf in auto)
  have n: "new_requests w w' = new_requests w1 w2"
    using drain_http [OF flushed(2)] settle_http [OF flushed(5)] by (simp add: new_requests_def)
  have "covered E (kd_batches K) (tr a) (map payload (items (kd_get K a))) (new_requests w w')"
    if "encryptor (tr a) = None"
    using sendItems_ok [OF q(1) that] flushed(3) q(2) conf unfolding n by (simp add: sent_ok_def)
  with settle_confirmed [OF flushed(5) conf] g show ?thesis by auto
qed simp

end

section \<open>A flush is an execution\<close>

text \<open>Any relation that contains the steps of a kind and the changes that concern no buffer.\<close>

locale flush_steps = kind_access K for K :: "'a kind" +
  fixes E :: env
    and R :: "agent \<times> world \<times> 'a flight \<Rightarrow> agent \<times> world \<times> 'a flight \<Rightarrow> bool"
  assumes R_kind: "kstep E K s s' \<Longrightarrow> R s s'"
    and R_other: "same_buffers a w a' w' \<Longrightarrow> R (a, w, f) (a', w', f)"
begin

lemma R_other_star: "same_buffers a w a' w' \<Longrightarrow> R\<^sup>*\<^sup>* s (a, w, f) \<Longrightarrow> R\<^sup>*\<^sup>* s (a', w', f)"
  by (rule rtranclp.rtrancl_into_rtrancl) (auto intro: R_other)

lemma R_kind_star: "kstep E K s1 s2 \<Longrightarrow> R\<^sup>*\<^sup>* s s1 \<Longrightarrow> R\<^sup>*\<^sup>* s s2"
  by (rule rtranclp.rtrancl_into_rtrancl) (auto intro: R_kind)

lemma world_same: "redis_trace w' = redis_trace w \<Longrightarrow> later w w' \<Longrightarrow> same_buffers a w a w'"
  by (simp add: same_buffers_def)

lemma settle_confirm_steps:
  assumes "settle E K d o' err a w = (r, a', w')" "outcomeConfirms o'" "d \<in># flying f"
    "R\<^sup>*\<^sup>* s (a, w, f)"
  shows "\<exists>f'. R\<^sup>*\<^sup>* s (a', w', f') \<and> flying f' = flying f - {#d#} \<and> failing f' = failing f
    \<and> counting f' = counting f \<and> unconfirmed f' = unconfirmed f"
proof -
  let ?ks = "nonempty_keys d" and ?n = "length d"
  let ?f1 = "f\<lparr>flying := flying f - {#d#}, finished := finished f + mset d,
      counting := counting f + {#(o', ?n)#}, unconfirmed := unconfirmed f + {#?ks#}\<rparr>"
  obtain a1 w1 where c: "confirmKeys E ?ks a w = (a1, w1)" by fastforce
  have 1: "R\<^sup>*\<^sup>* s (a, w, ?f1)" using assms(3,2,4) by (blast intro: R_kind_star kstep.settle)
  have "kstep E K (a, w, ?f1) (a1, w1, ?f1\<lparr>unconfirmed := unconfirmed ?f1 - {#?ks#}\<rparr>)"
    using c by (intro kstep.confirm) simp_all
  from R_kind_star [OF this 1] have 2: "R\<^sup>*\<^sup>* s (a1, w1, ?f1\<lparr>unconfirmed := unconfirmed f\<rparr>)" by simp
  let ?f2 = "?f1\<lparr>unconfirmed := unconfirmed f\<rparr>"
  let ?a2 = "if o' = outcomeAccepted then settle_accepted K ?n a1 else settle_permanent K ?n a1"
  have "kstep E K (a1, w1, ?f2) (?a2, w1, ?f2\<lparr>counting := counting ?f2 - {#(o', ?n)#}\<rparr>)"
    by (intro kstep.count) simp
  from R_kind_star [OF this 2] have 3: "R\<^sup>*\<^sup>* s (?a2, w1, ?f2\<lparr>counting := counting f\<rparr>)" by simp
  have "a' = ?a2 \<and> redis_trace w' = redis_trace w1 \<and> later w1 w'"
    using assms(1,2) by (cases o') (auto simp: settle_def c Let_def outcomeConfirms_def)
  then have "same_buffers ?a2 w1 a' w'" by (simp add: same_buffers_def)
  from R_other_star [OF this 3] show ?thesis by (intro exI [of _ "?f2\<lparr>counting := counting f\<rparr>"]) simp
qed

lemma settle_refuse_steps:
  assumes "settle E K d o' err a w = (r, a', w')" "\<not> outcomeConfirms o'" "d \<in># flying f"
    "R\<^sup>*\<^sup>* s (a, w, f)"
  shows "\<exists>f'. R\<^sup>*\<^sup>* s (a', w', f') \<and> flying f' = flying f - {#d#} \<and> failing f' = failing f
    \<and> counting f' = counting f \<and> unconfirmed f' = unconfirmed f"
proof -
  obtain a1 w1 where sf: "settle_failed E K (length d) a w = (a1, w1)" by fastforce
  obtain ks a2 where q: "requeue_locked K d a1 = (ks, a2)" by fastforce
  obtain a3 w3 where c: "confirmKeys E ks a2 w1 = (a3, w3)" by fastforce
  let ?f1 = "f\<lparr>flying := flying f - {#d#}, failing := failing f + {#d#}\<rparr>"
  let ?f2 = "?f1\<lparr>failing := failing f, lost := lost f + mset (drop (nat (BufferSize (cfg a1))) (d @ items (kd_get K a1))),
      unconfirmed := unconfirmed f + {#ks#}\<rparr>"
  have 1: "R\<^sup>*\<^sup>* s (a1, w1, ?f1)" using assms(3,4) sf by (blast intro: R_kind_star kstep.fail)
  have "kstep E K (a1, w1, ?f1) (a2, w1, ?f2)"
    using kstep.requeue [of d ?f1 K a1 ks a2 E w1] q by simp
  from R_kind_star [OF this 1] have 2: "R\<^sup>*\<^sup>* s (a2, w1, ?f2)" .
  have "kstep E K (a2, w1, ?f2) (a3, w3, ?f2\<lparr>unconfirmed := unconfirmed f\<rparr>)"
    using kstep.confirm [of ks ?f2 E a2 w1 a3 w3 K] c by simp
  from R_kind_star [OF this 2] have 3: "R\<^sup>*\<^sup>* s (a3, w3, ?f2\<lparr>unconfirmed := unconfirmed f\<rparr>)" .
  have "a' = a3 \<and> redis_trace w' = redis_trace w3 \<and> later w3 w'"
    using assms(1,2) by (cases o') (auto simp: settle_def sf requeue_def q c Let_def outcomeConfirms_def)
  then have "same_buffers a3 w3 a' w'" by (simp add: same_buffers_def)
  from R_other_star [OF this 3] show ?thesis by (intro exI [of _ "?f2\<lparr>unconfirmed := unconfirmed f\<rparr>"]) simp
qed

text \<open>A flush runs as steps, and leaves nothing of its own under way.\<close>

lemma flush_steps:
  assumes "flush_kind E K c force a w = (r, a', w')"
  shows "\<exists>f'. R\<^sup>*\<^sup>* (a, w, f) (a', w', f') \<and> flying f' = flying f \<and> failing f' = failing f
    \<and> counting f' = counting f \<and> unconfirmed f' = unconfirmed f"
  using assms(1)
proof (cases rule: flush_kind_cases)
  case nothing
  then have "same_buffers a w a' w'" by (simp add: same_buffers_def)
  then show ?thesis using R_other by blast
next
  case (flushed a1 w1 o' err t1 w2)
  let ?d = "items (kd_get K a)"
  let ?f1 = "f\<lparr>flying := flying f + {#?d#}\<rparr>"
  have "R\<^sup>*\<^sup>* (a, w, f) (a1, w1, ?f1)"
    using flushed(2) by (blast intro: R_kind_star kstep.drain)
  moreover have "redis_trace w2 = redis_trace w1 \<and> later w1 w2"
    using flushed(4) by (rule sendSafely_cases) (simp add: grows_def)
  then have "same_buffers a1 w1 (a1\<lparr>tr := t1\<rparr>) w2" by (simp add: same_buffers_def)
  ultimately have 2: "R\<^sup>*\<^sup>* (a, w, f) (a1\<lparr>tr := t1\<rparr>, w2, ?f1)" by (blast intro: R_other_star)
  have m: "?d \<in># flying ?f1" by simp
  show ?thesis
  proof (cases "outcomeConfirms o'")
    case True
    from settle_confirm_steps [OF flushed(5) True m 2] show ?thesis by simp
  next
    case False
    from settle_refuse_steps [OF flushed(5) False m 2] show ?thesis by simp
  qed
qed

end

definition event_view :: "env \<Rightarrow> SecurityMetric flight \<Rightarrow> agent \<times> world \<times> SecurityEvent flight
    \<Rightarrow> agent \<times> world \<times> SecurityEvent flight \<Rightarrow> bool" where
  "event_view E fm s s' \<longleftrightarrow> sys_step E (fst s, fst (snd s), snd (snd s), fm) (fst s', fst (snd s'), snd (snd s'), fm)"

definition metric_view :: "env \<Rightarrow> SecurityEvent flight \<Rightarrow> agent \<times> world \<times> SecurityMetric flight
    \<Rightarrow> agent \<times> world \<times> SecurityMetric flight \<Rightarrow> bool" where
  "metric_view E fe s s' \<longleftrightarrow> sys_step E (fst s, fst (snd s), fe, snd (snd s)) (fst s', fst (snd s'), fe, snd (snd s'))"

lemma event_view_star: "(event_view E fm)\<^sup>*\<^sup>* s s'
  \<Longrightarrow> (sys_step E)\<^sup>*\<^sup>* (fst s, fst (snd s), snd (snd s), fm) (fst s', fst (snd s'), snd (snd s'), fm)"
  by (induction rule: rtranclp_induct) (auto simp: event_view_def intro: rtranclp.rtrancl_into_rtrancl)

lemma metric_view_star: "(metric_view E fe)\<^sup>*\<^sup>* s s'
  \<Longrightarrow> (sys_step E)\<^sup>*\<^sup>* (fst s, fst (snd s), fe, snd (snd s)) (fst s', fst (snd s'), fe, snd (snd s'))"
  by (induction rule: rtranclp_induct) (auto simp: metric_view_def intro: rtranclp.rtrancl_into_rtrancl)

interpretation fe: flush_steps event_kind E "event_view E fm" for E fm
proof
  show "event_view E fm s s'" if "kstep E event_kind s s'" for s s'
    using that by (cases s; cases s') (simp add: event_view_def sys_step.event_step)
qed (simp add: event_view_def sys_step.other)

interpretation fm: flush_steps metric_kind E "metric_view E fe" for E fe
proof
  show "metric_view E fe s s'" if "kstep E metric_kind s s'" for s s'
    using that by (cases s; cases s') (simp add: metric_view_def sys_step.metric_step)
qed (simp add: metric_view_def sys_step.other)

lemma flushEvents_reach:
  assumes "flushEvents E c force a w = (r, a', w')"
  shows "\<exists>fe'. (sys_step E)\<^sup>*\<^sup>* (a, w, fe, fm) (a', w', fe', fm) \<and> flying fe' = flying fe
    \<and> failing fe' = failing fe \<and> counting fe' = counting fe \<and> unconfirmed fe' = unconfirmed fe"
  using fe.flush_steps [OF assms [unfolded flushEvents_def], of fm fe] event_view_star [of E fm "(a, w, fe)"]
  by fastforce

lemma flushMetrics_reach:
  assumes "flushMetrics E c force a w = (r, a', w')"
  shows "\<exists>fm'. (sys_step E)\<^sup>*\<^sup>* (a, w, fe, fm) (a', w', fe, fm') \<and> flying fm' = flying fm
    \<and> failing fm' = failing fm \<and> counting fm' = counting fm \<and> unconfirmed fm' = unconfirmed fm"
  using fm.flush_steps [OF assms [unfolded flushMetrics_def], of fe fm] metric_view_star [of E fe "(a, w, fm)"]
  by fastforce

section \<open>What a flush promises\<close>

lemma sample_event_kind [simp]: "kd_get event_kind = events" "kd_batches event_kind = event_batches"
  by (simp_all add: event_kind_def)



text \<open>C10. A sequential flush of both kinds is an execution of the concurrent system that leaves nothing under
  way; so everything shown of the system's executions holds after it.\<close>

theorem flush_refines_system:
  assumes "flushEvents E c force a w = (r1, a1, w1)" and "flushMetrics E c force a1 w1 = (r2, a2, w2)"
  shows "\<exists>fe' fm'. (sys_step E)\<^sup>*\<^sup>* (a, w, fe, fm) (a2, w2, fe', fm')
    \<and> flying fe' = flying fe \<and> failing fe' = failing fe \<and> counting fe' = counting fe
    \<and> flying fm' = flying fm \<and> failing fm' = failing fm \<and> counting fm' = counting fm"
proof -
  obtain fe' where 1: "(sys_step E)\<^sup>*\<^sup>* (a, w, fe, fm) (a1, w1, fe', fm)" "flying fe' = flying fe"
    "failing fe' = failing fe" "counting fe' = counting fe" using flushEvents_reach [OF assms(1)] by blast
  obtain fm' where 2: "(sys_step E)\<^sup>*\<^sup>* (a1, w1, fe', fm) (a2, w2, fe', fm')" "flying fm' = flying fm"
    "failing fm' = failing fm" "counting fm' = counting fm" using flushMetrics_reach [OF assms(2)] by blast
  from rtranclp_trans [OF 1(1) 2(1)] 1 2 show ?thesis by blast
qed

text \<open>The gate holds: before the armed time is over, a flush that is not forced neither sends anything
  nor changes the agent.\<close>

theorem flushEvents_gate:
  assumes "gate (events a) \<noteq> 0" and "clock (observe E w) < gate (events a)"
  shows "flushEvents E c False a w = (None, a, observe E w) \<or> flushEvents E c False a w = (None, a, w)"
  using assms by (simp add: flushEvents_def flush_kind_def drain_def gateClosedLocked_def isZero_def now_def Let_def)

section \<open>Closed examples\<close>

text \<open>An agent with one buffered event, and a server that answers 503.\<close>

definition loaded_agent :: agent where
  "loaded_agent = sample_agent\<lparr>events := (events sample_agent)\<lparr>items := [\<lparr>payload = sample_event, key = []\<rparr>],
     buffered := 1\<rparr>\<rparr>"

definition down :: env where
  "down = calm\<lparr>NewRequest_err := (\<lambda>u. Some ''bad url'')\<rparr>"

lemma loaded_simps [simp]:
  "items (events loaded_agent) = [\<lparr>payload = sample_event, key = []\<rparr>]" "tr loaded_agent = sample_transport"
  "BufferSize (cfg loaded_agent) = 100" "EnableEvents (cfg loaded_agent)" "gate (events loaded_agent) = 0"
  "persist loaded_agent = None" "OnError (cfg loaded_agent) = False"
  by (simp_all add: loaded_agent_def sample_agent_def new_agent_def empty_kstate_def sample_simps)

lemma down_send: "fst (sendItems down Background event_batches [sample_event] sample_transport w)
    = Inr (outcomeFailed, Some (Errorf ''bad url''))"
  by (simp add: sendItems.simps sample_simps new_batch_def gen_batchID_def now_def Let_def
     gen_randomHex_def calm_def down_def marshalBatch_def willCompress_def sendBatch_def
     encodeBody_def sendLoop.simps sendAttempt_def limiterGate_def Acquire_def pruneLocked_def newRateLimiter_def
     Admit_def newCircuitBreaker_def)

lemma down_safely: "fst (sendSafely down Background event_kind [sample_event] sample_transport w)
    = (outcomeFailed, Some (Errorf ''bad url''))"
  using down_send [of w] by (auto simp: sendSafely_def split: prod.split sum.split)

lemma loaded_drain: "\<exists>a1 w1. drain down event_kind True loaded_agent start
    = (Some [\<lparr>payload = sample_event, key = []\<rparr>], a1, w1) \<and> tr a1 = sample_transport"
  by (simp add: drain_def Let_def split_beta signalSpaceLocked_def)

lemma down_flush: "\<exists>e a' w'. flushEvents down Background True loaded_agent start = (Some e, a', w')"
proof -
  obtain a1 w1 where d: "drain down event_kind True loaded_agent start
      = (Some [\<lparr>payload = sample_event, key = []\<rparr>], a1, w1)" "tr a1 = sample_transport"
    using loaded_drain by blast
  obtain t1 w2 where s: "sendSafely down Background event_kind [sample_event] sample_transport w1
      = ((outcomeFailed, Some (Errorf ''bad url'')), t1, w2)"
    using down_safely [of w1] by (metis prod.collapse)
  have "kd_enabled event_kind (cfg loaded_agent)" by (simp add: event_kind_def)
  then show ?thesis
    by (simp add: flushEvents_def flush_kind_def d s settle_def Let_def split_beta)
qed


lemma calm_flush: "\<exists>a' w'. flushEvents calm Background True loaded_agent start = (None, a', w')"
proof -
  obtain a1 w1 where d: "drain calm event_kind True loaded_agent start
      = (Some [\<lparr>payload = sample_event, key = []\<rparr>], a1, w1)" "tr a1 = sample_transport"
    by (simp add: drain_def Let_def split_beta signalSpaceLocked_def)
  have "fst (sendItems calm Background event_batches [sample_event] sample_transport w1) = Inr (outcomeAccepted, None)"
    by (simp add: sendItems.simps sample_simps new_batch_def gen_batchID_def now_def Let_def
     gen_randomHex_def calm_def marshalBatch_def willCompress_def sendBatch_def
     encodeBody_def sendLoop.simps sendAttempt_def limiterGate_def Acquire_def pruneLocked_def newRateLimiter_def
     Admit_def newCircuitBreaker_def client_Do_def after_request_def on_response_def evaluateBatchResponse_def)
  then have "fst (sendSafely calm Background event_kind [sample_event] sample_transport w1) = (outcomeAccepted, None)"
    by (auto simp: sendSafely_def split: prod.split sum.split)
  then obtain t1 w2 where s: "sendSafely calm Background event_kind [sample_event] sample_transport w1
      = ((outcomeAccepted, None), t1, w2)" by (metis prod.collapse)
  have "kd_enabled event_kind (cfg loaded_agent)" by (simp add: event_kind_def)
  then show ?thesis
    by (simp add: flushEvents_def flush_kind_def d s settle_def Let_def split_beta)
qed


theorem flush_refines_system_witness:
  "\<exists>a' w' fe' fm'. (sys_step calm)\<^sup>*\<^sup>* (loaded_agent, start, no_flight {#}, no_flight {#}) (a', w', fe', fm')
     \<and> flying fe' = {#} \<and> failing fe' = {#}"
proof -
  obtain r1 a1 w1 where 1: "flushEvents calm Background True loaded_agent start = (r1, a1, w1)"
    by (metis prod.collapse)
  obtain r2 a2 w2 where 2: "flushMetrics calm Background True a1 w1 = (r2, a2, w2)" by (metis prod.collapse)
  from flush_refines_system [OF 1 2, of "no_flight {#}" "no_flight {#}"] show ?thesis
    by (auto simp: no_flight_def)
qed

theorem flushEvents_gate_witness:
  "let a = loaded_agent\<lparr>events := (events loaded_agent)\<lparr>gate := 100\<rparr>\<rparr> in
     fst (flushEvents calm Background False a start) = None"
proof -
  let ?a = "loaded_agent\<lparr>events := (events loaded_agent)\<lparr>gate := 100\<rparr>\<rparr>"
  have "gate (events ?a) \<noteq> 0" "clock (observe calm start) < gate (events ?a)"
    by (simp_all add: start_def calm_def)
  from flushEvents_gate [OF this, of Background] show ?thesis by auto
qed

text \<open>The concurrent system from an agent without items, after one event was enqueued.\<close>

lemma sample_quiescent: "quiescent sample_agent start (no_flight {#}) (no_flight {#})"
  by (simp add: quiescent_def sample_agent_def new_agent_def empty_kstate_def sample_simps)

lemma sample_reach:
  "\<exists>a w fe. (sys_step calm)\<^sup>*\<^sup>* (sample_agent, start, no_flight {#}, no_flight {#}) (a, w, fe, no_flight {#})
     \<and> entered fe \<noteq> {#}"
proof -
  obtain r nf ks a' w' where e: "enqueue_locked calm event_kind sample_event sample_agent start = ((r, nf, ks), a', w')"
    by (metis prod.collapse)
  have "r = Enqueued"
    using e by (auto simp: enqueue_locked_def sample_agent_def new_agent_def empty_kstate_def sample_simps
        split: prod.splits)
  moreover from e have "sys_step calm (sample_agent, start, no_flight {#}, no_flight {#})
      (a', w', after_enqueue event_kind r ks sample_agent a' (no_flight {#}), no_flight {#})"
    by (intro sys_step.event_step kstep.enqueue)
  ultimately show ?thesis
    by (intro exI [of _ a'] exI [of _ w'] exI [of _ "after_enqueue event_kind r ks sample_agent a' (no_flight {#})"])
       (auto simp: after_enqueue_def)
qed

theorem delivery_conservation_witness:
  "\<exists>(a :: agent) (fe :: SecurityEvent flight). entered fe \<noteq> {#} \<and> entered fe = mset (items (events a)) + in_batches (flying fe)
     + in_batches (failing fe) + finished fe + lost fe + displaced fe"
proof -
  from sample_reach obtain a w fe where r: "(sys_step calm)\<^sup>*\<^sup>* (sample_agent, start, no_flight {#}, no_flight {#})
      (a, w, fe, no_flight {#})" "entered fe \<noteq> {#}" by blast
  from delivery_conservation [OF sample_quiescent r(1)] r(2) show ?thesis by blast
qed

theorem delivery_counters_witness:
  "\<exists>(a :: agent) (fe :: SecurityEvent flight). entered fe \<noteq> {#} \<and> int (length (items (events a))) \<le> BufferSize (cfg a)
     \<and> buffered (events a) = of_nat (size (entered fe))"
proof -
  from sample_reach obtain a w fe where r: "(sys_step calm)\<^sup>*\<^sup>* (sample_agent, start, no_flight {#}, no_flight {#})
      (a, w, fe, no_flight {#})" "entered fe \<noteq> {#}" by blast
  from delivery_counters [OF sample_quiescent r(1)] r(2) show ?thesis by blast
qed


end
