(* ===== verification/Agent.thy ===== *)
theory Agent
  imports Flush InstallId
begin

text \<open>
  agent.go: construction, the lifecycle, the sending and flushing interface, status and statistics.
  The background loops run the operations of this theory on timers and signals; their selects are the
  interleaving of theory Delivery.
\<close>

section \<open>Construction\<close>

definition encryption_refused :: goerror where
  "encryption_refused = EncryptionConfigError
     ''Encryption round-trip failed at startup; refusing plaintext fallback''"

definition New :: "env \<Rightarrow> Config \<Rightarrow> world \<Rightarrow> (goerror + agent) \<times> world" where
  "New E cfg0 w =
    (case normalize E cfg0 of
       (normalized, warnings, Some err) \<Rightarrow> (Inl err, w)
     | (normalized, warnings, None) \<Rightarrow>
       (case resolveInstallID E (InstallID normalized) (InstallIDPath normalized) w of (ident, w1) \<Rightarrow>
        (case CreateEncryptor E (ProjectEncryptionKey normalized) of
           Inl encErr \<Rightarrow> (Inl encryption_refused, w1)
         | Inr enc \<Rightarrow>
           (case (case enc of None \<Rightarrow> (True, w1) | Some p \<Rightarrow> VerifyKey E p w1) of (verified, w2) \<Rightarrow>
            if \<not> verified then (Inl encryption_refused, w2)
            else (case (case Redis normalized of None \<Rightarrow> Inr None
                    | Some r \<Rightarrow> map_sum id Some (newPersistence E r)) of
                Inl err \<Rightarrow> (Inl (ConfigError [''redis configuration invalid: '' @ err]), w2)
              | Inr p \<Rightarrow> (Inr (new_agent normalized ident p
                    ((newTransport normalized ident)\<lparr>encryptor := enc\<rparr>)), w2))))))"

section \<open>Lifecycle\<close>

text \<open>\<open>Start\<close>; the loops it spawns run until the loop context is cancelled.\<close>

definition Start :: "env \<Rightarrow> agent \<Rightarrow> world \<Rightarrow> (goerror option \<times> agent \<times> world) option" where
  "Start E a w =
    (if closed a then Some (Some ErrClosed, a, w)
     else if started a then Some (None, a, w)
     else case now E w of (tm, w1) \<Rightarrow>
       let a1 = a\<lparr>loop_context := Some Background, started := True, startedAt := tm\<rparr> in
       (case persist a1 of None \<Rightarrow> Some (None, a1, w1)
        | Some p \<Rightarrow> (case reloadFromRedisLocked E p a1 w1 of None \<Rightarrow> None
            | Some (a2, w2) \<Rightarrow> Some (None, a2, w2))))"

definition guardClosed :: "agent \<Rightarrow> goerror option" where
  "guardClosed a = (if closed a then Some ErrClosed else None)"

definition loopCtx :: "agent \<Rightarrow> ctx" where
  "loopCtx a = (case loop_context a of Some c \<Rightarrow> c | None \<Rightarrow> Background)"

text \<open>The loop context after \<open>cancel()\<close>: it has ended.\<close>

definition cancelled :: "ctx option \<Rightarrow> world \<Rightarrow> ctx option" where
  "cancelled c w = map_option (\<lambda>_. \<lparr>ends_at = Some (tick w), reason = Canceled\<rparr>) c"

text \<open>\<open>confirmWorker\<close>: the queue is worked off in order; once it is closed and empty, the worker is done.\<close>

fun confirm_all :: "env \<Rightarrow> gostring list list \<Rightarrow> world \<Rightarrow> world" where
  "confirm_all E [] w = w"
| "confirm_all E (ks # rest) w = confirm_all E rest (del E ks w)"

text \<open>\<open>Stop\<close>, at the point where the loops have ended (\<open>wg.Wait\<close>).\<close>

definition Stop :: "env \<Rightarrow> ctx \<Rightarrow> agent \<Rightarrow> world \<Rightarrow> goerror option \<times> agent \<times> world" where
  "Stop E c a w =
    (if closed a then (None, a, w)
     else let a1 = a\<lparr>closed := True, loop_context := cancelled (loop_context a) w\<rparr> in
       case flushEvents E c True a1 w of (errE, a2, w2) \<Rightarrow> case flushMetrics E c True a2 w2 of (errM, a3, w3) \<Rightarrow>
       let err = errors_Join [errE, errM] in
       if persist a3 = None then (err, a3, w3)
       else (err, a3\<lparr>confirmClosed := True, confirmCh := []\<rparr>, confirm_all E (confirmCh a3) w3))"

section \<open>Sending\<close>

text \<open>
  A call returns an error or nil, or it is waiting for space under OverflowBlock. A panic is recovered
  and returned as \<open>ErrInternal\<close>.
\<close>

datatype api = Returned "goerror option" | Waiting

definition recoverPanic :: "gostring \<Rightarrow> gostring \<Rightarrow> goerror" where
  "recoverPanic meth v = Wrapf (''guardagent: internal error in '' @ meth @ '': '' @ v) ErrInternal"

definition api_result :: "gostring \<Rightarrow> enq \<Rightarrow> api" where
  "api_result meth r = (case r of Enqueued \<Rightarrow> Returned None | Refused e \<Rightarrow> Returned (Some e) | MustWait \<Rightarrow> Waiting
     | EnqPanic \<Rightarrow> Returned (Some (recoverPanic meth ''index out of range'')))"

definition invalid_item :: "gostring \<Rightarrow> goerror" where
  "invalid_item m = Wrapf (''guardagent: invalid telemetry item: '' @ m) ErrInvalidEvent"

definition event_type_required :: goerror where
  "event_type_required = invalid_item ''event_type is required''"

definition complete_event :: "env \<Rightarrow> Config \<Rightarrow> SecurityEvent \<Rightarrow> world \<Rightarrow> SecurityEvent \<times> world" where
  "complete_event E c ev w =
    (case (if isZero (ev_Timestamp ev) then (case now E w of (tm, w1) \<Rightarrow> (ev\<lparr>ev_Timestamp := tm\<rparr>, w1)) else (ev, w))
     of (ev1, w1) \<Rightarrow>
     case (if ev_IdempotencyKey ev1 = []
           then (case gen_UUID4 E w1 of (u, w2) \<Rightarrow> (ev1\<lparr>ev_IdempotencyKey := u\<rparr>, w2)) else (ev1, w1))
     of (ev2, w2) \<Rightarrow> (redactEventMetadata E ev2 (sensitive c), w2))"

definition SendEvent :: "env \<Rightarrow> SecurityEvent \<Rightarrow> agent \<Rightarrow> world \<Rightarrow> api \<times> agent \<times> world" where
  "SendEvent E ev a w =
    (case guardClosed a of Some e \<Rightarrow> (Returned (Some e), a, w)
     | None \<Rightarrow> if \<not> EnableEvents (cfg a) then (Returned None, a, w)
       else if ev_EventType ev = [] then (Returned (Some event_type_required), a, w)
       else case complete_event E (cfg a) ev w of (ev1, w1) \<Rightarrow>
         (case enqueueEvent E ev1 a w1 of (r, a1, w2) \<Rightarrow> (api_result ''SendEvent'' r, a1, w2)))"

definition SendMetric :: "env \<Rightarrow> (gostring \<Rightarrow> gostring) \<Rightarrow> SecurityMetric \<Rightarrow> agent \<Rightarrow> world \<Rightarrow> api \<times> agent \<times> world" where
  "SendMetric E quote m a w =
    (case guardClosed a of Some e \<Rightarrow> (Returned (Some e), a, w)
     | None \<Rightarrow> if \<not> EnableMetrics (cfg a) then (Returned None, a, w)
       else if \<not> validMetricType (m_MetricType m)
       then (Returned (Some (invalid_item (''metric_type '' @ quote (m_MetricType m)
              @ '' is not one of the accepted values''))), a, w)
       else case (if isZero (m_Timestamp m) then (case now E w of (tm, w1) \<Rightarrow> (m\<lparr>m_Timestamp := tm\<rparr>, w1)) else (m, w))
         of (m1, w1) \<Rightarrow>
         (case enqueueMetric E (redactMetricTags E m1 (sensitive (cfg a))) a w1 of
           (r, a1, w2) \<Rightarrow> (api_result ''SendMetric'' r, a1, w2)))"

text \<open>
  The loop of \<open>enqueueEvent\<close> with the waiting of OverflowBlock, for \<open>n\<close> passes; \<open>others\<close> is what the other
  goroutines do to the agent while the caller waits. None: still waiting after the passes.
\<close>

fun enqueue_loop :: "env \<Rightarrow> 'a kind \<Rightarrow> ctx \<Rightarrow> (agent \<Rightarrow> agent) \<Rightarrow> nat \<Rightarrow> 'a \<Rightarrow> agent \<Rightarrow> world
    \<Rightarrow> (enq \<times> agent \<times> world) option" where
  "enqueue_loop E K c others 0 x a w = None"
| "enqueue_loop E K c others (Suc n) x a w =
    (case enqueue E K x a w of
       (MustWait, a1, w1) \<Rightarrow> (case block_wait E c (others a1) w1 of
           (Some e, a2, w2) \<Rightarrow> Some (Refused e, a2, w2)
         | (None, a2, w2) \<Rightarrow> enqueue_loop E K c others n x a2 w2)
     | r \<Rightarrow> Some r)"

section \<open>Flushing\<close>

definition Flush :: "env \<Rightarrow> ctx \<Rightarrow> agent \<Rightarrow> world \<Rightarrow> goerror option \<times> agent \<times> world" where
  "Flush E c a w =
    (case guardClosed a of Some e \<Rightarrow> (Some e, a, w)
     | None \<Rightarrow> case flushEvents E c False a w of (errE, a1, w1) \<Rightarrow>
         case flushMetrics E c False a1 w1 of (errM, a2, w2) \<Rightarrow> (errors_Join [errE, errM], a2, w2))"

definition flushTick :: "env \<Rightarrow> int \<Rightarrow> agent \<Rightarrow> world \<Rightarrow> int \<times> agent \<times> world" where
  "flushTick E consecutive a w = (case Flush E (loopCtx a) a w of
     (Some err, a1, w1) \<Rightarrow> (consecutive + 1, a1, w1) | (None, a1, w1) \<Rightarrow> (0, a1, w1))"

definition flushIfNeeded :: "env \<Rightarrow> agent \<Rightarrow> world \<Rightarrow> agent \<times> world" where
  "flushIfNeeded E a w =
    (if combined a = 0 then (a, w)
     else let watermarkOK = watermarkReachedLocked a in
       case (if isZero (lastFlush a) then (True, w)
             else case now E w of (tm, w1) \<Rightarrow> (time_sub tm (lastFlush a) \<ge> FlushInterval (cfg a), w1))
       of (elapsedOK, w1) \<Rightarrow>
       if watermarkOK \<or> elapsedOK then (case Flush E (loopCtx a) a w1 of (e, a1, w2) \<Rightarrow> (a1, w2)) else (a, w1))"

section \<open>Construction is sound\<close>

lemma map_sum_Some: "map_sum id Some x = Inr y \<Longrightarrow> \<exists>z. y = Some z"
  by (cases x) auto

lemma New_cases:
  assumes "New E cfg0 w = (Inr a, w')"
  obtains c ws ident w1 enc p where "normalize E cfg0 = (c, ws, None)"
    "resolveInstallID E (InstallID c) (InstallIDPath c) w = (ident, w1)"
    "CreateEncryptor E (ProjectEncryptionKey c) = Inr enc"
    "case enc of None \<Rightarrow> w' = w1 | Some q \<Rightarrow> VerifyKey E q w1 = (True, w')"
    "a = new_agent c ident p ((newTransport c ident)\<lparr>encryptor := enc\<rparr>)"
    "p = None \<longleftrightarrow> Redis c = None"
proof -
  obtain c ws e where n: "normalize E cfg0 = (c, ws, e)" by (metis prod.collapse)
  obtain ident w1 where i: "resolveInstallID E (InstallID c) (InstallIDPath c) w = (ident, w1)"
    by (metis prod.collapse)
  have e: "e = None" using assms n by (cases e) (auto simp: New_def)
  obtain enc where enc: "CreateEncryptor E (ProjectEncryptionKey c) = Inr enc"
    using assms n e i by (cases "CreateEncryptor E (ProjectEncryptionKey c)") (auto simp: New_def)
  show thesis
  proof (cases enc)
    case None
    with assms n e i enc show thesis
      by (intro that [of c ws ident w1 enc "persist a"])
         (auto simp: New_def new_agent_def split: option.splits sum.splits dest: map_sum_Some)
  next
    case (Some q)
    obtain v w2 where v: "VerifyKey E q w1 = (v, w2)" by fastforce
    with assms n e i enc Some show thesis
      by (intro that [of c ws ident w1 enc "persist a"])
         (auto simp: New_def new_agent_def split: option.splits sum.splits if_splits dest: map_sum_Some)
  qed
qed

lemma New_built:
  assumes "New E cfg0 w = (Inr a, w')"
  shows "sound_config (cfg a) \<and> quiescent a w' (no_flight {#}) (no_flight {#})
    \<and> t_cfg (tr a) = cfg a \<and> t_installID (tr a) = installID a \<and> \<not> started a \<and> \<not> closed a
    \<and> (persist a = None \<longleftrightarrow> Redis (cfg a) = None)" and "\<not> confirmClosed a" and "Redis (cfg a) = None \<longleftrightarrow> Redis cfg0 = None"
proof -
  from assms obtain c ws ident w1 enc p where n: "normalize E cfg0 = (c, ws, None)"
    and a: "a = new_agent c ident p ((newTransport c ident)\<lparr>encryptor := enc\<rparr>)"
    and p: "p = None \<longleftrightarrow> Redis c = None" by (rule New_cases)
  from normalize_ok_sound [OF n] have "sound_config c" .
  with a p show "sound_config (cfg a) \<and> quiescent a w' (no_flight {#}) (no_flight {#})
    \<and> t_cfg (tr a) = cfg a \<and> t_installID (tr a) = installID a \<and> \<not> started a \<and> \<not> closed a
    \<and> (persist a = None \<longleftrightarrow> Redis (cfg a) = None)"
    by (simp add: new_agent_def newTransport_def quiescent_def empty_kstate_def sound_config_def)
  show "\<not> confirmClosed a" by (simp add: a new_agent_def)
  show "Redis (cfg a) = None \<longleftrightarrow> Redis cfg0 = None" using normalize_Redis [OF n] by (simp add: a new_agent_def)
qed

text \<open>An agent is only ever constructed from a sound configuration, starts with empty buffers and zeroed
  counters (the starting point of the delivery theorems), and hands the same configuration and
  identity to its transport.\<close>

theorem New_sound:
  assumes "New E cfg0 w = (Inr a, w')"
  shows "sound_config (cfg a) \<and> quiescent a w' (no_flight {#}) (no_flight {#})
    \<and> t_cfg (tr a) = cfg a \<and> t_installID (tr a) = installID a \<and> \<not> started a \<and> \<not> closed a
    \<and> (persist a = None \<longleftrightarrow> Redis (cfg a) = None)"
  using assms by (rule New_built(1))

text \<open>A configuration for the closed examples, without and with a project key.\<close>

definition sample_key :: gostring where
  "sample_key = replicate 32 (CHR ''k'')"

definition sample_config :: "gostring \<Rightarrow> Config" where
  "sample_config k = DefaultConfig\<lparr>APIKey := ''0123456789'', Endpoint := [], InstallID := ''install'',
     ProjectEncryptionKey := k\<rparr>"

lemma sample_normalize: "normalize calm (sample_config k) = (fill_defaults calm (sample_config k), [], None)"
proof -
  obtain v where v: "defaultHighWatermark = Fin v" "0 < v" "v \<le> 1" using defaultHighWatermark_Fin by blast
  have "config_problems calm (sample_config k) = []"
    unfolding sample_config_def DefaultConfig_def v(1) using v(2,3)
    by (simp add: config_problems_def problem_if_def normalizeEndpoint_def)
  moreover have "normalizeEndpoint calm (Endpoint (sample_config k)) = Inr (DefaultEndpoint, [])"
    by (simp add: normalizeEndpoint_def sample_config_def)
  ultimately show ?thesis by (simp add: normalize_ok_iff)
qed

lemma sample_filled:
  "InstallID (fill_defaults E (sample_config k)) = ''install''"
  "ProjectEncryptionKey (fill_defaults E (sample_config k)) = k" "Redis (fill_defaults E (sample_config k)) = None"
  by (simp_all add: fill_defaults_def sample_config_def DefaultConfig_def)

lemma calm_VerifyKey: "VerifyKey calm p w = (True, observe calm w)"
proof -
  obtain c where c: "Encrypt calm p [(''test'', GString ''verification'')] [] w = (Inr c, observe calm w)"
    and nonce: "c = encodeUrlsafeBase64 (replicate encryptionNonceSize (CHR 0x00)
      @ aead_Seal calm (aead p) (replicate encryptionNonceSize (CHR 0x00))
          (canonicalJSON calm [(''test'', GString ''verification'')]) [])"
    by (simp add: Encrypt_def calm_def Let_def)
  have "Decrypt calm p c [] = Inr []"
    unfolding nonce by (rule Decrypt_sealed [OF calm_aead_sound]) (simp_all add: calm_def)
  with c show ?thesis by (simp add: VerifyKey_def Let_def calm_def)
qed

lemma sample_New: "\<exists>a w'. New calm (sample_config []) start = (Inr a, w')"
  by (simp add: New_def sample_normalize sample_filled resolveInstallID_def CreateEncryptor_def)

lemma sample_New_key: "\<exists>a w'. New calm (sample_config (encodeUrlsafeBase64 sample_key)) start = (Inr a, w')"
proof -
  have "CreateEncryptor calm (encodeUrlsafeBase64 sample_key) = Inr (Some \<lparr>aead = sample_key\<rparr>)"
    by (rule CreateEncryptor_decoded [OF base64_decode_encode]) (simp add: sample_key_def)
  then show ?thesis
    by (simp add: New_def sample_normalize sample_filled resolveInstallID_def calm_VerifyKey)
qed

theorem New_sound_witness:
  "\<exists>a w'. New calm (sample_config []) start = (Inr a, w') \<and> sound_config (cfg a) \<and> \<not> started a"
proof -
  from sample_New obtain a w' where n: "New calm (sample_config []) start = (Inr a, w')" by blast
  with New_sound [OF n] show ?thesis by blast
qed

text \<open>C20. Encryption fails closed: with a project key the agent exists only with an encryptor for a decoded
  32-byte key that passed its round-trip check, and without a key it has none. There is no way to a
  plain-text agent from a configuration with a key.\<close>

theorem New_encryption:
  assumes "New E cfg0 w = (Inr a, w')"
  shows "if ProjectEncryptionKey cfg0 = [] then encryptor (tr a) = None
    else \<exists>p w1. encryptor (tr a) = Some p \<and> decodeUrlsafeBase64 (ProjectEncryptionKey cfg0) = Some (aead p)
      \<and> length (aead p) = 32 \<and> VerifyKey E p w1 = (True, w')"
proof -
  from assms obtain c ws ident w1 enc p where n: "normalize E cfg0 = (c, ws, None)"
    and enc: "CreateEncryptor E (ProjectEncryptionKey c) = Inr enc"
    and v: "case enc of None \<Rightarrow> w' = w1 | Some q \<Rightarrow> VerifyKey E q w1 = (True, w')"
    and a: "a = new_agent c ident p ((newTransport c ident)\<lparr>encryptor := enc\<rparr>)" by (rule New_cases)
  have k: "ProjectEncryptionKey c = ProjectEncryptionKey cfg0"
    using n by (simp add: normalize_ok_iff fill_defaults_def)
  have t: "encryptor (tr a) = enc" by (simp add: a new_agent_def)
  show ?thesis
  proof (cases "ProjectEncryptionKey cfg0 = []")
    case True
    with enc k t show ?thesis by (simp add: CreateEncryptor_def)
  next
    case False
    then obtain key where "decodeUrlsafeBase64 (ProjectEncryptionKey cfg0) = Some key" "length key = 32"
      "enc = Some \<lparr>aead = key\<rparr>"
      using enc k by (auto simp: CreateEncryptor_def NewPayloadEncryptor_def split: if_splits option.splits)
    with False v t show ?thesis by auto
  qed
qed

theorem New_encryption_witness:
  "\<exists>a w' p. New calm (sample_config (encodeUrlsafeBase64 sample_key)) start = (Inr a, w')
    \<and> encryptor (tr a) = Some p"
proof -
  from sample_New_key obtain a w' where n: "New calm (sample_config (encodeUrlsafeBase64 sample_key)) start = (Inr a, w')"
    by blast
  have "decodeUrlsafeBase64 (encodeUrlsafeBase64 sample_key) \<noteq> decodeUrlsafeBase64 []"
    by (simp add: base64_decode_encode sample_key_def)
  then have "ProjectEncryptionKey (sample_config (encodeUrlsafeBase64 sample_key)) \<noteq> []"
    by (auto simp: sample_config_def)
  with New_encryption [OF n] n show ?thesis by auto
qed

section \<open>Sending\<close>

context kind_access begin

lemma enqueue_cases:
  assumes "enqueue E K x a w = (r, a', w')" "0 < BufferSize (cfg a)"
  obtains (stored) k where "r = Enqueued" "items (kd_get K a') \<noteq> []" "last (items (kd_get K a')) = \<lparr>payload = x, key = k\<rparr>"
      "Overflow (cfg a) = OverflowDrop \<or> \<not> is_full K a"
      "butlast (items (kd_get K a')) = (if is_full K a then tl (items (kd_get K a)) else items (kd_get K a))"
  | (full) "is_full K a" "a' = a" "w' = w" "Overflow (cfg a) \<noteq> OverflowDrop"
      "r = (if Overflow (cfg a) = OverflowRaise then Refused (BufferFullError (kd_name K) (BufferSize (cfg a)))
         else MustWait)"
proof -
  obtain nf ks a1 w1 where l: "enqueue_locked E K x a w = ((r, nf, ks), a1, w1)"
    using assms(1) by (auto simp: enqueue_def split: prod.splits)
  obtain a2 w2 where c: "confirmKeys E ks a1 w1 = (a2, w2)" by fastforce
  have get: "kd_get K a' = kd_get K a1" and same: "ks = [] \<Longrightarrow> \<not> nf \<Longrightarrow> a' = a1 \<and> w' = w1"
    using assms(1) l c confirmKeys_get [OF c] by (auto simp: enqueue_def confirmKeys_def split: if_splits)
  from l show thesis
  proof (cases rule: enqueue_locked_cases)
    case (room k)
    with get show thesis by (intro stored [of k]) (simp_all add: is_full_def)
  next
    case (evict k old rest)
    with get show thesis by (intro stored [of k]) (simp_all add: is_full_def)
  next
    case refused
    have ne: "items (kd_get K a) \<noteq> []" using refused(1) assms(2) by auto
    have o': "Overflow (cfg a) \<noteq> OverflowDrop"
    proof
      assume "Overflow (cfg a) = OverflowDrop"
      with l refused(1) ne have "r = Enqueued"
        by (auto simp: enqueue_locked_def neq_Nil_conv split: prod.splits)
      with refused(2) show False by simp
    qed
    have nf: "\<not> nf" using l refused(1) o' by (auto simp: enqueue_locked_def split: if_splits)
    have r: "r = (if Overflow (cfg a) = OverflowRaise then Refused (BufferFullError (kd_name K) (BufferSize (cfg a)))
         else MustWait)"
      using l refused(1) o' by (auto simp: enqueue_locked_def split: if_splits)
    from same [OF refused(3) nf] refused r o' show thesis by (intro full) (simp_all add: is_full_def)
  qed
qed

end

text \<open>The fields a captured event must have: a key for idempotency, and redacted metadata.\<close>

definition captured :: "env \<Rightarrow> Config \<Rightarrow> SecurityEvent \<Rightarrow> SecurityEvent \<Rightarrow> bool" where
  "captured E c ev ev' \<longleftrightarrow> ev_EventType ev' = ev_EventType ev \<and> ev_IdempotencyKey ev' \<noteq> []
     \<and> (ev_IdempotencyKey ev \<noteq> [] \<longrightarrow> ev_IdempotencyKey ev' = ev_IdempotencyKey ev)
     \<and> (\<not> isZero (ev_Timestamp ev) \<longrightarrow> ev_Timestamp ev' = ev_Timestamp ev)
     \<and> event_redacted E (normalizeSensitiveHeaders E (Some (sensitive c))) ev'"

lemma gen_UUID4_nonempty: "fst (gen_UUID4 E w) \<noteq> []"
  by (simp add: gen_UUID4_def newUUID4_def uuid_format_def Let_def split: option.split)

lemma redactEventMetadata_fields:
  "ev_EventType (redactEventMetadata E ev hs) = ev_EventType ev"
  "ev_IdempotencyKey (redactEventMetadata E ev hs) = ev_IdempotencyKey ev"
  "ev_Timestamp (redactEventMetadata E ev hs) = ev_Timestamp ev"
  "event_redacted E (normalizeSensitiveHeaders E (Some hs)) (redactEventMetadata E ev hs)"
  using redact_event_cases [of E ev hs]
  by (auto simp: event_redacted_def split: option.splits)

lemma complete_event_captured: "captured E c ev (fst (complete_event E c ev w))"
  using gen_UUID4_nonempty [of E]
  by (auto simp: captured_def complete_event_def redactEventMetadata_fields split: prod.split)
     (metis fst_conv)+



text \<open>C25. OverflowRaise and OverflowBlock never lose a buffered item: with a full buffer the call is refused with
  \<open>BufferFullError\<close>, which matches \<open>ErrBufferFull\<close>, or waits, and the agent is unchanged.\<close>

theorem SendEvent_full:
  assumes "SendEvent E ev a w = (r, a', w')" and "\<not> closed a" and "EnableEvents (cfg a)" and "ev_EventType ev \<noteq> []"
    and "is_full event_kind a" and "0 < BufferSize (cfg a)" and "Overflow (cfg a) \<noteq> OverflowDrop"
  shows "a' = a \<and> (if Overflow (cfg a) = OverflowRaise
    then \<exists>e. r = Returned (Some e) \<and> e = BufferFullError ''event'' (BufferSize (cfg a)) \<and> errors_Is e ErrBufferFull
    else r = Waiting)"
proof -
  obtain ev1 w1 where c: "complete_event E (cfg a) ev w = (ev1, w1)" by (metis prod.collapse)
  obtain q a1 w2 where e: "enqueue E event_kind ev1 a w1 = (q, a1, w2)" by (metis prod.collapse)
  have r: "r = api_result ''SendEvent'' q" "a' = a1"
    using assms(1-4) c e by (auto simp: SendEvent_def enqueueEvent_def guardClosed_def)
  from e assms(6) show ?thesis
  proof (cases rule: ek.enqueue_cases)
    case stored
    with assms(5,7) show ?thesis by simp
  next
    case full
    with r show ?thesis by (simp add: api_result_def event_kind_def BufferFullError_Is_def)
  qed
qed

text \<open>A full agent with a buffer of one item, for the closed examples.\<close>

definition full_agent :: "gostring \<Rightarrow> agent" where
  "full_agent policy = loaded_agent\<lparr>cfg := (cfg loaded_agent)\<lparr>BufferSize := 1, Overflow := policy\<rparr>\<rparr>"

lemma full_agent_simps [simp]:
  "is_full event_kind (full_agent p)" "BufferSize (cfg (full_agent p)) = 1" "Overflow (cfg (full_agent p)) = p"
  "\<not> closed (full_agent p)" "EnableEvents (cfg (full_agent p))" "\<not> flushSignal (full_agent p)"
  by (simp_all add: is_full_def full_agent_def loaded_agent_def sample_agent_def new_agent_def sample_simps)

theorem SendEvent_full_witness:
  "\<exists>e a' w'. SendEvent calm sample_event (full_agent OverflowRaise) start = (Returned (Some e), a', w')
    \<and> errors_Is e ErrBufferFull"
proof -
  obtain r a' w' where s: "SendEvent calm sample_event (full_agent OverflowRaise) start = (r, a', w')"
    by (metis prod.collapse)
  have "ev_EventType sample_event \<noteq> []" by (simp add: sample_event_def)
  with SendEvent_full [OF s] s show ?thesis by auto
qed

section \<open>Waiting for space\<close>

context kind_access begin

lemma enqueue_waits:
  assumes "is_full K a" "0 < BufferSize (cfg a)" "Overflow (cfg a) = OverflowBlock"
  shows "enqueue E K x a w = (MustWait, a, w)"
proof -
  obtain r a' w' where e: "enqueue E K x a w = (r, a', w')" by (metis prod.collapse)
  from e assms(2) show ?thesis
  proof (cases rule: enqueue_cases)
    case stored
    with assms show ?thesis by simp
  next
    case full
    with assms e show ?thesis by simp
  qed
qed

lemma wait_ends:
  assumes "is_full K a" "0 < BufferSize (cfg a)" "Overflow (cfg a) = OverflowBlock" "\<not> flushSignal a"
    "ends_at c = Some m"
  shows "\<exists>w'. enqueue_loop E K c (\<lambda>a. a) (Suc (m - tick w)) x a w = Some (Refused (CtxErr (reason c)), a, w')"
proof (induction "m - tick w" arbitrary: w)
  case 0
  then have "ctx_done c (observe E w)" by (simp add: ctx_done_def assms(5))
  then show ?case
    by (simp add: enqueue_waits [OF assms(1-3)] block_wait_def Let_def assms(4))
next
  case (Suc k)
  show ?case
  proof (cases "ctx_done c (observe E w)")
    case True
    then show ?thesis
      by (simp add: enqueue_waits [OF assms(1-3)] block_wait_def Let_def assms(4))
  next
    case False
    let ?w = "(observe E w)\<lparr>clock := clock (observe E w) + blockPollInterval\<rparr>"
    have "k = m - tick ?w" using Suc.hyps(2) by simp
    from Suc.hyps(1) [OF this] have "\<exists>w'. enqueue_loop E K c (\<lambda>a. a) (Suc k) x a ?w
        = Some (Refused (CtxErr (reason c)), a, w')" using \<open>k = m - tick ?w\<close> by simp
    moreover have "Suc (m - tick w) = Suc (Suc k)" using Suc.hyps(2) by simp
    ultimately show ?thesis using False
      by (simp add: enqueue_waits [OF assms(1-3)] block_wait_def Let_def assms(4)
          del: enqueue_loop.simps(2) add: enqueue_loop.simps(2) [of E K c "\<lambda>a. a" "Suc k"])
  qed
qed

lemma wait_forever:
  assumes "is_full K a" "0 < BufferSize (cfg a)" "Overflow (cfg a) = OverflowBlock" "\<not> flushSignal a"
  shows "enqueue_loop E K Background (\<lambda>a. a) n x a w = None"
  by (induction n arbitrary: w)
     (simp_all add: enqueue_waits [OF assms(1-3)] block_wait_def Let_def assms(4) ctx_done_def Background_def)

end





end
