(* ===== verification/Lifecycle.thy ===== *)
theory Lifecycle
  imports Agent
begin

text \<open>
  The life of an agent: the reload of persisted records at \<open>Start\<close>, the refusals after \<open>Stop\<close>, and the
  final flush with the confirm queue worked off.
\<close>

section \<open>The confirm queue over a flush\<close>

text \<open>The keys on their way to Redis or deleted there, from the given position of the trace on.\<close>

definition handled :: "nat \<Rightarrow> agent \<Rightarrow> world \<Rightarrow> gostring set" where
  "handled n a w = queued a \<union> deleted n w"

text \<open>What a step leaves alone, and that it only adds to the queue and to the trace.\<close>

definition queue_grows :: "agent \<Rightarrow> world \<Rightarrow> agent \<Rightarrow> world \<Rightarrow> bool" where
  "queue_grows a w a' w' \<longleftrightarrow> (\<exists>qs. confirmCh a' = confirmCh a @ qs) \<and> (\<exists>cs. redis_trace w' = redis_trace w @ cs)
     \<and> closed a' = closed a \<and> confirmClosed a' = confirmClosed a \<and> persist a' = persist a \<and> cfg a' = cfg a"

lemma queue_grows_refl [simp, intro]: "queue_grows a w a w"
  by (simp add: queue_grows_def)

lemma queue_grows_trans [trans]: "queue_grows a w b v \<Longrightarrow> queue_grows b v c u \<Longrightarrow> queue_grows a w c u"
  by (auto simp: queue_grows_def)

lemma queue_grows_handled:
  assumes "queue_grows a w a' w'" "n \<le> length (redis_trace w)"
  shows "handled n a w \<subseteq> handled n a' w' \<and> n \<le> length (redis_trace w')"
  using assms by (auto simp: queue_grows_def handled_def queued_def deleted_def)

lemma confirmKeys_grows: "confirmKeys E ks a w = (a', w') \<Longrightarrow> queue_grows a w a' w'"
  by (auto simp: confirmKeys_def queue_grows_def del_def redis_write_def split: if_splits)

lemma confirmKeys_handled:
  assumes "confirmKeys E ks a w = (a', w')" "persist a \<noteq> None" "\<not> confirmClosed a" "n \<le> length (redis_trace w)"
  shows "set ks \<subseteq> handled n a' w'"
  using assms by (auto simp: confirmKeys_def handled_def queued_def deleted_def del_def redis_write_def split: if_splits)

lemma fireErrorHook_queue [simp]: "queue_grows a w a' (fireErrorHook h st e x w') = queue_grows a w a' w'"
  by (simp add: queue_grows_def)

lemma handled_hook [simp]: "handled n a (fireErrorHook h st e x w) = handled n a w"
  by (simp add: handled_def deleted_def)

context kind_access begin

lemma settle_queue_frame:
  "confirmClosed (settle_accepted K n a) = confirmClosed a" "closed (settle_accepted K n a) = closed a"
  "confirmClosed (settle_permanent K n a) = confirmClosed a" "closed (settle_permanent K n a) = closed a"
  by (simp_all add: settle_accepted_def settle_permanent_def recordErrorLocked_def Let_def)

lemma settle_queue:
  "queue_grows a w (settle_accepted K n a') w' = queue_grows a w a' w'"
  "queue_grows a w (settle_permanent K n a') w' = queue_grows a w a' w'"
  "handled m (settle_accepted K n a) w = handled m a w"
  "handled m (settle_permanent K n a) w = handled m a w"
  by (simp_all add: queue_grows_def settle_queue_frame settle_frame handled_def queued_def)

lemma requeue_queue: "requeue E K d a w = (a', w') \<Longrightarrow> queue_grows a w a' w'"
proof -
  assume r: "requeue E K d a w = (a', w')"
  obtain ks a1 where q: "requeue_locked K d a = (ks, a1)" by fastforce
  have "confirmClosed a1 = confirmClosed a" "closed a1 = closed a"
    using q by (auto simp: requeue_locked_def signalSpaceLocked_def Let_def)
  then have "queue_grows a w a1 w" using requeue_locked_get(3-5) [OF q] by (simp add: queue_grows_def)
  also have "queue_grows a1 w a' w'" using r q by (simp add: requeue_def confirmKeys_grows)
  finally show ?thesis .
qed

lemma settle_failed_queue: "settle_failed E K n a w = (a', w') \<Longrightarrow> queue_grows a w a' w'"
  by (auto simp: settle_failed_def queue_grows_def now_def Let_def split: prod.splits)

lemma settle_grows:
  assumes "settle E K d o' err a w = (r, a', w')"
  shows "queue_grows a w a' w'"
proof (cases "outcomeConfirms o'")
  case True
  obtain a1 w1 where c: "confirmKeys E (nonempty_keys d) a w = (a1, w1)" by fastforce
  from confirmKeys_grows [OF c] True assms show ?thesis
    by (cases o') (auto simp: settle_def c Let_def outcomeConfirms_def settle_queue)
next
  case False
  obtain a1 w1 where f: "settle_failed E K (length d) a w = (a1, w1)" by fastforce
  obtain a2 w2 where q: "requeue E K d a1 w1 = (a2, w2)" by fastforce
  have "queue_grows a w a2 w2" using settle_failed_queue [OF f] requeue_queue [OF q] by (rule queue_grows_trans)
  with False assms show ?thesis
    by (cases o') (auto simp: settle_def f q Let_def outcomeConfirms_def)
qed

text \<open>A settled batch has its records confirmed.\<close>

lemma settle_handled:
  assumes "settle E K d o' err a w = (r, a', w')" "outcomeConfirms o'" "persist a \<noteq> None" "\<not> confirmClosed a"
    "n \<le> length (redis_trace w)"
  shows "set (nonempty_keys d) \<subseteq> handled n a' w'"
proof -
  obtain a1 w1 where c: "confirmKeys E (nonempty_keys d) a w = (a1, w1)" by fastforce
  from confirmKeys_handled [OF c assms(3-5)] assms(1,2) show ?thesis
    by (cases o') (auto simp: settle_def c Let_def outcomeConfirms_def settle_queue)
qed

lemma drain_queue: "drain E K force a w = (d, a', w') \<Longrightarrow> queue_grows a w a' w'"
  by (auto simp: drain_def gateClosedLocked_def now_def signalSpaceLocked_def queue_grows_def Let_def
      split: if_splits prod.splits)

lemma flush_grows:
  assumes "flush_kind E K c force a w = (r, a', w')"
  shows "queue_grows a w a' w'"
  using assms
proof (cases rule: flush_kind_cases)
  case nothing
  then show ?thesis by (simp add: queue_grows_def)
next
  case (flushed a1 w1 o' err t1 w2)
  note drain_queue [OF flushed(2)]
  also have "redis_trace w2 = redis_trace w1"
    using flushed(4) by (rule sendSafely_cases) (simp add: grows_def)
  then have "queue_grows a1 w1 (a1\<lparr>tr := t1\<rparr>) w2" by (simp add: queue_grows_def)
  also note settle_grows [OF flushed(5)]
  finally show ?thesis .
qed

text \<open>A forced flush without an error empties the buffer and confirms what was persisted of it.\<close>

lemma flush_forced:
  assumes "flush_kind E K c True a w = (None, a', w')" "kd_enabled K (cfg a)"
  shows "items (kd_get K a') = []"
    and "persist a \<noteq> None \<Longrightarrow> \<not> confirmClosed a \<Longrightarrow> n \<le> length (redis_trace w)
      \<Longrightarrow> set (nonempty_keys (items (kd_get K a))) \<subseteq> handled n a' w'"
proof -
  have "items (kd_get K a') = [] \<and> (persist a \<noteq> None \<longrightarrow> \<not> confirmClosed a \<longrightarrow> n \<le> length (redis_trace w)
      \<longrightarrow> set (nonempty_keys (items (kd_get K a))) \<subseteq> handled n a' w')"
  proof (cases "items (kd_get K a) = []")
    case True
    with assms show ?thesis by (simp add: flush_kind_def drain_def nonempty_keys_def)
  next
    case False
    from assms(1) show ?thesis
    proof (cases rule: flush_kind_cases)
      case nothing
      with assms False show ?thesis by simp
    next
      case (flushed a1 w1 o' err t1 w2)
      have conf: "outcomeConfirms o'"
        using flushed(5) by (cases o') (auto simp: settle_def Let_def outcomeConfirms_def split: prod.splits)
      note g = drain_get [OF flushed(2)]
      have "redis_trace w2 = redis_trace w1"
        using flushed(4) by (rule sendSafely_cases) (simp add: grows_def)
      then have "redis_trace w2 = redis_trace w" using drain_redis [OF flushed(2)] by simp
      with settle_handled [OF flushed(5) conf, of n] settle_confirmed [OF flushed(5) conf] g show ?thesis by auto
    qed
  qed
  then show "items (kd_get K a') = []" and "persist a \<noteq> None \<Longrightarrow> \<not> confirmClosed a \<Longrightarrow> n \<le> length (redis_trace w)
      \<Longrightarrow> set (nonempty_keys (items (kd_get K a))) \<subseteq> handled n a' w'" by auto
qed

end

text \<open>A flush of one kind leaves the buffer of the other alone.\<close>

context other_kind begin

lemma confirm_other: "confirmKeys E ks a w = (a', w') \<Longrightarrow> kd_get L a' = kd_get L a"
  by (auto simp: confirmKeys_def other_frame split: if_splits)

lemma requeue_other: "requeue E K d a w = (a', w') \<Longrightarrow> kd_get L a' = kd_get L a"
  by (auto simp: requeue_def requeue_locked_def other_simps dest!: confirm_other)

lemma settle_other: "settle E K d o' err a w = (r, a', w') \<Longrightarrow> kd_get L a' = kd_get L a"
  by (cases o')
     (auto simp: settle_def settle_accepted_def settle_permanent_def settle_failed_def other_simps
       split: prod.splits dest!: confirm_other requeue_other)

lemma flush_other:
  assumes "flush_kind E K c force a w = (r, a', w')"
  shows "kd_get L a' = kd_get L a"
  using assms
proof (cases rule: flush_kind_cases)
  case (flushed a1 w1 o' err t1 w2)
  then have "kd_get L a1 = kd_get L a" by (auto simp: drain_def other_simps split: if_splits prod.splits)
  with settle_other [OF flushed(5)] show ?thesis by (simp add: other_frame)
qed simp

end

section \<open>Stopping\<close>

lemma confirm_all_redis:
  "\<exists>cs. redis_trace (confirm_all E qs w) = redis_trace w @ cs \<and> (\<Union>c \<in> set cs. cmd_keys c) = \<Union> (set ` set qs)"
proof (induction qs arbitrary: w)
  case (Cons ks qs)
  obtain cs where "redis_trace (confirm_all E qs (del E ks w)) = redis_trace (del E ks w) @ cs"
    "(\<Union>c \<in> set cs. cmd_keys c) = \<Union> (set ` set qs)" using Cons [of "del E ks w"] by blast
  then show ?case
    by (intro exI [of _ "(if ks = [] then [] else [RDel ks]) @ cs"]) (simp add: del_def redis_write_def)
qed simp

lemma confirm_all_deleted:
  "n \<le> length (redis_trace w) \<Longrightarrow> deleted n (confirm_all E (confirmCh a) w) = handled n a w"
proof -
  obtain cs where "redis_trace (confirm_all E (confirmCh a) w) = redis_trace w @ cs"
    "(\<Union>c \<in> set cs. cmd_keys c) = queued a"
    using confirm_all_redis [of E "confirmCh a" w] by (auto simp: queued_def)
  moreover assume "n \<le> length (redis_trace w)"
  ultimately have "deleted n (confirm_all E (confirmCh a) w) = deleted n w \<union> queued a" by (simp add: deleted_def)
  then show ?thesis by (simp add: handled_def Un_commute)
qed

text \<open>The keys of what is buffered.\<close>

definition buffered_keys :: "agent \<Rightarrow> gostring set" where
  "buffered_keys a = (if EnableEvents (cfg a) then set (nonempty_keys (items (events a))) else {})
     \<union> (if EnableMetrics (cfg a) then set (nonempty_keys (items (metrics a))) else {})"

lemma Stop_delivers:
  assumes "Stop E c a w = (r, a', w')" and "\<not> closed a" and "\<not> confirmClosed a"
  shows "closed a' \<and> (persist a \<noteq> None \<longrightarrow> confirmCh a' = [] \<and> queued a \<subseteq> deleted (length (redis_trace w)) w')
    \<and> (r = None \<longrightarrow> (EnableEvents (cfg a) \<longrightarrow> items (events a') = []) \<and> (EnableMetrics (cfg a) \<longrightarrow> items (metrics a') = [])
        \<and> (persist a \<noteq> None \<longrightarrow> buffered_keys a \<subseteq> deleted (length (redis_trace w)) w'))"
proof -
  let ?n = "length (redis_trace w)"
  define a1 where "a1 = a\<lparr>closed := True, loop_context := cancelled (loop_context a) w\<rparr>"
  have a1: "events a1 = events a" "metrics a1 = metrics a" "cfg a1 = cfg a" "persist a1 = persist a" "closed a1"
    "confirmClosed a1 = confirmClosed a" "queued a1 = queued a" by (simp_all add: a1_def queued_def)
  obtain e1 a2 w2 where f1: "flush_kind E event_kind c True a1 w = (e1, a2, w2)" by (metis prod.collapse)
  obtain e2 a3 w3 where f2: "flush_kind E metric_kind c True a2 w2 = (e2, a3, w3)" by (metis prod.collapse)
  note g1 = ek.flush_grows [OF f1] and g2 = mk.flush_grows [OF f2]
  have n2: "?n \<le> length (redis_trace w2)" using queue_grows_handled [OF g1] by simp
  have n3: "?n \<le> length (redis_trace w3)" using queue_grows_handled [OF g2 n2] by simp
  have keep: "closed a2" "persist a2 = persist a" "cfg a2 = cfg a" "\<not> confirmClosed a2"
    "closed a3" "persist a3 = persist a"
    using g1 g2 a1 assms(3) by (simp_all add: queue_grows_def)
  have out: "r = errors_Join [e1, e2]"
    "if persist a = None then a' = a3 \<and> w' = w3
     else a' = a3\<lparr>confirmClosed := True, confirmCh := []\<rparr> \<and> w' = confirm_all E (confirmCh a3) w3"
    using assms(1,2) f1 f2 keep
    by (auto simp: Stop_def Let_def a1_def [symmetric] flushEvents_def flushMetrics_def split: if_splits)
  have h: "handled ?n a1 w \<subseteq> handled ?n a2 w2" "handled ?n a2 w2 \<subseteq> handled ?n a3 w3"
    using queue_grows_handled [OF g1] queue_grows_handled [OF g2 n2] by auto
  have del: "persist a \<noteq> None \<Longrightarrow> deleted ?n w' = handled ?n a3 w3"
    using out confirm_all_deleted [OF n3] by simp
  have same: "events a3 = events a2" "metrics a2 = metrics a1"
    using me.flush_other [OF f2] em.flush_other [OF f1] by (simp_all add: event_kind_def metric_kind_def)
  have kept: "items (events a') = items (events a2)" "items (metrics a') = items (metrics a3)"
    using out same by (auto split: if_splits)
  have none: "e1 = None" "e2 = None" if "r = None"
    using that out by (simp_all add: errors_Join_eq_None)
  have ev: "items (events a') = [] \<and> (persist a \<noteq> None \<longrightarrow> set (nonempty_keys (items (events a))) \<subseteq> handled ?n a3 w3)"
    if "r = None" "EnableEvents (cfg a)"
  proof -
    note f = f1 [unfolded none(1) [OF that(1)]]
    have en: "kd_enabled event_kind (cfg a1)" using that a1 by (simp add: event_kind_def)
    from ek.flush_forced(2) [OF f en, of ?n] a1 assms(3) h(2)
    have "persist a \<noteq> None \<longrightarrow> set (nonempty_keys (items (events a))) \<subseteq> handled ?n a3 w3" by auto
    with ek.flush_forced(1) [OF f en] kept show ?thesis by simp
  qed
  have me: "items (metrics a') = [] \<and> (persist a \<noteq> None \<longrightarrow> set (nonempty_keys (items (metrics a))) \<subseteq> handled ?n a3 w3)"
    if "r = None" "EnableMetrics (cfg a)"
  proof -
    note f = f2 [unfolded none(2) [OF that(1)]]
    have en: "kd_enabled metric_kind (cfg a2)" using that keep by (simp add: metric_kind_def)
    from mk.flush_forced(2) [OF f en, of ?n] keep n2 same a1
    have "persist a \<noteq> None \<longrightarrow> set (nonempty_keys (items (metrics a))) \<subseteq> handled ?n a3 w3"
      by (simp add: metric_kind_def)
    with mk.flush_forced(1) [OF f en] kept show ?thesis by (simp add: metric_kind_def)
  qed
  have "confirmCh a' = []" if "persist a \<noteq> None" using that out by simp
  moreover have "closed a'" using out keep by (auto split: if_splits)
  moreover have "queued a \<subseteq> handled ?n a3 w3" using h a1 by (auto simp: handled_def)
  ultimately show ?thesis using ev me del unfolding buffered_keys_def by simp
qed


section \<open>Reloading at the start\<close>

text \<open>What a reload makes of the records of a kind: those that parse, each under its own key.\<close>

definition restored :: "env \<Rightarrow> 'a kind \<Rightarrow> persistence \<Rightarrow> persistedItem list \<Rightarrow> 'a buffered list" where
  "restored E K p its = List.map_filter (\<lambda>it. case kd_unmarshal K E (Value it) of Inl err \<Rightarrow> None
     | Inr x \<Rightarrow> Some \<lparr>payload = x, key = fullKey p (kd_namespace K) (Short it)\<rparr>) its"

definition corrupt_keys :: "env \<Rightarrow> 'a kind \<Rightarrow> persistence \<Rightarrow> persistedItem list \<Rightarrow> gostring set" where
  "corrupt_keys E K p its = {fullKey p (kd_namespace K) (Short it) |it. it \<in> set its
     \<and> (\<exists>err. kd_unmarshal K E (Value it) = Inl err)}"

definition cut_keys :: "nat \<Rightarrow> 'a buffered list \<Rightarrow> gostring set" where
  "cut_keys n xs = set (nonempty_keys (take (length xs - n) xs))"

lemma restored_simps [simp]:
  "restored E K p [] = []"
  "restored E K p (it # its) = (case kd_unmarshal K E (Value it) of Inl err \<Rightarrow> restored E K p its
     | Inr x \<Rightarrow> \<lparr>payload = x, key = fullKey p (kd_namespace K) (Short it)\<rparr> # restored E K p its)"
  by (simp_all add: restored_def List.map_filter_def split: sum.split)

lemma corrupt_keys_simps [simp]:
  "corrupt_keys E K p [] = {}"
  "corrupt_keys E K p (it # its) = (case kd_unmarshal K E (Value it) of
       Inl err \<Rightarrow> insert (fullKey p (kd_namespace K) (Short it)) (corrupt_keys E K p its)
     | Inr x \<Rightarrow> corrupt_keys E K p its)"
  by (auto simp: corrupt_keys_def split: sum.split)

lemma cut_keys_append: "cut_keys n (xs @ ys) = cut_keys n xs \<union> cut_keys n (last_n n xs @ ys)"
  unfolding cut_keys_def by (subst last_n_cut) (simp add: nonempty_keys_def)

text \<open>The deletions a step of the reload issues, exactly.\<close>

definition deletes :: "world \<Rightarrow> world \<Rightarrow> gostring set \<Rightarrow> bool" where
  "deletes w w' D \<longleftrightarrow> (\<exists>cs. redis_trace w' = redis_trace w @ cs \<and> (\<Union>c \<in> set cs. cmd_keys c) = D)"

lemma deletes_refl [simp]: "deletes w w {}"
  by (simp add: deletes_def)

lemma deletes_trans: "deletes u v A \<Longrightarrow> deletes v w B \<Longrightarrow> deletes u w (A \<union> B)"
  unfolding deletes_def by (elim exE conjE, rule_tac x = "cs @ csa" in exI) auto

lemma deletes_del [simp]: "deletes w (del E ks w) (set ks)"
  by (cases ks) (simp_all add: deletes_def del_def redis_write_def)

context kind_access begin

lemma reload_item_valid:
  assumes "kd_unmarshal K E (Value it) = Inr x" "reload_item E K p it a w = (a', w')" "0 < BufferSize (cfg a)"
    "int (length (items (kd_get K a))) \<le> BufferSize (cfg a)"
  defines "y \<equiv> \<lparr>payload = x, key = fullKey p (kd_namespace K) (Short it)\<rparr>" and "n \<equiv> nat (BufferSize (cfg a))"
  shows "items (kd_get K a') = last_n n (items (kd_get K a) @ [y])"
    "buffered (kd_get K a') = buffered (kd_get K a) + 1" "cfg a' = cfg a"
    "deletes w w' (cut_keys n (items (kd_get K a) @ [y]))"
proof -
  let ?xs = "items (kd_get K a)"
  have main: "items (kd_get K a') = last_n n (?xs @ [y]) \<and> buffered (kd_get K a') = buffered (kd_get K a) + 1
    \<and> cfg a' = cfg a \<and> deletes w w' (cut_keys n (?xs @ [y]))"
  proof (cases "int (length ?xs) \<ge> BufferSize (cfg a)")
    case True
    with assms(4) have len: "length ?xs = n" "?xs \<noteq> []" using assms(3) by (auto simp: n_def)
    have "last_n n (?xs @ [y]) = tl ?xs @ [y]" using len by (cases ?xs) (simp_all add: last_n_def)
    moreover have "cut_keys n (?xs @ [y]) = (if key (hd ?xs) \<noteq> [] then {key (hd ?xs)} else {})"
      using len by (cases ?xs) (simp_all add: cut_keys_def nonempty_keys_def)
    moreover have "(a', w') = (kd_map K (\<lambda>s. s\<lparr>items := items s @ [y], buffered := buffered s + 1\<rparr>)
        (kd_map K (\<lambda>s. s\<lparr>items := tl (items s)\<rparr>) a), if key (hd ?xs) \<noteq> [] then del E [key (hd ?xs)] w else w)"
      unfolding assms(2) [symmetric] using assms(1) True by (simp add: reload_item_def Let_def y_def)
    then have "a' = kd_map K (\<lambda>s. s\<lparr>items := items s @ [y], buffered := buffered s + 1\<rparr>)
        (kd_map K (\<lambda>s. s\<lparr>items := tl (items s)\<rparr>) a)" "w' = (if key (hd ?xs) \<noteq> [] then del E [key (hd ?xs)] w else w)"
      by blast+
    moreover have "deletes w (if key (hd ?xs) \<noteq> [] then del E [key (hd ?xs)] w else w)
        (if key (hd ?xs) \<noteq> [] then {key (hd ?xs)} else {})"
      using deletes_del [of w E "[key (hd ?xs)]"] by simp
    ultimately show "items (kd_get K a') = last_n n (?xs @ [y]) \<and> buffered (kd_get K a') = buffered (kd_get K a) + 1
        \<and> cfg a' = cfg a \<and> deletes w w' (cut_keys n (?xs @ [y]))"
      by (simp only: get_map map_frame) simp
  next
    case False
    then have "last_n n (?xs @ [y]) = ?xs @ [y]" "cut_keys n (?xs @ [y]) = {}"
      by (simp_all add: n_def cut_keys_def nonempty_keys_def)
    then show "items (kd_get K a') = last_n n (?xs @ [y]) \<and> buffered (kd_get K a') = buffered (kd_get K a) + 1
        \<and> cfg a' = cfg a \<and> deletes w w' (cut_keys n (?xs @ [y]))"
      using assms(1,2) False by (auto simp: reload_item_def Let_def y_def)
  qed
  show "items (kd_get K a') = last_n n (?xs @ [y])" "buffered (kd_get K a') = buffered (kd_get K a) + 1" "cfg a' = cfg a"
    "deletes w w' (cut_keys n (?xs @ [y]))" using main by blast+
qed

lemma reload_items_spec:
  assumes "reload_items E K p its a w = (a', w')" "0 < BufferSize (cfg a)"
    "int (length (items (kd_get K a))) \<le> BufferSize (cfg a)"
  shows "items (kd_get K a') = last_n (nat (BufferSize (cfg a))) (items (kd_get K a) @ restored E K p its)
    \<and> buffered (kd_get K a') = buffered (kd_get K a) + of_nat (length (restored E K p its)) \<and> cfg a' = cfg a
    \<and> deletes w w' (corrupt_keys E K p its \<union> cut_keys (nat (BufferSize (cfg a))) (items (kd_get K a) @ restored E K p its))"
  using assms
proof (induction its arbitrary: a w)
  case Nil
  then show ?case by (simp add: cut_keys_def nonempty_keys_def)
next
  case (Cons it its)
  let ?n = "nat (BufferSize (cfg a))" and ?xs = "items (kd_get K a)"
  obtain a1 w1 where r: "reload_item E K p it a w = (a1, w1)" by fastforce
  with Cons.prems have rest: "reload_items E K p its a1 w1 = (a', w')" by simp
  show ?case
  proof (cases "kd_unmarshal K E (Value it)")
    case (Inl err)
    then have a1: "a1 = a" and d: "deletes w w1 {fullKey p (kd_namespace K) (Short it)}"
      using r deletes_del [of w E "[fullKey p (kd_namespace K) (Short it)]"] by (simp_all add: reload_item_def Let_def)
    note ih = Cons.IH [OF rest [unfolded a1] Cons.prems(2,3)]
    from ih have "deletes w1 w' (corrupt_keys E K p its \<union> cut_keys ?n (?xs @ restored E K p its))" by blast
    from deletes_trans [OF d this] ih show ?thesis by (simp add: Inl)
  next
    case (Inr x)
    define y where "y = \<lparr>payload = x, key = fullKey p (kd_namespace K) (Short it)\<rparr>"
    note v = reload_item_valid [OF Inr r Cons.prems(2,3), folded y_def]
    have prems: "0 < BufferSize (cfg a1)" "int (length (items (kd_get K a1))) \<le> BufferSize (cfg a1)"
      using v(1,3) Cons.prems(2) by simp_all
    note ih = Cons.IH [OF rest prems, unfolded v(1,2,3)]
    let ?rs = "restored E K p its"
    from ih have "deletes w1 w' (corrupt_keys E K p its \<union> cut_keys ?n (last_n ?n (?xs @ [y]) @ ?rs))" by blast
    from deletes_trans [OF v(4) this]
    have d: "deletes w w' (corrupt_keys E K p its \<union> cut_keys ?n ((?xs @ [y]) @ ?rs))"
      by (simp only: cut_keys_append [of ?n "?xs @ [y]" ?rs] Un_left_commute)
    have rs: "restored E K p (it # its) = y # ?rs" "corrupt_keys E K p (it # its) = corrupt_keys E K p its"
      by (simp_all add: Inr y_def)
    have "items (kd_get K a') = last_n ?n ((?xs @ [y]) @ ?rs)"
      using ih by (simp only: last_n_append)
    moreover have "buffered (kd_get K a') = buffered (kd_get K a) + of_nat (length (y # ?rs))" "cfg a' = cfg a"
      using ih by (simp_all add: add.assoc)
    ultimately show ?thesis using d unfolding rs by simp
  qed
qed

end

lemma deletes_deleted: "deletes w w' D \<Longrightarrow> deleted (length (redis_trace w)) w' = D"
  by (auto simp: deletes_def deleted_def)


text \<open>Telemetry that was buffered before \<open>Start\<close> is duplicated by it: a record in Redis whose item is still in
  the buffer is reloaded all the same, so that the item is in the buffer twice, under one key, and is
  sent twice.\<close>

theorem reload_duplicates:
  assumes "reloadKindLocked E event_kind p a w = Some (a', w')"
    and "loadKind E p persistNamespaceEvents w = Some (Inr its, w1)"
    and "0 < BufferSize (cfg a)" and "int (length (items (events a)) + length its) \<le> BufferSize (cfg a)"
    and "y \<in> set (items (events a))" and "it \<in> set its" and "unmarshal_event E (Value it) = Inr x"
    and "key y = fullKey p persistNamespaceEvents (Short it)"
  shows "2 \<le> count_list (map key (items (events a'))) (key y)"
proof -
  let ?rs = "restored E event_kind p its"
  have r: "reload_items E event_kind p its a w1 = (a', w')"
    using assms(1,2) by (simp add: reloadKindLocked_def event_kind_def)
  have "length ?rs \<le> length its" by (induction its) (auto split: sum.split)
  with ek.reload_items_spec [OF r assms(3)] assms(4) have i: "items (events a') = items (events a) @ ?rs"
    by (simp add: event_kind_def)
  have "key y \<in> set (map key ?rs)"
    using assms(6-8) by (induction its) (auto simp: event_kind_def split: sum.split)
  moreover have "key y \<in> set (map key (items (events a)))" using assms(5) by simp
  ultimately have "count_list (map key (items (events a))) (key y) \<noteq> 0" "count_list (map key ?rs) (key y) \<noteq> 0"
    by (simp_all add: count_list_0_iff del: set_map)
  then show ?thesis by (simp add: i)
qed

text \<open>C36. Starting an agent always returns: under an outside in which every observation takes time the startup
  scans end, and the call reports \<open>ErrClosed\<close> exactly for a stopped agent.\<close>

theorem Start_returns:
  assumes "timely E"
  shows "\<exists>e a' w'. Start E a w = Some (e, a', w') \<and> (e = Some ErrClosed \<longleftrightarrow> closed a)
    \<and> (e = None \<longleftrightarrow> \<not> closed a)"
proof -
  have kind: "\<exists>b v. reloadKindLocked E K p x y = Some (b, v)" for K :: "'b kind" and p x y
    using loadKind_ends [OF assms, of p "kd_namespace K" y]
    by (auto simp: reloadKindLocked_def split: sum.split prod.split)
  have "\<exists>b v. reloadFromRedisLocked E p x y = Some (b, v)" for p x y
    using loadKind_ends [OF assms] by (auto simp: reloadFromRedisLocked_def reloadKindLocked_def
        split: option.split sum.split prod.split) (metis option.distinct(1))+
  then show ?thesis
    by (auto simp: Start_def Let_def split: option.split prod.split) (metis option.distinct(1))+
qed

text \<open>A stopped agent refuses: every sending or flushing call and \<open>Start\<close> reports \<open>ErrClosed\<close>, a second
  \<open>Stop\<close> reports nothing, and none of them touches the agent or its outside.\<close>

theorem closed_refuses:
  assumes "closed a"
  shows "SendEvent E ev a w = (Returned (Some ErrClosed), a, w) \<and> SendMetric E q m a w = (Returned (Some ErrClosed), a, w)
    \<and> Flush E c a w = (Some ErrClosed, a, w) \<and> Start E a w = Some (Some ErrClosed, a, w) \<and> Stop E c a w = (None, a, w)"
  using assms by (simp add: SendEvent_def SendMetric_def Flush_def Start_def Stop_def guardClosed_def)

section \<open>The error log\<close>

text \<open>The error list that \<open>Status\<close> reports holds the ten most recent messages, oldest first.\<close>

theorem recordError_recent:
  assumes "length (lastErrors a) \<le> maxTrackedErrors"
  shows "lastErrors (fold recordErrorLocked msgs a) = last_n maxTrackedErrors (lastErrors a @ msgs)"
  using assms
proof (induction msgs arbitrary: a)
  case (Cons m msgs)
  have r: "lastErrors (recordErrorLocked m a) = last_n maxTrackedErrors (lastErrors a @ [m])"
    by (simp add: recordErrorLocked_def Let_def)
  then have "length (lastErrors (recordErrorLocked m a)) \<le> maxTrackedErrors" by simp
  from Cons.IH [OF this] show ?case by (simp only: fold_simps r last_n_append) simp
qed simp

section \<open>Closed examples\<close>

text \<open>An agent with persistence and one event whose record is stored.\<close>

definition stored_agent :: agent where
  "stored_agent = sample_agent\<lparr>persist := Some sample_persistence,
     events := (events sample_agent)\<lparr>items := [\<lparr>payload = sample_event, key = ''k1''\<rparr>]\<rparr>,
     confirmCh := [[''k0'']]\<rparr>"


text \<open>A Redis server with two records of events, one of them unreadable.\<close>

definition two_records :: env where
  "two_records = calm\<lparr>redis_Scan := (\<lambda>t c p. Inr ([''b'', ''a''], 0)), redis_Get := (\<lambda>t k. RVal k),
     unmarshal_event := (\<lambda>s. if s = ''b'' then Inr sample_event else Inl [])\<rparr>"

lemma two_records_load: "loadKind two_records sample_persistence persistNamespaceEvents start
    = Some (Inr [\<lparr>Short = ''a'', Value = ''a''\<rparr>, \<lparr>Short = ''b'', Value = ''b''\<rparr>],
        observe two_records (observe two_records (observe two_records (observe two_records start))))"
proof -
  have "sort [''b'', ''a''] = [''a'', ''b'']" by code_simp
  then show ?thesis
    by (simp add: loadKind_def now_def Let_def scan_loop.simps two_records_def calm_def start_def shortOf_def)
qed


theorem reload_duplicates_witness:
  "\<exists>a' w'. reloadKindLocked two_records event_kind sample_persistence
      (stored_agent\<lparr>events := (events stored_agent)\<lparr>items :=
         [\<lparr>payload = sample_event, key = ''guard:agent:agent_events:b''\<rparr>]\<rparr>\<rparr>) start = Some (a', w')
    \<and> 2 \<le> count_list (map key (items (events a'))) ''guard:agent:agent_events:b''"
proof -
  let ?y = "\<lparr>payload = sample_event, key = ''guard:agent:agent_events:b''\<rparr>"
  let ?a = "stored_agent\<lparr>events := (events stored_agent)\<lparr>items := [?y]\<rparr>\<rparr>"
  have ns: "kd_namespace event_kind = persistNamespaceEvents" by (simp add: event_kind_def)
  obtain a' w' where r: "reloadKindLocked two_records event_kind sample_persistence ?a start = Some (a', w')"
    using two_records_load by (simp add: reloadKindLocked_def ns del: reload_items.simps) (metis prod.collapse)
  have "BufferSize (cfg ?a) = 100" "items (events ?a) = [?y]" "unmarshal_event two_records ''b'' = Inr sample_event"
    "key ?y = fullKey sample_persistence persistNamespaceEvents ''b''"
    by (simp_all add: stored_agent_def sample_agent_def new_agent_def sample_simps two_records_def fullKey_def
        sample_persistence_def)
  with reload_duplicates [OF r two_records_load, of ?y "\<lparr>Short = ''b'', Value = ''b''\<rparr>" sample_event] r
  show ?thesis by simp
qed

theorem Start_returns_witness: "\<exists>a' w'. Start two_records stored_agent start = Some (None, a', w')"
proof -
  have "timely two_records" by (simp add: timely_def two_records_def calm_def)
  moreover have "\<not> closed stored_agent" by (simp add: stored_agent_def sample_agent_def new_agent_def)
  ultimately show ?thesis using Start_returns [of two_records stored_agent start] by auto
qed

theorem closed_refuses_witness:
  "SendEvent calm sample_event (sample_agent\<lparr>closed := True\<rparr>) start
    = (Returned (Some ErrClosed), sample_agent\<lparr>closed := True\<rparr>, start)"
  using closed_refuses [of "sample_agent\<lparr>closed := True\<rparr>"] by simp

theorem recordError_recent_witness:
  "lastErrors (fold recordErrorLocked [''e1'', ''e2''] sample_agent) = [''e1'', ''e2'']"
proof -
  have "lastErrors sample_agent = []" by (simp add: sample_agent_def new_agent_def)
  with recordError_recent [of sample_agent "[''e1'', ''e2'']"] show ?thesis by simp
qed

end
