(* ===== verification/Ratio.thy ===== *)
theory Ratio
  imports GoNum
begin

text \<open>
  Comparisons with a rounded fraction. The agent compares counts with products and quotients of
  float64 values such as \<open>float64(size) * 0.9\<close>; for counts below 2^40 these comparisons are exact, and
  the lemmas here say which integer comparison each of them is.
\<close>

section \<open>Rounding to a near grid point, and its monotonicity\<close>

lemma ilog2_eq:
  assumes "0 < r" "2 powi e \<le> r" "r < 2 powi (e + 1)"
  shows "ilog2 r = e"
proof -
  have "e < ilog2 r + 1"
    using ilog2_bounds(2) [OF assms(1)] assms(2) powi_mono2 [of "ilog2 r + 1" e] by (meson leI le_less_trans not_le order_trans)
  moreover have "ilog2 r < e + 1" using ilog2_less [OF assms(1,3)] .
  ultimately show ?thesis by simp
qed

lemma rhe_near: "\<bar>x - of_int n\<bar> < 1 / 2 \<Longrightarrow> rhe x = n"
proof -
  assume a: "\<bar>x - of_int n\<bar> < 1 / 2"
  show "rhe x = n"
  proof (cases "of_int n \<le> x")
    case True
    with a have "\<lfloor>x\<rfloor> = n" by (intro floor_unique) (auto simp: abs_if split: if_splits)
    with a True show ?thesis by (simp add: rhe_def Let_def)
  next
    case False
    with a have "\<lfloor>x\<rfloor> = n - 1" by (intro floor_unique) (auto simp: abs_if split: if_splits)
    with a False show ?thesis by (simp add: rhe_def Let_def abs_if split: if_splits)
  qed
qed

lemma rnd64_near:
  assumes "0 < r" "on_grid c r" "\<bar>r - c\<bar> < 2 powi ulp_exp r / 2" "c < 2 ^ 1024" "0 \<le> c"
  shows "rnd64 r = Fin c"
proof -
  let ?u = "(2::rat) powi ulp_exp r"
  have u: "0 < ?u" by simp
  obtain z where z: "c = of_int z * ?u" using assms(2) by (auto simp: on_grid_def)
  have "r / ?u - of_int z = (r - c) / ?u" using u by (simp add: z field_simps)
  then have "\<bar>r / ?u - of_int z\<bar> = \<bar>r - c\<bar> / ?u" using u by (simp add: abs_divide)
  also have "\<dots> < 1 / 2" using assms(3) u by (simp add: field_simps)
  finally have "rhe (r / ?u) = z" by (rule rhe_near)
  then show ?thesis using assms(1,4,5) z by (simp add: rnd64_def Let_def)
qed

lemma rhe_mono: "x \<le> y \<Longrightarrow> rhe x \<le> rhe y"
proof (cases "\<lfloor>x\<rfloor> = \<lfloor>y\<rfloor>")
  case False
  assume "x \<le> y"
  then have "\<lfloor>x\<rfloor> \<le> \<lfloor>y\<rfloor>" by (rule floor_mono)
  with False rhe_bounds [of x] rhe_bounds [of y] show ?thesis by linarith
qed (auto simp: rhe_def Let_def)

text \<open>The constants, as the nearest float64 values.\<close>

lemma ratio_constants:
  "rnd64 (9 / 10) = Fin (8106479329266893 / 2 ^ 53)" "rnd64 (95 / 100) = Fin (8556839292003942 / 2 ^ 53)"
  "rnd64 (8 / 10) = Fin (7205759403792794 / 2 ^ 53)" "rnd64 (1 / 10) = Fin (7205759403792794 / 2 ^ 56)"
proof -
  have near: "rnd64 r = Fin (of_int m * 2 powi (e - 52))"
    if "0 < r" "2 powi e \<le> r" "r < 2 powi (e + 1)" "- 1022 \<le> e" "e < 0" "0 \<le> m"
      "\<bar>r - of_int m * 2 powi (e - 52)\<bar> < 2 powi (e - 52) / 2" "m \<le> 2 ^ 53" for r e m
  proof -
    have il: "ilog2 r = e" using that by (intro ilog2_eq) auto
    have u: "ulp_exp r = e - 52" using that by (simp add: ulp_exp_pos il)
    have "rat_of_int m \<le> of_int (2 ^ 53)" using that(8) by (simp only: of_int_le_iff)
    moreover have "(2::rat) powi (e - 52) \<le> 2 powi 0" using that(5) by (intro powi_mono2) simp
    ultimately have "of_int m * (2::rat) powi (e - 52) \<le> 2 ^ 53 * 1" using that(6) by (intro mult_mono) auto
    also have "\<dots> < 2 ^ 1024" by simp
    finally show ?thesis using that u by (intro rnd64_near) (auto simp: on_grid_def)
  qed
  show "rnd64 (9 / 10) = Fin (8106479329266893 / 2 ^ 53)" using near [of "9 / 10" "-1" 8106479329266893]
    by (simp add: power_int_def field_simps)
  show "rnd64 (95 / 100) = Fin (8556839292003942 / 2 ^ 53)" using near [of "95 / 100" "-1" 8556839292003942]
    by (simp add: power_int_def field_simps)
  show "rnd64 (8 / 10) = Fin (7205759403792794 / 2 ^ 53)" using near [of "8 / 10" "-1" 7205759403792794]
    by (simp add: power_int_def field_simps)
  show "rnd64 (1 / 10) = Fin (7205759403792794 / 2 ^ 56)" using near [of "1 / 10" "-4" 7205759403792794]
    by (simp add: power_int_def field_simps)
qed

section \<open>Exact comparisons\<close>

text \<open>\<open>float64(n) >= float64(b) * c\<close>, where \<open>d\<close> is the value of the constant \<open>c\<close> and close to \<open>p / q\<close>.\<close>

lemma product_test:
  fixes b n p q :: int and d :: rat
  assumes b: "0 < b" "b \<le> 2 ^ 40" and n: "0 \<le> n" "n \<le> 2 ^ 40" and q: "0 < p" "p < q" "q \<le> 20"
    and d: "0 < d" "d \<le> 1" "\<bar>d - of_int p / of_int q\<bar> < d / 2 ^ 54"
  shows "f64_mul (f64_of_int b) (Fin d) \<le> f64_of_int n \<longleftrightarrow> p * b \<le> q * n"
proof -
  define r where "r = of_int b * d"
  have ex: "f64_of_int b = Fin (of_int b)" "f64_of_int n = Fin (of_int n)" using b n by simp_all
  have q0: "(0::rat) < of_int q" using q by simp
  have "rat_of_int b \<le> of_int (2 ^ 40)" using b by (simp only: of_int_le_iff)
  then have rb: "rat_of_int b \<le> 2 ^ 40" "0 \<le> rat_of_int b" using b by simp_all
  have r0: "0 < r" using b d by (simp add: r_def)
  have r1: "r \<le> 2 ^ 40" using rb d mult_mono [of "of_int b" "2 ^ 40" d 1] by (simp add: r_def)
  have "r - of_int (p * b) / of_int q = of_int b * (d - of_int p / of_int q)"
    by (simp add: r_def right_diff_distrib)
  then have "\<bar>r - of_int (p * b) / of_int q\<bar> = of_int b * \<bar>d - of_int p / of_int q\<bar>"
    using b by (simp add: abs_mult)
  also have "\<dots> < of_int b * (d / 2 ^ 54)" using b d(3) by (intro mult_strict_left_mono) auto
  finally have near: "\<bar>r - of_int (p * b) / of_int q\<bar> < r / 2 ^ 54" by (simp add: r_def)
  with r1 have near': "\<bar>r - of_int (p * b) / of_int q\<bar> < 1 / 2 ^ 13" by simp
  have rn: "representable (of_int n)" using n by (intro representable_int) auto
  consider "p * b = q * n" | "p * b < q * n" | "q * n < p * b" by linarith
  then show ?thesis
  proof cases
    case 1
    then have "of_int (p * b) / of_int q = rat_of_int n" using q0 by (simp add: field_simps flip: of_int_mult)
    with near have nn: "\<bar>r - of_int n\<bar> < r / 2 ^ 54" by simp
    have u: "2 powi (ilog2 r - 52) \<le> (2::rat) powi ulp_exp r" using r0 by (intro powi_mono2) (simp add: ulp_exp_pos)
    have "r / 2 ^ 54 < 2 powi (ilog2 r + 1) / 2 ^ 54" using ilog2_bounds(2) [OF r0] by (intro divide_strict_right_mono) auto
    also have "\<dots> = 2 powi (ilog2 r - 52) / 2" by (simp add: power_int_add power_int_diff)
    also have "\<dots> \<le> 2 powi ulp_exp r / 2" using u by (intro divide_right_mono) auto
    finally have "\<bar>r - of_int n\<bar> < 2 powi ulp_exp r / 2" using nn by linarith
    moreover have "ilog2 r < 41" using r0 r1 by (intro ilog2_less) (auto simp: power_int_def)
    then have "ulp_exp r \<le> 0" using r0 by (simp add: ulp_exp_pos)
    then have "on_grid (of_int n) r" by (intro on_gridI [of _ n 0]) auto
    ultimately have "rnd64 r = Fin (of_int n)" using r0 n by (intro rnd64_near) (auto simp: int53_small)
    with 1 show ?thesis by (simp add: ex f64_mul_def flip: r_def)
  next
    case 2
    then have "rat_of_int (p * b + 1) \<le> of_int (q * n)" by (simp only: of_int_le_iff)
    then have "of_int (p * b) / of_int q + 1 / of_int q \<le> rat_of_int n" using q0 by (simp add: field_simps)
    moreover have "(1::rat) / 20 \<le> 1 / of_int q" using q by (simp add: field_simps)
    ultimately have "r \<le> of_int n" using near' by (simp add: abs_if split: if_splits)
    then have "rnd64 r \<le> Fin (of_int n)" using rn r0 n by (intro rnd64_le) (auto simp: int53_small)
    with 2 show ?thesis by (simp add: ex f64_mul_def flip: r_def)
  next
    case 3
    then have "rat_of_int (q * n + 1) \<le> of_int (p * b)" by (simp only: of_int_le_iff)
    then have "of_int n + 1 / of_int q \<le> of_int (p * b) / rat_of_int q"
      using q0 by (simp add: pos_le_divide_eq algebra_simps)
    moreover have "(1::rat) / 20 \<le> 1 / of_int q" using q by (simp add: field_simps)
    ultimately have "of_int (32 * n + 1) / 32 \<le> r" using near' by (simp add: abs_if split: if_splits)
    moreover have "representable (of_int (32 * n + 1) / 32)"
      using n by (intro representableI [of _ "32 * n + 1" "-5"]) (auto simp: power_int_def power_one_over)
    ultimately have "Fin (of_int (32 * n + 1) / 32) \<le> rnd64 r" using r0 n by (intro rnd64_ge) auto
    with 3 show ?thesis using n by (cases "rnd64 r") (auto simp: ex f64_mul_def simp flip: r_def)
  qed
qed

text \<open>\<open>float64(f) / float64(t) > c\<close>; \<open>e\<close> is some larger float64 below every larger fraction.\<close>

lemma quotient_test:
  fixes f t p q :: int and d e :: rat
  assumes f: "0 \<le> f" "f \<le> 2 ^ 40" and t: "0 < t" "t \<le> 2 ^ 40" and q: "0 < p" "0 < q"
    and d: "representable d" "of_int p / of_int q \<le> d" "d < 1" and e: "representable e" "d < e"
      "e \<le> of_int p / of_int q + 1 / (of_int q * 2 ^ 40)"
  shows "Fin d < f64_div (f64_of_int f) (f64_of_int t) \<longleftrightarrow> p * t < q * f"
proof (cases "f = 0")
  case True
  have "(0::rat) < of_int p / of_int q" using q by simp
  with d(2) have "0 < d" by linarith
  moreover have "0 \<le> p * t" using t q by simp
  ultimately show ?thesis using True t by (simp add: f64_div_def rnd64_def not_less)
next
  case False
  define r where "r = rat_of_int f / of_int t"
  have ex: "f64_div (f64_of_int f) (f64_of_int t) = rnd64 r" using f t by (simp add: f64_div_def r_def)
  have r0: "0 < r" using False f t by (simp add: r_def)
  have q0: "(0::rat) < of_int q" "(0::rat) < of_int t" using q t by simp_all
  show ?thesis
  proof (cases "p * t < q * f")
    case True
    then have "rat_of_int (p * t + 1) \<le> of_int (q * f)" by (simp only: of_int_le_iff)
    then have "rat_of_int (p * t + 1) / (of_int q * of_int t) \<le> of_int (q * f) / (of_int q * of_int t)"
      using q0 by (intro divide_right_mono) auto
    moreover have "rat_of_int (q * f) / (of_int q * of_int t) = r" using q0 by (simp add: r_def)
    moreover have "rat_of_int (p * t + 1) / (of_int q * of_int t) = of_int p / of_int q + 1 / (of_int q * of_int t)"
      using q0 by (simp add: add_divide_distrib)
    ultimately have "of_int p / of_int q + 1 / (of_int q * of_int t) \<le> r" by simp
    moreover have "rat_of_int t \<le> of_int (2 ^ 40)" using t by (simp only: of_int_le_iff)
    then have "rat_of_int t \<le> 2 ^ 40" by simp
    then have "1 / (of_int q * 2 ^ 40) \<le> (1::rat) / (of_int q * of_int t)" using q0
      by (intro divide_left_mono) (auto intro!: mult_left_mono)
    ultimately have "e \<le> r" using e(3) by linarith
    moreover have "(0::rat) < of_int p / of_int q" using q by simp
    with d(2) e(2) have "0 \<le> e" by linarith
    ultimately have "Fin e \<le> rnd64 r" using r0 e(1) by (intro rnd64_ge) auto
    with True e(2) show ?thesis by (cases "rnd64 r") (auto simp: ex)
  next
    case no: False
    then have "rat_of_int (q * f) \<le> of_int (p * t)" by (simp only: of_int_le_iff not_less)
    then have "r \<le> of_int p / of_int q" using q0 by (simp add: r_def field_simps)
    then have "rnd64 r \<le> Fin d" using d r0 by (intro rnd64_le) (auto intro: order_less_le_trans)
    with no show ?thesis by (cases "rnd64 r") (auto simp: ex)
  qed
qed

text \<open>The tests with the agent's constants.\<close>

lemma occupancy_tests:
  assumes "0 < b" "b \<le> 2 ^ 40" "0 \<le> n" "n \<le> 2 ^ 40"
  shows "f64_mul (f64_of_int b) (rnd64 (9 / 10)) \<le> f64_of_int n \<longleftrightarrow> 9 * b \<le> 10 * n"
    and "f64_mul (f64_of_int b) (rnd64 (95 / 100)) \<le> f64_of_int n \<longleftrightarrow> 19 * b \<le> 20 * n"
    and "f64_mul (f64_of_int b) (rnd64 (8 / 10)) \<le> f64_of_int n \<longleftrightarrow> 4 * b \<le> 5 * n"
  unfolding ratio_constants by (rule product_test [OF assms]; simp add: abs_if)+

lemma rate_tests:
  assumes "0 \<le> f" "f \<le> 2 ^ 40" "0 < t" "t \<le> 2 ^ 40"
  shows "rnd64 (1 / 10) < f64_div (f64_of_int f) (f64_of_int t) \<longleftrightarrow> t < 10 * f"
    and "Fin (1 / 2) < f64_div (f64_of_int f) (f64_of_int t) \<longleftrightarrow> t < 2 * f"
proof -
  have r: "representable (of_int m / 2 ^ k)" if "\<bar>m\<bar> \<le> 2 ^ 53" "k \<le> 1074" for m k
    using that by (intro representableI [of _ m "- int k"]) (auto simp: power_int_minus field_simps)
  from quotient_test [OF assms, of 1 10 "of_int 7205759403792794 / 2 ^ 56" "of_int 7205759403793818 / 2 ^ 56"]
    r [of 7205759403792794 56] r [of 7205759403793818 56]
  show "rnd64 (1 / 10) < f64_div (f64_of_int f) (f64_of_int t) \<longleftrightarrow> t < 10 * f"
    unfolding ratio_constants by simp
  from quotient_test [OF assms, of 1 2 "of_int 1 / 2 ^ 1" "of_int 1099511627777 / 2 ^ 41"]
    r [of 1 1] r [of 1099511627777 41]
  show "Fin (1 / 2) < f64_div (f64_of_int f) (f64_of_int t) \<longleftrightarrow> t < 2 * f" by simp
qed

end
