(* ===== verification/Status.thy ===== *)
theory Status
  imports Lifecycle Ratio
begin

text \<open>
  The status of an agent (agent.go): the snapshots \<open>Status\<close>, \<open>Stats\<close> and \<open>AgentStats\<close>, the health
  classification, and the periodic status report.
\<close>

section \<open>Health\<close>

definition degradedBufferRatio :: f64 where
  "degradedBufferRatio = rnd64 (9 / 10)"

definition healthBufferRatio :: f64 where
  "healthBufferRatio = rnd64 (95 / 100)"

definition degradedFailureRate :: f64 where
  "degradedFailureRate = rnd64 (1 / 10)"

definition healthFailureRateMax :: f64 where
  "healthFailureRateMax = Fin (1 / 2)"

definition occupancy_at_least :: "f64 \<Rightarrow> agent \<Rightarrow> bool" where
  "occupancy_at_least ratio a \<longleftrightarrow> f64_mul (f64_of_int (BufferSize (cfg a))) ratio \<le> f64_of_int (combined a)"

definition failure_rate_above :: "f64 \<Rightarrow> agent \<Rightarrow> bool" where
  "failure_rate_above rate a \<longleftrightarrow> (let total = sent_count (events a) + failed (events a) in
     sint total > 0 \<and> rate < f64_div (f64_of_int (sint (failed (events a)))) (f64_of_int (sint total)))"

definition stateLocked :: "agent \<Rightarrow> gostring" where
  "stateLocked a =
    (if closed a then StatusFailed
     else if breaker_Open (breaker (tr a)) then StatusDegraded
     else if occupancy_at_least degradedBufferRatio a then StatusDegraded
     else if failure_rate_above degradedFailureRate a then StatusDegraded
     else StatusHealthy)"

definition Healthy :: "agent \<Rightarrow> bool" where
  "Healthy a =
    (if \<not> started a \<or> closed a then False
     else if breaker_Open (breaker (tr a)) then False
     else if occupancy_at_least healthBufferRatio a then False
     else if failure_rate_above healthFailureRateMax a then False
     else True)"

section \<open>Snapshots\<close>

record Status =
  State :: gostring
  Uptime :: duration
  st_EventsSent :: counter
  st_EventsFailed :: counter
  st_BufferSize :: int
  LastFlush :: gotime
  st_Errors :: "gostring list"
  st_CircuitState :: gostring

definition agent_Status :: "env \<Rightarrow> agent \<Rightarrow> world \<Rightarrow> Status \<times> world" where
  "agent_Status E a w =
    (case (if started a \<and> \<not> closed a then (case now E w of (tm, w1) \<Rightarrow> (time_sub tm (startedAt a), w1)) else (0, w))
     of (up, w1) \<Rightarrow>
     (\<lparr>State = stateLocked a, Uptime = up, st_EventsSent = sent_count (events a),
       st_EventsFailed = failed (events a), st_BufferSize = combined a, LastFlush = lastFlush a,
       st_Errors = lastErrors a, st_CircuitState = breaker_State (breaker (tr a))\<rparr>, w1))"

record Stats =
  EventsBuffered :: counter
  MetricsBuffered :: counter
  EventsFlushed :: counter
  MetricsFlushed :: counter
  EventsSent :: counter
  MetricsSent :: counter
  EventsFailed :: counter
  MetricsFailed :: counter
  EventsDropped :: counter
  MetricsDropped :: counter
  EventsPending :: int
  MetricsPending :: int
  RedisPersistFailures :: counter
  DurabilityDegraded :: bool
  StatusReportsSent :: counter
  StatusReportsFailed :: counter
  RulesFetched :: counter
  RequestsSent :: counter
  RequestsFailed :: counter
  CircuitState :: gostring

definition agent_Stats :: "agent \<Rightarrow> Stats" where
  "agent_Stats a = \<lparr>EventsBuffered = buffered (events a), MetricsBuffered = buffered (metrics a),
     EventsFlushed = flushed (events a), MetricsFlushed = flushed (metrics a),
     EventsSent = sent_count (events a), MetricsSent = sent_count (metrics a),
     EventsFailed = failed (events a), MetricsFailed = failed (metrics a),
     EventsDropped = dropped (events a), MetricsDropped = dropped (metrics a),
     EventsPending = int (length (items (events a))), MetricsPending = int (length (items (metrics a))),
     RedisPersistFailures = redisPersistFailures a,
     DurabilityDegraded = (persist a \<noteq> None \<and> sint (redisPersistFailures a) > 0),
     StatusReportsSent = statusSent a, StatusReportsFailed = statusFailed a, RulesFetched = rulesFetched a,
     RequestsSent = requestsSent (tr a), RequestsFailed = requestsFailed (tr a),
     CircuitState = breaker_State (breaker (tr a))\<rparr>"

text \<open>
  \<open>Format(time.RFC3339)\<close> of a UTC time: the civil date by 400-, 100-, 4- and 1-year cycles from year
  1, the months by their lengths.
\<close>

definition pad :: "nat \<Rightarrow> int \<Rightarrow> gostring" where
  "pad n k = (let s = Itoa k in replicate (n - length s) (CHR ''0'') @ s)"

definition civil_year :: "int \<Rightarrow> int \<times> int" where
  "civil_year days =
    (let n400 = days div 146097; d = days mod 146097;
         n100 = min 3 (d div 36524); d = d - 36524 * n100;
         n4 = d div 1461; d = d mod 1461;
         n1 = min 3 (d div 365) in
     (400 * n400 + 100 * n100 + 4 * n4 + n1 + 1, d - 365 * n1))"

definition leap_year :: "int \<Rightarrow> bool" where
  "leap_year y \<longleftrightarrow> y mod 4 = 0 \<and> (y mod 100 \<noteq> 0 \<or> y mod 400 = 0)"

fun month_day :: "int list \<Rightarrow> int \<Rightarrow> int \<Rightarrow> int \<times> int" where
  "month_day [] m d = (m, d + 1)"
| "month_day (n # ns) m d = (if d < n then (m, d + 1) else month_day ns (m + 1) (d - n))"

definition month_lengths :: "int \<Rightarrow> int list" where
  "month_lengths y = [31, if leap_year y then 29 else 28, 31, 30, 31, 30, 31, 31, 30, 31, 30, 31]"

definition format_RFC3339 :: "gotime \<Rightarrow> gostring" where
  "format_RFC3339 t =
    (let secs = t div Second; days = secs div 86400; s = secs mod 86400 in
     case civil_year days of (y, yday) \<Rightarrow> case month_day (month_lengths y) 1 yday of (m, d) \<Rightarrow>
     pad 4 y @ ''-'' @ pad 2 m @ ''-'' @ pad 2 d @ ''T'' @ pad 2 (s div 3600) @ '':''
       @ pad 2 (s div 60 mod 60) @ '':'' @ pad 2 (s mod 60) @ ''Z'')"

definition AgentStats :: "env \<Rightarrow> agent \<Rightarrow> world \<Rightarrow> gomap \<times> world" where
  "AgentStats E a w =
    (let stats = agent_Stats a; running = (started a \<and> \<not> closed a); int64 = (\<lambda>c. GInt (sint c)) in
     case (if running then (case now E w of (tm, w1) \<Rightarrow> (duration_seconds (time_sub tm (startedAt a)), w1))
           else (Fin 0, w)) of (up, w1) \<Rightarrow>
     ([(''running'', GBool running), (''uptime'', GFloat64 up),
       (''events_sent'', int64 (EventsSent stats)), (''metrics_sent'', int64 (MetricsSent stats)),
       (''events_failed'', int64 (EventsFailed stats)), (''metrics_failed'', int64 (MetricsFailed stats)),
       (''rules_fetched'', int64 (RulesFetched stats)),
       (''buffer_stats'', GMap [
         (''events_buffered'', int64 (EventsBuffered stats)), (''metrics_buffered'', int64 (MetricsBuffered stats)),
         (''events_flushed'', int64 (EventsFlushed stats)), (''metrics_flushed'', int64 (MetricsFlushed stats)),
         (''events_dropped'', int64 (EventsDropped stats)), (''metrics_dropped'', int64 (MetricsDropped stats)),
         (''current_event_buffer_size'', GInt (EventsPending stats)),
         (''current_metric_buffer_size'', GInt (MetricsPending stats)),
         (''redis_persist_failures'', int64 (RedisPersistFailures stats)),
         (''durability_degraded'', GBool (DurabilityDegraded stats))]),
       (''transport_stats'', GMap [
         (''requests_sent'', int64 (RequestsSent stats)), (''requests_failed'', int64 (RequestsFailed stats)),
         (''circuit_breaker_state'', GString (CircuitState stats))]),
       (''cached_rules'', GBool (cachedRules a \<noteq> None)),
       (''rules_last_update'', if isZero (rulesLastUpdate a) then GNil
          else GString (format_RFC3339 (rulesLastUpdate a)))], w1))"

section \<open>Reporting\<close>

definition statusPayload :: "env \<Rightarrow> agent \<Rightarrow> world \<Rightarrow> agentStatusPayload \<times> world" where
  "statusPayload E a w =
    (case now E w of (tm, w1) \<Rightarrow>
     case (if started a \<and> \<not> closed a
           then (case now E w1 of (tm2, w2) \<Rightarrow> (duration_seconds (time_sub tm2 (startedAt a)), w2))
           else (Fin 0, w1)) of (up, w2) \<Rightarrow>
     (\<lparr>s_Timestamp = tm, s_Status = stateLocked a, s_Uptime = up, s_EventsSent = sent_count (events a),
       s_EventsFailed = failed (events a), s_BufferSize = combined a,
       s_LastFlush = (if isZero (lastFlush a) then None else Some (lastFlush a)),
       s_Errors = lastErrors a\<rparr>, w2))"

text \<open>The send with its recovered panic.\<close>

definition sendStatusSafely :: "env \<Rightarrow> ctx \<Rightarrow> agentStatusPayload \<Rightarrow> transport \<Rightarrow> world
    \<Rightarrow> (sendOutcome \<times> goerror option) \<times> transport \<times> world" where
  "sendStatusSafely E c body t w = (case sendStatus E c body t w of
     (Inl v, t1, w1) \<Rightarrow> ((outcomeFailed, Some (Wrapf (Error (conv E) ErrInternal @ '' during status send: '' @ v)
        ErrInternal)), t1, w1)
   | (Inr r, t1, w1) \<Rightarrow> (r, t1, w1))"

definition status_failure :: "env \<Rightarrow> goerror option \<Rightarrow> gostring" where
  "status_failure E err = (case err of None \<Rightarrow> ''status report failed''
     | Some e \<Rightarrow> ''status report failed: '' @ Error (conv E) e)"

definition record_report :: "env \<Rightarrow> sendOutcome \<Rightarrow> goerror option \<Rightarrow> agent \<Rightarrow> agent" where
  "record_report E outcome err a =
    (if outcomeConfirms outcome then a\<lparr>statusSent := statusSent a + 1, statusStreak := 0\<rparr>
     else recordErrorLocked (status_failure E err)
       (a\<lparr>statusFailed := statusFailed a + 1, statusStreak := statusStreak a + 1\<rparr>))"

definition reportStatus :: "env \<Rightarrow> ctx \<Rightarrow> agent \<Rightarrow> world \<Rightarrow> agent \<times> world" where
  "reportStatus E c a w =
    (case statusPayload E a w of (body, w1) \<Rightarrow>
     case sendStatusSafely E c body (tr a) w1 of ((outcome, err), t1, w2) \<Rightarrow>
       (record_report E outcome err (a\<lparr>tr := t1\<rparr>), w2))"

section \<open>What the classification means\<close>

text \<open>The same in integers, for buffers and counts up to 2^40.\<close>

definition moderate :: "agent \<Rightarrow> bool" where
  "moderate a \<longleftrightarrow> 0 < BufferSize (cfg a) \<and> BufferSize (cfg a) \<le> 2 ^ 40 \<and> combined a \<le> 2 ^ 40
     \<and> 0 \<le> sint (sent_count (events a)) \<and> sint (sent_count (events a)) \<le> 2 ^ 39
     \<and> 0 \<le> sint (failed (events a)) \<and> sint (failed (events a)) \<le> 2 ^ 39"

lemma moderate_total:
  assumes "moderate a"
  shows "sint (sent_count (events a) + failed (events a)) = sint (sent_count (events a)) + sint (failed (events a))"
proof -
  have "- (2 ^ 63) \<le> sint (sent_count (events a)) + sint (failed (events a))"
    "sint (sent_count (events a)) + sint (failed (events a)) < 2 ^ 63" using assms by (simp_all add: moderate_def)
  then show ?thesis by (simp add: sint_word_ariths signed_take_bit_int_eq_self)
qed

lemma moderate_tests:
  assumes "moderate a"
  shows "occupancy_at_least degradedBufferRatio a \<longleftrightarrow> 9 * BufferSize (cfg a) \<le> 10 * combined a"
    and "occupancy_at_least healthBufferRatio a \<longleftrightarrow> 19 * BufferSize (cfg a) \<le> 20 * combined a"
    and "failure_rate_above degradedFailureRate a
      \<longleftrightarrow> sint (sent_count (events a)) + sint (failed (events a)) < 10 * sint (failed (events a))"
    and "failure_rate_above healthFailureRateMax a
      \<longleftrightarrow> sint (sent_count (events a)) + sint (failed (events a)) < 2 * sint (failed (events a))"
proof -
  have c: "0 \<le> combined a" by (simp add: combined_def)
  note m = assms [unfolded moderate_def]
  show "occupancy_at_least degradedBufferRatio a \<longleftrightarrow> 9 * BufferSize (cfg a) \<le> 10 * combined a"
    "occupancy_at_least healthBufferRatio a \<longleftrightarrow> 19 * BufferSize (cfg a) \<le> 20 * combined a"
    using m c occupancy_tests [of "BufferSize (cfg a)" "combined a"]
    by (simp_all add: occupancy_at_least_def degradedBufferRatio_def healthBufferRatio_def)
  let ?f = "sint (failed (events a))" and ?t = "sint (sent_count (events a)) + sint (failed (events a))"
  show "failure_rate_above degradedFailureRate a \<longleftrightarrow> ?t < 10 * ?f"
    "failure_rate_above healthFailureRateMax a \<longleftrightarrow> ?t < 2 * ?f"
    using m rate_tests [of ?f ?t]
    by (auto simp: failure_rate_above_def moderate_total [OF assms] degradedFailureRate_def healthFailureRateMax_def)
qed

text \<open>C31. The health classification computed in float64 is the documented one, exactly: degraded from 90% occupancy
  or above a 10% failure rate, unhealthy from 95% or above 50%, with no rounding at the thresholds.\<close>

theorem state_exact:
  assumes "moderate a"
  shows "stateLocked a = (let s = sint (sent_count (events a)); f = sint (failed (events a)) in
      if closed a then StatusFailed
      else if breaker_State (breaker (tr a)) = ''open'' \<or> 9 * BufferSize (cfg a) \<le> 10 * combined a \<or> s + f < 10 * f
      then StatusDegraded else StatusHealthy)
    \<and> (Healthy a \<longleftrightarrow> started a \<and> \<not> closed a \<and> breaker_State (breaker (tr a)) \<noteq> ''open''
      \<and> 20 * combined a < 19 * BufferSize (cfg a)
      \<and> 2 * sint (failed (events a)) \<le> sint (sent_count (events a)) + sint (failed (events a)))"
proof
  have o': "breaker_State cb = ''open'' \<longleftrightarrow> breaker_Open cb" for cb
    by (cases "cstate cb") (simp_all add: breaker_State_def breaker_Open_def)
  show "stateLocked a = (let s = sint (sent_count (events a)); f = sint (failed (events a)) in
      if closed a then StatusFailed
      else if breaker_State (breaker (tr a)) = ''open'' \<or> 9 * BufferSize (cfg a) \<le> 10 * combined a \<or> s + f < 10 * f
      then StatusDegraded else StatusHealthy)"
    by (simp add: stateLocked_def o' Let_def moderate_tests [OF assms])
  show "Healthy a \<longleftrightarrow> started a \<and> \<not> closed a \<and> breaker_State (breaker (tr a)) \<noteq> ''open''
      \<and> 20 * combined a < 19 * BufferSize (cfg a)
      \<and> 2 * sint (failed (events a)) \<le> sint (sent_count (events a)) + sint (failed (events a))"
    by (auto simp: Healthy_def o' moderate_tests [OF assms])
qed

text \<open>An agent with 90 of 100 places taken, at the threshold.\<close>

definition busy_agent :: agent where
  "busy_agent = sample_agent\<lparr>started := True, events := (events sample_agent)\<lparr>items := replicate 90
     \<lparr>payload = sample_event, key = []\<rparr>\<rparr>\<rparr>"

theorem state_exact_witness: "stateLocked busy_agent = StatusDegraded \<and> Healthy busy_agent"
proof -
  have a: "BufferSize (cfg busy_agent) = 100" "combined busy_agent = 90" "sent_count (events busy_agent) = 0"
    "failed (events busy_agent) = 0" "started busy_agent" "\<not> closed busy_agent"
    "breaker_State (breaker (tr busy_agent)) = ''closed''"
    by (simp_all add: busy_agent_def sample_agent_def new_agent_def empty_kstate_def combined_def sample_simps
        newCircuitBreaker_def breaker_State_def)
  then have "moderate busy_agent" by (simp add: moderate_def)
  from state_exact [OF this] show ?thesis by (simp add: a)
qed

section \<open>The watermark\<close>

text \<open>With the default ratio the early flush is asked for from 80% of the buffer size on, exactly.\<close>

lemma watermark_default:
  assumes "HighWatermarkRatio (cfg a) = defaultHighWatermark" "0 < BufferSize (cfg a)" "BufferSize (cfg a) \<le> 2 ^ 40"
    "combined a \<le> 2 ^ 40"
  shows "watermarkReachedLocked a \<longleftrightarrow> 4 * BufferSize (cfg a) \<le> 5 * combined a"
  using assms occupancy_tests(3) [of "BufferSize (cfg a)" "combined a"]
  by (simp add: watermarkReachedLocked_def defaultHighWatermark_def combined_def)

section \<open>What a report does\<close>

lemma sendStatus_done:
  assumes "sendStatus E c body t w = (r, t', w')"
  shows "grows t w t' w' \<and> hook_trace w' = hook_trace w
    \<and> int (length (new_requests w w')) \<le> max 0 (RetryAttempts (t_cfg t)) + 1"
proof (cases "marshalStatus E body")
  case (Inl err)
  with assms show ?thesis by (auto simp: sendStatus_def new_requests_def)
next
  case (Inr raw)
  obtain q t1 w1 where s: "sendBatch E c statusPath raw False t w = (q, t1, w1)" by (metis prod.collapse)
  from sendBatch_done [OF s] obtain as where d: "same_transport t t1" "later w w1" "hook_trace w1 = hook_trace w"
    "redis_trace w1 = redis_trace w" "batch_done E statusPath raw False t w q t1 w1 as" by blast
  then have "grows t w t1 w1" by (auto simp: grows_def batch_done_def)
  moreover have "int (length (new_requests w w1)) \<le> max 0 (RetryAttempts (t_cfg t)) + 1"
    using d(5) by (simp add: batch_done_def new_requests_def)
  moreover have "w' = w1 \<and> (t' = t1 \<or> t' = bump_failed t1)"
    using assms by (auto simp: sendStatus_def Inr s split: sum.splits prod.splits if_splits)
  ultimately show ?thesis using d(3) by (auto simp: grows_def)
qed

lemma statusPayload_frame: "statusPayload E a w = (body, w1)
    \<Longrightarrow> http_trace w1 = http_trace w \<and> hook_trace w1 = hook_trace w \<and> redis_trace w1 = redis_trace w \<and> later w w1"
  by (auto simp: statusPayload_def now_def later_def Let_def split: if_splits)

lemma reportStatus_result:
  assumes "reportStatus E c a w = (a', w')"
  shows "same_buffers a w a' w' \<and> hook_trace w' = hook_trace w
    \<and> int (length (new_requests w w')) \<le> max 0 (RetryAttempts (t_cfg (tr a))) + 1
    \<and> (statusSent a' = statusSent a + 1 \<and> statusFailed a' = statusFailed a \<and> lastErrors a' = lastErrors a
       \<or> statusSent a' = statusSent a \<and> statusFailed a' = statusFailed a + 1
         \<and> (\<exists>err. lastErrors a' = lastErrors (recordErrorLocked (status_failure E err) a)))"
proof -
  obtain body w1 where p: "statusPayload E a w = (body, w1)" by (metis prod.collapse)
  obtain outcome err t1 w2 where s: "sendStatusSafely E c body (tr a) w1 = ((outcome, err), t1, w2)" by (metis prod.collapse)
  then obtain r where "sendStatus E c body (tr a) w1 = (r, t1, w2)"
    by (auto simp: sendStatusSafely_def split: sum.splits prod.splits)
  note d = sendStatus_done [OF this] and f = statusPayload_frame [OF p]
  have n: "new_requests w w2 = new_requests w1 w2" using f by (simp add: new_requests_def)
  have a': "a' = record_report E outcome err (a\<lparr>tr := t1\<rparr>)" "w' = w2" using assms p s by (simp_all add: reportStatus_def)
  have "same_buffers a w a' w'" using d f later_trans [of w w1 w2]
    by (simp add: a' same_buffers_def record_report_def recordErrorLocked_def Let_def grows_def)
  moreover have "statusSent a' = statusSent a + 1 \<and> statusFailed a' = statusFailed a \<and> lastErrors a' = lastErrors a
       \<or> statusSent a' = statusSent a \<and> statusFailed a' = statusFailed a + 1
         \<and> (\<exists>err. lastErrors a' = lastErrors (recordErrorLocked (status_failure E err) a))"
    by (cases "outcomeConfirms outcome")
       (auto simp: a' record_report_def recordErrorLocked_def Let_def intro!: exI [of _ err])
  ultimately show ?thesis using d f n a' by simp
qed

text \<open>A status report is independent of the delivery of telemetry: it leaves the buffers, the confirm queue
  and Redis alone and fires no error hook; it makes at most \<open>RetryAttempts + 1\<close> requests; and it moves
  exactly one of the two report counters, with the error list extended when it failed.\<close>

theorem reportStatus_effect:
  assumes "reportStatus E c a w = (a', w')"
  shows "same_buffers a w a' w' \<and> hook_trace w' = hook_trace w
    \<and> int (length (new_requests w w')) \<le> max 0 (RetryAttempts (t_cfg (tr a))) + 1
    \<and> (statusSent a' = statusSent a + 1 \<and> statusFailed a' = statusFailed a \<and> lastErrors a' = lastErrors a
       \<or> statusSent a' = statusSent a \<and> statusFailed a' = statusFailed a + 1
         \<and> (\<exists>err. lastErrors a' = lastErrors (recordErrorLocked (status_failure E err) a)))"
  using assms by (rule reportStatus_result)

theorem reportStatus_effect_witness:
  "\<exists>a' w'. reportStatus calm Background sample_agent start = (a', w') \<and> hook_trace w' = [] \<and> events a' = events sample_agent"
proof -
  obtain a' w' where r: "reportStatus calm Background sample_agent start = (a', w')" by (metis prod.collapse)
  from reportStatus_effect [OF r] r show ?thesis by (auto simp: same_buffers_def start_def)
qed

section \<open>Dates\<close>

text \<open>Spot checks of the date format: the epoch, a leap day, the end of a century.\<close>

lemma format_RFC3339_examples:
  "format_RFC3339 unix_epoch = ''1970-01-01T00:00:00Z''"
  "format_RFC3339 (unix_epoch + 1709210096 * Second) = ''2024-02-29T12:34:56Z''"
  "format_RFC3339 (unix_epoch - 2208988801 * Second) = ''1899-12-31T23:59:59Z''"
  by code_simp+

end
