(* ===== verification/Rules.thy ===== *)
theory Rules
  imports Status
begin

text \<open>
  dynamic_rules.go: the rules document with its defaults, the fetch with the retry machinery of the
  transport (the second retry loop of the development), and the agent's cache.
\<close>

section \<open>The document\<close>

abbreviation rulesPath :: gostring where "rulesPath \<equiv> ''/api/v1/rules''"

definition DefaultDynamicRules :: "gotime \<Rightarrow> DynamicRules" where
  "DefaultDynamicRules tm = \<lparr>RuleID = ''default-rule'', rules_Version = 1, rules_Timestamp = tm,
     ExpiresAt = None, TTL = 300, IPBlacklist = [], IPWhitelist = [], IPBanDuration = 3600,
     BlockedCountries = [], WhitelistCountries = [], GlobalRateLimit = None, GlobalRateWindow = None,
     EndpointRateLimits = [], BlockedCloudProviders = [], BlockedUserAgents = [], SuspiciousPatterns = [],
     EnablePenetrationDetection = None, EnableIPBanning = None, EnableRateLimiting = None,
     AutoBanThreshold = None, AutoBanDuration = None, EnableRateLimitAutoBan = None,
     EmergencyMode = False, EmergencyWhitelist = [], EmergencyWhitelistOnly = False, rules_Message = None\<rparr>"

definition replaceOrEmpty :: "gostring list option \<Rightarrow> gostring list \<Rightarrow> gostring list" where
  "replaceOrEmpty decoded fallback = (case decoded of Some d \<Rightarrow> d | None \<Rightarrow> fallback)"

text \<open>\<open>if p != nil { field = *p }\<close>.\<close>

definition deref_or :: "'a option \<Rightarrow> 'a \<Rightarrow> 'a" where
  "deref_or p x = (case p of Some v \<Rightarrow> v | None \<Rightarrow> x)"

definition overlay :: "dynamicRulesWire \<Rightarrow> DynamicRules \<Rightarrow> DynamicRules" where
  "overlay wire r = r\<lparr>
     RuleID := deref_or (w_RuleID wire) (RuleID r),
     rules_Version := deref_or (w_Version wire) (rules_Version r),
     rules_Timestamp := deref_or (w_Timestamp wire) (rules_Timestamp r),
     ExpiresAt := w_ExpiresAt wire,
     TTL := deref_or (w_TTL wire) (TTL r),
     IPBlacklist := replaceOrEmpty (w_IPBlacklist wire) (IPBlacklist r),
     IPWhitelist := replaceOrEmpty (w_IPWhitelist wire) (IPWhitelist r),
     IPBanDuration := deref_or (w_IPBanDuration wire) (IPBanDuration r),
     BlockedCountries := replaceOrEmpty (w_BlockedCountries wire) (BlockedCountries r),
     WhitelistCountries := replaceOrEmpty (w_WhitelistCountries wire) (WhitelistCountries r),
     GlobalRateLimit := w_GlobalRateLimit wire,
     GlobalRateWindow := w_GlobalRateWindow wire,
     EndpointRateLimits := deref_or (w_EndpointRateLimits wire) (EndpointRateLimits r),
     BlockedCloudProviders := replaceOrEmpty (w_BlockedCloudProviders wire) (BlockedCloudProviders r),
     BlockedUserAgents := replaceOrEmpty (w_BlockedUserAgents wire) (BlockedUserAgents r),
     SuspiciousPatterns := replaceOrEmpty (w_SuspiciousPatterns wire) (SuspiciousPatterns r),
     EnablePenetrationDetection := w_EnablePenetrationDetection wire,
     EnableIPBanning := w_EnableIPBanning wire,
     EnableRateLimiting := w_EnableRateLimiting wire,
     AutoBanThreshold := w_AutoBanThreshold wire,
     AutoBanDuration := w_AutoBanDuration wire,
     EnableRateLimitAutoBan := w_EnableRateLimitAutoBan wire,
     EmergencyMode := w_EmergencyMode wire,
     EmergencyWhitelist := replaceOrEmpty (w_EmergencyWhitelist wire) (EmergencyWhitelist r),
     EmergencyWhitelistOnly := w_EmergencyWhitelistOnly wire,
     rules_Message := w_Message wire\<rparr>"

definition UnmarshalJSON :: "env \<Rightarrow> gostring \<Rightarrow> world \<Rightarrow> (gostring + DynamicRules) \<times> world" where
  "UnmarshalJSON E data w = (case now E w of (tm, w1) \<Rightarrow>
     (case unmarshal_rules E data of Inl err \<Rightarrow> (Inl err, w1)
      | Inr wire \<Rightarrow> (Inr (overlay wire (DefaultDynamicRules tm)), w1)))"

section \<open>Fetching\<close>

text \<open>A panic of the HTTP client, or an error, or the rules.\<close>

type_synonym fetched = "gostring + (goerror + DynamicRules)"

definition rules_headers :: "transport \<Rightarrow> (gostring \<times> gostring) list" where
  "rules_headers t = [(''User-Agent'', userAgent), (''X-API-Key'', APIKey (t_cfg t)),
      (''X-Agent-Install-Id'', t_installID t)]
   @ (if ProjectID (t_cfg t) \<noteq> [] then [(''X-Project-Id'', ProjectID (t_cfg t))] else [])"

definition rules_request :: "transport \<Rightarrow> http_request" where
  "rules_request t = \<lparr>rq_method = ''GET'', rq_url = Endpoint (t_cfg t) @ rulesPath,
     rq_headers = rules_headers t, rq_body = []\<rparr>"

definition malformed_rules :: "gostring \<Rightarrow> goerror" where
  "malformed_rules err = Wrapf (''guardagent: malformed dynamic rules response: '' @ err) (Errorf err)"

definition rules_status_error :: "int \<Rightarrow> gostring \<Rightarrow> goerror" where
  "rules_status_error status body = Errorf (''guardagent: dynamic rules request failed with status ''
     @ Itoa status @ '': '' @ Transport.truncate body 200)"

definition rules_response :: "env \<Rightarrow> ctx \<Rightarrow> int \<Rightarrow> int \<Rightarrow> gostring \<Rightarrow> gostring \<Rightarrow> transport \<Rightarrow> world
    \<Rightarrow> fetched step \<times> transport \<times> world" where
  "rules_response E c attempt status retryAfter body0 t w =
    (let body = take httpReadLimit body0 in
     if status = 200 then
       let t1 = bump_sent (t\<lparr>breaker := Success (breaker t)\<rparr>) in
       (case UnmarshalJSON E body w of
          (Inl err, w1) \<Rightarrow> (Return (Inr (Inl (malformed_rules err))), bump_failed t1, w1)
        | (Inr rules, w1) \<Rightarrow> (Return (Inr (Inr rules)), t1, w1))
     else if status = 429 then
       (case breaker_Failure E t w of (t1, w1) \<Rightarrow>
         let delay = parseRetryAfter (conv E) retryAfter in
         retry_or E c attempt delay (Inr (Inl (RateLimitedError delay))) (bump_failed t1) w1)
     else
       (case breaker_Failure E t w of (t1, w1) \<Rightarrow>
         retry_or E c attempt (backoff E t attempt) (Inr (Inl (rules_status_error status body))) (bump_failed t1) w1))"

definition after_rules_request :: "env \<Rightarrow> ctx \<Rightarrow> int \<Rightarrow> transport \<Rightarrow> http_result \<Rightarrow> world
    \<Rightarrow> fetched step \<times> transport \<times> world" where
  "after_rules_request E c attempt t2 a w3 = (case a of
       NetPanic v \<Rightarrow> (Return (Inl v), t2, w3)
     | NetErr err \<Rightarrow>
         (case breaker_Failure E t2 w3 of (t3, w4) \<Rightarrow>
          let t4 = bump_failed t3 in
          case ctx_Err E c w4 of
            (Some e, w5) \<Rightarrow> (Return (Inr (Inl e)), t4, w5)
          | (None, w5) \<Rightarrow> retry_or E c attempt (backoff E t4 attempt) (Inr (Inl (Errorf err))) t4 w5)
     | Resp status retryAfter body \<Rightarrow> rules_response E c attempt status retryAfter body t2 w3)"

definition rulesAttempt :: "env \<Rightarrow> ctx \<Rightarrow> int \<Rightarrow> transport \<Rightarrow> world \<Rightarrow> fetched step \<times> transport \<times> world" where
  "rulesAttempt E c attempt t w =
    (case limiterGate E c attempt ''dynamic rules fetch'' t w of ((allowed, gateErr), t1, w1) \<Rightarrow>
     if \<not> allowed then (case gateErr of Some e \<Rightarrow> (Return (Inr (Inl e)), t1, w1) | None \<Rightarrow> (Again, t1, w1))
     else case now E w1 of (tm, w2) \<Rightarrow> case Admit tm (breaker t1) of
       (Some err, cb) \<Rightarrow> (Return (Inr (Inl err)), t1\<lparr>breaker := cb\<rparr>, w2)
     | (None, cb) \<Rightarrow>
       let t2 = t1\<lparr>breaker := cb\<rparr> in
       case NewRequest_err E (rq_url (rules_request t2)) of
         Some err \<Rightarrow> (Return (Inr (Inl (Errorf err))), t2, w2)
       | None \<Rightarrow> case client_Do E (rules_request t2) w2 of (a, w3) \<Rightarrow> after_rules_request E c attempt t2 a w3)"

text \<open>What the loop may go round on, and what it may return for an answer.\<close>

fun rules_retryable :: "http_result \<Rightarrow> bool" where
  "rules_retryable (Resp status ra body) \<longleftrightarrow> status \<noteq> 200"
| "rules_retryable (NetErr e) \<longleftrightarrow> True"
| "rules_retryable (NetPanic v) \<longleftrightarrow> False"

definition rules_error :: "fetched \<Rightarrow> bool" where
  "rules_error r \<longleftrightarrow> (\<exists>e. r = Inr (Inl e))"

fun rules_answer :: "env \<Rightarrow> http_result \<Rightarrow> fetched \<Rightarrow> bool" where
  "rules_answer E (NetPanic v) r \<longleftrightarrow> r = Inl v"
| "rules_answer E (NetErr e) r \<longleftrightarrow> rules_error r"
| "rules_answer E (Resp status ra body) r \<longleftrightarrow>
     (if status \<noteq> 200 then rules_error r
      else case unmarshal_rules E (take httpReadLimit body) of Inl err \<Rightarrow> rules_error r
        | Inr wire \<Rightarrow> \<exists>tm. r = Inr (Inr (overlay wire (DefaultDynamicRules tm))))"

lemma rules_response_settled:
  assumes "rules_response E c attempt status ra body t w = (x, t', w')"
  shows "settled rules_retryable (rules_answer E) attempt (Resp status ra body) t w x t' w'"
proof -
  obtain t1 w1 where f: "breaker_Failure E t w = (t1, w1)" by fastforce
  have q: "quiet t w (bump_failed t1) w1" using breaker_Failure_quiet [OF f] by simp
  consider "status = 200" | "status = 429" | "status \<noteq> 200" "status \<noteq> 429" by blast
  then show ?thesis
  proof cases
    case 1
    obtain tm w2 where n: "now E w = (tm, w2)" by fastforce
    have "quiet t w t w2" by (rule now_quiet [OF n])
    with 1 assms n show ?thesis
      by (cases "unmarshal_rules E (take httpReadLimit body)")
         (auto simp: rules_response_def UnmarshalJSON_def Let_def settled_def rules_error_def)
  next
    case 2
    then have "retry_or E c attempt (parseRetryAfter (conv E) ra) (Inr (Inl (RateLimitedError (parseRetryAfter (conv E) ra))))
        (bump_failed t1) w1 = (x, t', w')"
      using assms by (simp add: rules_response_def f Let_def)
    from retry_or_settled [OF this q, of rules_retryable "Resp status ra body" "rules_answer E"] 2
    show ?thesis by (simp add: rules_error_def)
  next
    case 3
    then have "retry_or E c attempt (backoff E t attempt) (Inr (Inl (rules_status_error status (take httpReadLimit body))))
        (bump_failed t1) w1 = (x, t', w')"
      using assms by (simp add: rules_response_def f Let_def)
    from retry_or_settled [OF this q, of rules_retryable "Resp status ra body" "rules_answer E"] 3
    show ?thesis by (simp add: rules_error_def)
  qed
qed

lemma after_rules_request_settled:
  assumes "after_rules_request E c attempt t a w = (x, t', w')"
  shows "settled rules_retryable (rules_answer E) attempt a t w x t' w'"
proof (cases a)
  case (Resp status ra body)
  with assms show ?thesis by (simp add: after_rules_request_def rules_response_settled)
next
  case (NetPanic v)
  with assms show ?thesis by (auto simp: after_rules_request_def settled_def)
next
  case (NetErr err)
  obtain t3 w4 where f: "breaker_Failure E t w = (t3, w4)" by fastforce
  obtain e w5 where x: "ctx_Err E c w4 = (e, w5)" by fastforce
  have q: "quiet t w (bump_failed t3) w5"
    using quiet_trans [OF breaker_Failure_quiet [OF f] ctx_Err_quiet [OF x]] by simp
  show ?thesis
  proof (cases e)
    case None
    then have "retry_or E c attempt (backoff E (bump_failed t3) attempt) (Inr (Inl (Errorf err)))
        (bump_failed t3) w5 = (x, t', w')"
      using assms NetErr by (simp add: after_rules_request_def f x Let_def)
    from retry_or_settled [OF this q, of rules_retryable a "rules_answer E"] show ?thesis
      by (simp add: NetErr rules_error_def)
  next
    case (Some e')
    with assms NetErr q show ?thesis
      by (auto simp: after_rules_request_def f x Let_def settled_def rules_error_def)
  qed
qed

lemma rules_request_same: "same_transport t t' \<Longrightarrow> rules_request t' = rules_request t"
  by (simp add: same_transport_def rules_request_def rules_headers_def)

lemma rulesAttempt_attempted:
  assumes "rulesAttempt E c attempt t w = (x, t', w')"
  shows "attempted rules_retryable (rules_answer E) rules_error attempt (rules_request t) t w x t' w'"
proof -
  obtain allowed gateErr t1 w1 where g: "limiterGate E c attempt ''dynamic rules fetch'' t w = ((allowed, gateErr), t1, w1)"
    by (metis prod.collapse)
  have q1: "quiet t w t1 w1" by (rule limiterGate_quiet [OF g])
  show ?thesis
  proof (cases allowed)
    case False
    show ?thesis
    proof (cases gateErr)
      case None
      with False g have "attempt < RetryAttempts (t_cfg t)" by (simp add: limiterGate_again)
      then show ?thesis using assms False None q1 by (auto simp: rulesAttempt_def g intro: attempted_quiet)
    next
      case (Some e)
      then show ?thesis using assms False q1 by (auto simp: rulesAttempt_def g rules_error_def intro: attempted_quiet)
    qed
  next
    case True
    obtain tm w2 where n: "now E w1 = (tm, w2)" by fastforce
    obtain adm cb where a: "Admit tm (breaker t1) = (adm, cb)" by fastforce
    define t2 where "t2 = t1\<lparr>breaker := cb\<rparr>"
    have q2: "quiet t w t2 w2" using quiet_trans [OF q1 now_quiet [OF n]] by (simp add: t2_def)
    have rq: "rules_request t2 = rules_request t" using q2 by (simp add: quiet_def rules_request_same)
    show ?thesis
    proof (cases adm)
      case (Some err)
      then show ?thesis using assms True q2
        by (auto simp: rulesAttempt_def g n a t2_def rules_error_def intro: attempted_quiet)
    next
      case None
      show ?thesis
      proof (cases "NewRequest_err E (rq_url (rules_request t2))")
        case (Some err)
        then show ?thesis using assms True None q2
          by (auto simp: rulesAttempt_def g n a t2_def Let_def rules_error_def intro!: attempted_quiet)
      next
        case ok: None
        obtain ans w3 where d: "client_Do E (rules_request t2) w2 = (ans, w3)" by fastforce
        have "rulesAttempt E c attempt t w = after_rules_request E c attempt t2 ans w3"
          using True None ok d by (simp add: rulesAttempt_def g n a t2_def Let_def)
        with assms have "settled rules_retryable (rules_answer E) attempt ans t2 w3 x t' w'"
          by (simp add: after_rules_request_settled)
        from attempted_settled [OF q2 d this] show ?thesis by (simp add: rq)
      qed
    qed
  qed
qed

function fetchLoop :: "env \<Rightarrow> ctx \<Rightarrow> int \<Rightarrow> transport \<Rightarrow> world \<Rightarrow> fetched \<times> transport \<times> world" where
  "fetchLoop E c attempt t w =
    (case rulesAttempt E c attempt t w of
       (Return r, t', w') \<Rightarrow> (r, t', w')
     | (Again, t', w') \<Rightarrow> fetchLoop E c (attempt + 1) t' w')"
  by pat_completeness auto
termination
proof (relation "measure (\<lambda>(E, c, attempt, t, w). nat (RetryAttempts (t_cfg t) - attempt))", goal_cases)
  case (2 E c attempt t w x y t' w')
  then have "attempted rules_retryable (rules_answer E) rules_error attempt (rules_request t) t w Again t' w'"
    by (metis rulesAttempt_attempted)
  then show ?case by (auto simp: attempted_def same_transport_def)
qed simp

declare fetchLoop.simps [simp del]

definition fetchDynamicRules :: "env \<Rightarrow> ctx \<Rightarrow> transport \<Rightarrow> world \<Rightarrow> fetched \<times> transport \<times> world" where
  "fetchDynamicRules E c t w = fetchLoop E c 0 t w"

interpretation fetch: retry_loop "rulesAttempt E c" "fetchLoop E c" rules_request rules_retryable "rules_answer E" rules_error
  for E c
proof
  show "fetchLoop E c k t w = (case rulesAttempt E c k t w of
      (Return r, t', w') \<Rightarrow> (r, t', w') | (Again, t', w') \<Rightarrow> fetchLoop E c (k + 1) t' w')" for k t w
    by (rule fetchLoop.simps)
qed (simp_all add: rulesAttempt_attempted rules_request_same)

section \<open>The cache\<close>

definition fetchRulesSafely :: "env \<Rightarrow> ctx \<Rightarrow> transport \<Rightarrow> world \<Rightarrow> (goerror + DynamicRules) \<times> transport \<times> world" where
  "fetchRulesSafely E c t w = (case fetchDynamicRules E c t w of
     (Inl v, t1, w1) \<Rightarrow> (Inl (Wrapf (Error (conv E) ErrInternal @ '' during dynamic rules fetch: '' @ v) ErrInternal), t1, w1)
   | (Inr r, t1, w1) \<Rightarrow> (r, t1, w1))"

text \<open>\<open>time.Duration(cached.TTL)*time.Second\<close> wraps around.\<close>

definition ttl_duration :: "DynamicRules \<Rightarrow> duration" where
  "ttl_duration r = wrap64 (TTL r * Second)"

definition GetDynamicRules :: "env \<Rightarrow> ctx \<Rightarrow> agent \<Rightarrow> world \<Rightarrow> DynamicRules option \<times> agent \<times> world" where
  "GetDynamicRules E c a w =
    (case (case cachedRules a of None \<Rightarrow> (False, w)
        | Some r \<Rightarrow> (case now E w of (tm, w1) \<Rightarrow> (time_sub tm (rulesLastUpdate a) < ttl_duration r, w1))) of (fresh, w1) \<Rightarrow>
     if fresh then (cachedRules a, a, w1)
     else case fetchRulesSafely E c (tr a) w1 of
       (Inl err, t1, w2) \<Rightarrow> (cachedRules a, a\<lparr>tr := t1\<rparr>, w2)
     | (Inr rules, t1, w2) \<Rightarrow> (case now E w2 of (tm, w3) \<Rightarrow>
         (Some rules, a\<lparr>tr := t1, cachedRules := Some rules, rulesLastUpdate := tm, rulesFetched := rulesFetched a + 1\<rparr>, w3)))"

text \<open>One tick of \<open>rulesLoop\<close>: the new count of failures in a row.\<close>

definition rulesTick :: "env \<Rightarrow> int \<Rightarrow> agent \<Rightarrow> world \<Rightarrow> int \<times> agent \<times> world" where
  "rulesTick E consecutive a w = (case GetDynamicRules E (loopCtx a) a w of (rules, a1, w1) \<Rightarrow>
     (if rules \<noteq> None then 0 else consecutive + 1, a1, w1))"

section \<open>Defaults and overlay\<close>

text \<open>The document that states every field of some rules.\<close>

definition full_wire :: "DynamicRules \<Rightarrow> dynamicRulesWire" where
  "full_wire r = \<lparr>w_RuleID = Some (RuleID r), w_Version = Some (rules_Version r),
     w_Timestamp = Some (rules_Timestamp r), w_ExpiresAt = ExpiresAt r, w_TTL = Some (TTL r),
     w_IPBlacklist = Some (IPBlacklist r), w_IPWhitelist = Some (IPWhitelist r),
     w_IPBanDuration = Some (IPBanDuration r), w_BlockedCountries = Some (BlockedCountries r),
     w_WhitelistCountries = Some (WhitelistCountries r), w_GlobalRateLimit = GlobalRateLimit r,
     w_GlobalRateWindow = GlobalRateWindow r, w_EndpointRateLimits = Some (EndpointRateLimits r),
     w_BlockedCloudProviders = Some (BlockedCloudProviders r), w_BlockedUserAgents = Some (BlockedUserAgents r),
     w_SuspiciousPatterns = Some (SuspiciousPatterns r),
     w_EnablePenetrationDetection = EnablePenetrationDetection r, w_EnableIPBanning = EnableIPBanning r,
     w_EnableRateLimiting = EnableRateLimiting r, w_AutoBanThreshold = AutoBanThreshold r,
     w_AutoBanDuration = AutoBanDuration r, w_EnableRateLimitAutoBan = EnableRateLimitAutoBan r,
     w_EmergencyMode = EmergencyMode r, w_EmergencyWhitelist = Some (EmergencyWhitelist r),
     w_EmergencyWhitelistOnly = EmergencyWhitelistOnly r, w_Message = rules_Message r\<rparr>"

definition empty_wire :: dynamicRulesWire where
  "empty_wire = \<lparr>w_RuleID = None, w_Version = None, w_Timestamp = None, w_ExpiresAt = None, w_TTL = None,
     w_IPBlacklist = None, w_IPWhitelist = None, w_IPBanDuration = None, w_BlockedCountries = None,
     w_WhitelistCountries = None, w_GlobalRateLimit = None, w_GlobalRateWindow = None,
     w_EndpointRateLimits = None, w_BlockedCloudProviders = None, w_BlockedUserAgents = None,
     w_SuspiciousPatterns = None, w_EnablePenetrationDetection = None, w_EnableIPBanning = None,
     w_EnableRateLimiting = None, w_AutoBanThreshold = None, w_AutoBanDuration = None,
     w_EnableRateLimitAutoBan = None, w_EmergencyMode = False, w_EmergencyWhitelist = None,
     w_EmergencyWhitelistOnly = False, w_Message = None\<rparr>"

text \<open>Decoding a rules document overlays the defaults: a document that states every field decodes to
  exactly those rules, whatever the defaults were, and one without members decodes to the defaults.\<close>

theorem overlay_full_empty: "overlay (full_wire r) d = r \<and> overlay empty_wire (DefaultDynamicRules tm) = DefaultDynamicRules tm"
  by (simp add: overlay_def full_wire_def empty_wire_def DefaultDynamicRules_def replaceOrEmpty_def deref_or_def)

section \<open>The cache\<close>

lemma fetchRulesSafely_done:
  assumes "fetchRulesSafely E c t w = (r, t', w')"
  shows "same_transport t t' \<and> later w w' \<and> redis_trace w' = redis_trace w \<and> hook_trace w' = hook_trace w
    \<and> (\<exists>as. http_trace w' = http_trace w @ map (Pair (rules_request t)) as
        \<and> int (length as) \<le> max 0 (RetryAttempts (t_cfg t)) + 1 \<and> list_all rules_retryable (butlast as)
        \<and> (\<forall>rules. r = Inr rules \<longrightarrow> as \<noteq> [] \<and> (\<exists>ra body wire tm. last as = Resp 200 ra body
            \<and> unmarshal_rules E (take httpReadLimit body) = Inr wire \<and> rules = overlay wire (DefaultDynamicRules tm))))"
proof -
  obtain q where q: "fetchLoop E c 0 t w = (q, t', w')" and r: "r = Inr rules \<Longrightarrow> q = Inr (Inr rules)" for rules
    using assms by (auto simp: fetchRulesSafely_def fetchDynamicRules_def split: sum.splits prod.splits)
  from fetch.loop_done [OF q] obtain as where as: "http_trace w' = http_trace w @ map (Pair (rules_request t)) as"
      "int (length as) \<le> max 0 (RetryAttempts (t_cfg t)) + 1"
      "list_all rules_retryable as \<and> rules_error q \<or> as \<noteq> [] \<and> list_all rules_retryable (butlast as) \<and> rules_answer E (last as) q"
    and base: "same_transport t t'" "later w w'" "redis_trace w' = redis_trace w" "hook_trace w' = hook_trace w"
    unfolding fetch.loop_done_def by auto
  have "as \<noteq> [] \<and> (\<exists>ra body wire tm. last as = Resp 200 ra body
      \<and> unmarshal_rules E (take httpReadLimit body) = Inr wire \<and> rules = overlay wire (DefaultDynamicRules tm))"
    if "r = Inr rules" for rules
  proof -
    from r [OF that] as(3) have "as \<noteq> []" "rules_answer E (last as) (Inr (Inr rules))" by (auto simp: rules_error_def)
    then show ?thesis by (cases "last as") (auto simp: rules_error_def split: if_splits sum.splits)
  qed
  moreover have "list_all rules_retryable (butlast as)" using as(3) by (auto simp: list_all_iff dest: in_set_butlastD)
  ultimately show ?thesis using base as(1,2) by blast
qed

text \<open>The rules are served from the cache, without a request and without changing the agent, exactly as long
  as the document's TTL has not run out.\<close>

theorem GetDynamicRules_fresh:
  assumes "cachedRules a = Some r" and "0 \<le> TTL r" and "TTL r \<le> 9223372036"
    and "clock (observe E w) - rulesLastUpdate a < TTL r * Second"
  shows "GetDynamicRules E c a w = (Some r, a, observe E w)"
proof -
  have ttl: "ttl_duration r = TTL r * Second" "TTL r * Second \<le> max_int64"
    using assms(2,3) by (simp_all add: ttl_duration_def wrap64_def)
  have "time_sub (clock (observe E w)) (rulesLastUpdate a) < TTL r * Second"
    using assms(2,4) ttl(2) by (subst time_sub_less) auto
  then show ?thesis using assms(1) ttl(1) by (simp add: GetDynamicRules_def now_def Let_def)
qed

lemma GetDynamicRules_result:
  assumes "GetDynamicRules E c a w = (res, a', w')"
  shows "same_buffers a w a' w'
    \<and> (\<exists>as. http_trace w' = http_trace w @ map (Pair (rules_request (tr a))) as
        \<and> int (length as) \<le> max 0 (RetryAttempts (t_cfg (tr a))) + 1
        \<and> (res = cachedRules a \<and> cachedRules a' = cachedRules a \<and> rulesLastUpdate a' = rulesLastUpdate a
              \<and> rulesFetched a' = rulesFetched a
           \<or> (\<exists>rules ra body wire tm. res = Some rules \<and> cachedRules a' = Some rules \<and> rulesFetched a' = rulesFetched a + 1
              \<and> as \<noteq> [] \<and> last as = Resp 200 ra body \<and> unmarshal_rules E (take httpReadLimit body) = Inr wire
              \<and> rules = overlay wire (DefaultDynamicRules tm))))"
proof -
  define pre where "pre = (case cachedRules a of None \<Rightarrow> (False, w)
      | Some r \<Rightarrow> (case now E w of (tm, w1) \<Rightarrow> (time_sub tm (rulesLastUpdate a) < ttl_duration r, w1)))"
  obtain fresh w1 where p: "pre = (fresh, w1)" by fastforce
  have w1: "http_trace w1 = http_trace w" "redis_trace w1 = redis_trace w" and l1: "later w w1"
    using p by (auto simp: pre_def now_def later_def Let_def split: option.splits)
  show ?thesis
  proof (cases fresh)
    case True
    then have e: "res = cachedRules a" "a' = a" "w' = w1"
      using assms p by (auto simp: GetDynamicRules_def pre_def [symmetric])
    show ?thesis by (simp add: e w1 l1 same_buffers_def)
  next
    case False
    obtain r t1 w2 where f: "fetchRulesSafely E c (tr a) w1 = (r, t1, w2)" by (metis prod.collapse)
    from fetchRulesSafely_done [OF f] obtain as where
      as: "http_trace w2 = http_trace w @ map (Pair (rules_request (tr a))) as" "redis_trace w2 = redis_trace w" "later w1 w2"
        "int (length as) \<le> max 0 (RetryAttempts (t_cfg (tr a))) + 1"
      and ok: "\<And>rules. r = Inr rules \<Longrightarrow> as \<noteq> [] \<and> (\<exists>ra body wire tm. last as = Resp 200 ra body
            \<and> unmarshal_rules E (take httpReadLimit body) = Inr wire \<and> rules = overlay wire (DefaultDynamicRules tm))"
      unfolding w1 by blast
    have l2: "later w w2" using l1 as(3) by (rule later_trans)
    show ?thesis
    proof (cases r)
      case (Inl err)
      then have e: "res = cachedRules a" "a' = a\<lparr>tr := t1\<rparr>" "w' = w2"
        using assms p False f by (auto simp: GetDynamicRules_def pre_def [symmetric])
      show ?thesis using as l2 by (simp add: e same_buffers_def) (rule exI [of _ as], simp)
    next
      case (Inr rules)
      obtain tm w3 where n: "now E w2 = (tm, w3)" by fastforce
      have e: "res = Some rules" "a' = a\<lparr>tr := t1, cachedRules := Some rules, rulesLastUpdate := tm,
          rulesFetched := rulesFetched a + 1\<rparr>" "w' = w3"
        using assms p False f n Inr by (auto simp: GetDynamicRules_def pre_def [symmetric])
      have "http_trace w3 = http_trace w2" "redis_trace w3 = redis_trace w2" "later w2 w3" using n by (auto simp: now_def Let_def)
      with as l2 later_trans [of w w2 w3] ok [OF Inr] show ?thesis by (simp add: e same_buffers_def) (rule exI [of _ as], auto)
    qed
  qed
qed

text \<open>C30. A rules outage never takes rules away: once rules are cached every call returns some. A call makes at
  most \<open>RetryAttempts + 1\<close> requests, all the same GET, and touches no buffer. Either it leaves the cache,
  its time and the fetch counter as they were and returns the cached rules, or it returns, caches and
  counts the rules of a 200 answer it received.\<close>

theorem GetDynamicRules_outage:
  assumes "GetDynamicRules E c a w = (res, a', w')"
  shows "same_buffers a w a' w'
    \<and> (\<exists>as. http_trace w' = http_trace w @ map (Pair (rules_request (tr a))) as
        \<and> int (length as) \<le> max 0 (RetryAttempts (t_cfg (tr a))) + 1
        \<and> (res = cachedRules a \<and> cachedRules a' = cachedRules a \<and> rulesLastUpdate a' = rulesLastUpdate a
              \<and> rulesFetched a' = rulesFetched a
           \<or> (\<exists>rules ra body wire tm. res = Some rules \<and> cachedRules a' = Some rules \<and> rulesFetched a' = rulesFetched a + 1
              \<and> as \<noteq> [] \<and> last as = Resp 200 ra body \<and> unmarshal_rules E (take httpReadLimit body) = Inr wire
              \<and> rules = overlay wire (DefaultDynamicRules tm))))"
  using assms by (rule GetDynamicRules_result)

text \<open>The TTL is multiplied into an int64: a document with a TTL between 2^63 and 2^64 nanoseconds (some 292
  to 584 years) counts as expired from the start, so that every call fetches again.\<close>

theorem GetDynamicRules_ttl_overflow:
  assumes "9223372037 \<le> TTL r" and "TTL r \<le> 18446744073" and "rulesLastUpdate a \<le> clock w"
    and "cachedRules a = Some r"
  shows "fst (snd (GetDynamicRules E c a w)) = (case fetchRulesSafely E c (tr a) (observe E w) of
      (Inl err, t1, w2) \<Rightarrow> a\<lparr>tr := t1\<rparr>
    | (Inr rules, t1, w2) \<Rightarrow> a\<lparr>tr := t1, cachedRules := Some rules, rulesLastUpdate := fst (now E w2),
        rulesFetched := rulesFetched a + 1\<rparr>)"
proof -
  have "(TTL r * Second + 2 ^ 63) mod 2 ^ 64 = (TTL r * Second + 2 ^ 63 - 2 ^ 64) mod 2 ^ 64" by (rule minus_mod_self2 [symmetric])
  also have "\<dots> = TTL r * Second + 2 ^ 63 - 2 ^ 64"
    using assms(1,2) by (intro mod_pos_pos_trivial) auto
  finally have "ttl_duration r < 0" using assms(2) by (simp add: ttl_duration_def wrap64_def)
  moreover have "0 \<le> time_sub (clock (observe E w)) (rulesLastUpdate a)" using assms(3) by (simp add: time_sub_def)
  ultimately have "\<not> time_sub (clock (observe E w)) (rulesLastUpdate a) < ttl_duration r" by simp
  then show ?thesis using assms(4)
    by (simp add: GetDynamicRules_def now_def Let_def split: prod.split sum.split)
qed

section \<open>Closed examples\<close>

definition cached_agent :: "int \<Rightarrow> agent" where
  "cached_agent ttl = sample_agent\<lparr>cachedRules := Some ((DefaultDynamicRules 0)\<lparr>TTL := ttl\<rparr>)\<rparr>"

theorem GetDynamicRules_fresh_witness:
  "GetDynamicRules calm Background (cached_agent 300) start
    = (Some ((DefaultDynamicRules 0)\<lparr>TTL := 300\<rparr>), cached_agent 300, observe calm start)"
  by (rule GetDynamicRules_fresh)
     (simp_all add: cached_agent_def sample_agent_def new_agent_def DefaultDynamicRules_def calm_def start_def)

theorem GetDynamicRules_outage_witness:
  "\<exists>rules a' w'. GetDynamicRules calm Background (cached_agent 0) start = (Some rules, a', w')
    \<and> events a' = events (cached_agent 0)"
proof -
  obtain res a' w' where g: "GetDynamicRules calm Background (cached_agent 0) start = (res, a', w')"
    by (metis prod.collapse)
  have "cachedRules (cached_agent 0) \<noteq> None" by (simp add: cached_agent_def)
  with GetDynamicRules_outage [OF g] have "res \<noteq> None \<and> events a' = events (cached_agent 0)"
    by (auto simp: same_buffers_def)
  with g show ?thesis by auto
qed

lemma calm_fetch: "\<exists>err t1 w2. fetchRulesSafely calm Background sample_transport w = (Inl err, t1, w2) \<and> requestsSent t1 = 1"
  by (simp add: fetchRulesSafely_def fetchDynamicRules_def fetchLoop.simps rulesAttempt_def limiterGate_def
      now_def Let_def Acquire_def pruneLocked_def newRateLimiter_def Admit_def newCircuitBreaker_def calm_def
      client_Do_def after_rules_request_def rules_response_def UnmarshalJSON_def sample_simps bump_sent_def bump_failed_def)

text \<open>The rules have just been stored, with a TTL of more than three centuries, and are fetched again.\<close>

theorem GetDynamicRules_ttl_overflow_witness:
  "requestsSent (tr (cached_agent 10000000000)) = 0
    \<and> requestsSent (tr (fst (snd (GetDynamicRules calm Background (cached_agent 10000000000) start)))) = 1"
proof -
  have a: "tr (cached_agent 10000000000) = sample_transport"
    "rulesLastUpdate (cached_agent 10000000000) \<le> clock start" "requestsSent sample_transport = 0"
    by (simp_all add: cached_agent_def sample_agent_def new_agent_def start_def sample_simps)
  obtain err t1 w2 where f: "fetchRulesSafely calm Background (tr (cached_agent 10000000000)) (observe calm start) = (Inl err, t1, w2)"
    "requestsSent t1 = 1" using calm_fetch a(1) by metis
  have c: "cachedRules (cached_agent 10000000000) = Some ((DefaultDynamicRules 0)\<lparr>TTL := 10000000000\<rparr>)"
    by (simp add: cached_agent_def)
  have "fst (snd (GetDynamicRules calm Background (cached_agent 10000000000) start)) = (cached_agent 10000000000)\<lparr>tr := t1\<rparr>"
    using GetDynamicRules_ttl_overflow [OF _ _ a(2) c, of calm Background] f(1) by simp
  with f(2) a show ?thesis by simp
qed

end
