(* ===== verification/Life.thy ===== *)
theory Life
  imports Rules
begin

text \<open>
  A whole life of an agent: what its goroutines run one after the other, from \<open>New\<close> to \<open>Stop\<close>. Every
  operation is an execution of the step relation of theory Delivery that leaves nothing of its own
  under way, so that the invariants of that relation give the balance of a completed life.
\<close>

section \<open>Operations as executions\<close>

definition same_flight :: "'a flight \<Rightarrow> 'a flight \<Rightarrow> bool" where
  "same_flight f f' \<longleftrightarrow> flying f' = flying f \<and> failing f' = failing f \<and> counting f' = counting f
     \<and> unconfirmed f' = unconfirmed f"

lemma same_flight_refl [simp]: "same_flight f f"
  by (simp add: same_flight_def)

lemma same_flight_trans: "same_flight f g \<Longrightarrow> same_flight g h \<Longrightarrow> same_flight f h"
  by (simp add: same_flight_def)

text \<open>From one state to another by steps, whatever is under way.\<close>

definition executes :: "env \<Rightarrow> agent \<Rightarrow> world \<Rightarrow> agent \<Rightarrow> world \<Rightarrow> bool" where
  "executes E a w a' w' \<longleftrightarrow> (\<forall>fe fm. \<exists>fe' fm'. (sys_step E)\<^sup>*\<^sup>* (a, w, fe, fm) (a', w', fe', fm')
     \<and> same_flight fe fe' \<and> same_flight fm fm')"

lemma executes_refl [simp]: "executes E a w a w"
  unfolding executes_def by (intro allI) (metis rtranclp.rtrancl_refl same_flight_refl)

lemma executes_trans [trans]:
  assumes "executes E a w b v" "executes E b v c u"
  shows "executes E a w c u"
  unfolding executes_def
proof (intro allI)
  fix fe fm
  from assms(1) obtain fe1 fm1 where 1: "(sys_step E)\<^sup>*\<^sup>* (a, w, fe, fm) (b, v, fe1, fm1)"
    "same_flight fe fe1" "same_flight fm fm1" unfolding executes_def by blast
  from assms(2) obtain fe2 fm2 where 2: "(sys_step E)\<^sup>*\<^sup>* (b, v, fe1, fm1) (c, u, fe2, fm2)"
    "same_flight fe1 fe2" "same_flight fm1 fm2" unfolding executes_def by blast
  show "\<exists>fe' fm'. (sys_step E)\<^sup>*\<^sup>* (a, w, fe, fm) (c, u, fe', fm') \<and> same_flight fe fe' \<and> same_flight fm fm'"
    using rtranclp_trans [OF 1(1) 2(1)] same_flight_trans [OF 1(2) 2(2)] same_flight_trans [OF 1(3) 2(3)] by blast
qed

lemma executes_step: "(\<And>fe fm. sys_step E (a, w, fe, fm) (a', w', fe, fm)) \<Longrightarrow> executes E a w a' w'"
  unfolding executes_def by (metis r_into_rtranclp same_flight_refl)

lemma executes_other: "same_buffers a w a' w' \<Longrightarrow> executes E a w a' w'"
  by (rule executes_step) (rule sys_step.other)

lemma executes_worker: "confirmCh a = ks # rest \<Longrightarrow> executes E a w (a\<lparr>confirmCh := rest\<rparr>) (del E ks w)"
  by (rule executes_step) (rule sys_step.worker)

lemma executes_events:
  assumes "\<And>fe fm. \<exists>fe'. (event_view E fm)\<^sup>*\<^sup>* (a, w, fe) (a', w', fe') \<and> same_flight fe fe'"
  shows "executes E a w a' w'"
  unfolding executes_def
proof (intro allI)
  fix fe fm
  from assms [of fm fe] obtain fe' where "(event_view E fm)\<^sup>*\<^sup>* (a, w, fe) (a', w', fe')" "same_flight fe fe'" by blast
  with event_view_star [OF this(1)] show "\<exists>fe' fm'. (sys_step E)\<^sup>*\<^sup>* (a, w, fe, fm) (a', w', fe', fm')
      \<and> same_flight fe fe' \<and> same_flight fm fm'" by (intro exI [of _ fe'] exI [of _ fm]) simp
qed

lemma executes_metrics:
  assumes "\<And>fe fm. \<exists>fm'. (metric_view E fe)\<^sup>*\<^sup>* (a, w, fm) (a', w', fm') \<and> same_flight fm fm'"
  shows "executes E a w a' w'"
  unfolding executes_def
proof (intro allI)
  fix fe fm
  from assms [of fe fm] obtain fm' where "(metric_view E fe)\<^sup>*\<^sup>* (a, w, fm) (a', w', fm')" "same_flight fm fm'" by blast
  with metric_view_star [OF this(1)] show "\<exists>fe' fm'. (sys_step E)\<^sup>*\<^sup>* (a, w, fe, fm) (a', w', fe', fm')
      \<and> same_flight fe fe' \<and> same_flight fm fm'" by (intro exI [of _ fe] exI [of _ fm']) simp
qed

text \<open>What a kind's own steps give, for any relation that contains them.\<close>

context flush_steps begin

lemma enqueue_steps:
  assumes "enqueue E K x a w = (r, a', w')"
  shows "\<exists>f'. R\<^sup>*\<^sup>* (a, w, f) (a', w', f') \<and> same_flight f f'"
proof -
  obtain q nf ks a1 w1 where l: "enqueue_locked E K x a w = ((q, nf, ks), a1, w1)" by (metis prod.collapse)
  obtain a2 w2 where c: "confirmKeys E ks a1 w1 = (a2, w2)" by fastforce
  let ?f1 = "after_enqueue K q ks a a1 f"
  have a': "a' = (if nf then triggerFlush a2 else a2)" "w' = w2"
    using assms by (auto simp: enqueue_def l c)
  have "kstep E K (a1, w1, ?f1) (a2, w2, ?f1\<lparr>unconfirmed := unconfirmed ?f1 - {#ks#}\<rparr>)"
    using c by (intro kstep.confirm) (simp_all add: after_enqueue_def)
  from R_kind_star [OF this R_kind_star [OF kstep.enqueue [OF l] rtranclp.rtrancl_refl]]
  have "R\<^sup>*\<^sup>* (a, w, f) (a2, w2, ?f1\<lparr>unconfirmed := unconfirmed ?f1 - {#ks#}\<rparr>)" .
  moreover have "same_buffers a2 w2 a' w'" by (simp add: a' same_buffers_def triggerFlush_def)
  ultimately have "R\<^sup>*\<^sup>* (a, w, f) (a', w', ?f1\<lparr>unconfirmed := unconfirmed ?f1 - {#ks#}\<rparr>)"
    by (blast intro: R_other_star)
  moreover have "same_flight f (?f1\<lparr>unconfirmed := unconfirmed ?f1 - {#ks#}\<rparr>)"
    by (simp add: same_flight_def after_enqueue_def)
  ultimately show ?thesis by blast
qed

lemma reload_item_persist: "reload_item E K p it a w = (a', w') \<Longrightarrow> persist a' = persist a"
  by (auto simp: reload_item_def Let_def split: sum.splits if_splits)

lemma reload_steps:
  assumes "reload_items E K p its a w = (a', w')" "persist a = Some p" "\<forall>it \<in> set its. colon_free (Short it)"
  shows "\<exists>f'. R\<^sup>*\<^sup>* (a, w, f) (a', w', f') \<and> same_flight f f'"
  using assms
proof (induction its arbitrary: a w f)
  case (Cons it its)
  obtain a1 w1 where i: "reload_item E K p it a w = (a1, w1)" by fastforce
  with Cons.prems have rest: "reload_items E K p its a1 w1 = (a', w')" by simp
  let ?f1 = "after_reload E K p it a a1 f"
  from Cons.IH [OF rest, of ?f1] reload_item_persist [OF i] Cons.prems(2,3) obtain f' where
    f': "R\<^sup>*\<^sup>* (a1, w1, ?f1) (a', w', f')" "same_flight ?f1 f'" by auto
  have "R (a, w, f) (a1, w1, ?f1)" using kstep.reload [OF Cons.prems(2) _ i] Cons.prems(3) R_kind by simp
  then have "R\<^sup>*\<^sup>* (a, w, f) (a', w', f')" using f'(1) by (rule converse_rtranclp_into_rtranclp)
  moreover have "same_flight f ?f1" by (simp add: same_flight_def after_reload_def split: sum.split)
  ultimately show ?case using same_flight_trans f'(2) by blast
qed auto

lemma reloadKind_steps:
  assumes "reloadKindLocked E K p a w = Some (a', w')" "persist a = Some p"
  shows "\<exists>f'. R\<^sup>*\<^sup>* (a, w, f) (a', w', f') \<and> same_flight f f'"
proof -
  obtain q w1 where l: "loadKind E p (kd_namespace K) w = Some (q, w1)"
    using assms(1) by (auto simp: reloadKindLocked_def split: option.splits)
  have w1: "redis_trace w1 = redis_trace w" "later w w1" using loadKind_redis [OF l] loadKind_later [OF l] by auto
  show ?thesis
  proof (cases q)
    case (Inl err)
    with assms l w1 have "same_buffers a w a' w'"
      by (auto simp: reloadKindLocked_def same_buffers_def)
    then show ?thesis using R_other_star [OF _ rtranclp.rtrancl_refl] same_flight_refl by blast
  next
    case (Inr its)
    with assms l have r: "reload_items E K p its a w1 = (a', w')" by (simp add: reloadKindLocked_def)
    have "R (a, w, f) (a, w1, f)" using w1 by (intro R_other world_same)
    with reload_steps [OF r assms(2) loadKind_short [OF l [unfolded Inr]], of f] show ?thesis by (blast intro: converse_rtranclp_into_rtranclp)
  qed
qed

end

lemma executes_flushEvents: "flushEvents E c force a w = (r, a', w') \<Longrightarrow> executes E a w a' w'"
  unfolding flushEvents_def by (rule executes_events) (drule fe.flush_steps, simp add: same_flight_def)

lemma executes_flushMetrics: "flushMetrics E c force a w = (r, a', w') \<Longrightarrow> executes E a w a' w'"
  unfolding flushMetrics_def by (rule executes_metrics) (drule fm.flush_steps, simp add: same_flight_def)

lemma executes_enqueueEvent: "enqueueEvent E x a w = (r, a', w') \<Longrightarrow> executes E a w a' w'"
  unfolding enqueueEvent_def by (rule executes_events) (rule fe.enqueue_steps)

lemma executes_enqueueMetric: "enqueueMetric E x a w = (r, a', w') \<Longrightarrow> executes E a w a' w'"
  unfolding enqueueMetric_def by (rule executes_metrics) (rule fm.enqueue_steps)

text \<open>What the operations leave of the flags that \<open>Stop\<close> sets.\<close>

definition same_flags :: "agent \<Rightarrow> agent \<Rightarrow> bool" where
  "same_flags a a' \<longleftrightarrow> closed a' = closed a \<and> confirmClosed a' = confirmClosed a"

lemma same_flags_refl [simp]: "same_flags a a"
  by (simp add: same_flags_def)

lemma same_flags_trans [trans]: "same_flags a b \<Longrightarrow> same_flags b c \<Longrightarrow> same_flags a c"
  by (simp add: same_flags_def)

context kind_access begin

lemma reserve_flags: "reserveKeyLocked E K x a w = (k, a', w') \<Longrightarrow> same_flags a a'"
  by (auto simp: reserveKeyLocked_def persistItemLocked_def recordErrorLocked_def same_flags_def Let_def
      split: option.splits sum.splits prod.splits if_splits)

lemma append_flags: "appendLocked E K x a w = (b, a', w') \<Longrightarrow> same_flags a a'"
  by (auto simp: appendLocked_def Let_def same_flags_def split: prod.splits dest: reserve_flags [unfolded same_flags_def])

lemma enqueue_flags:
  assumes "enqueue E K x a w = (r, a', w')"
  shows "same_flags a a'"
proof -
  obtain q nf ks a1 w1 where l: "enqueue_locked E K x a w = ((q, nf, ks), a1, w1)" by (metis prod.collapse)
  have "same_flags a a1" using l
    by (auto simp: enqueue_locked_def same_flags_def split: if_splits list.splits prod.splits
        dest: append_flags [unfolded same_flags_def])
  also have "same_flags a1 a'" using assms l
    by (auto simp: enqueue_def confirmKeys_def triggerFlush_def same_flags_def split: prod.splits if_splits)
  finally show ?thesis .
qed

lemma flush_flags: "flush_kind E K c force a w = (r, a', w') \<Longrightarrow> same_flags a a'"
  using flush_grows by (simp add: queue_grows_def same_flags_def)

lemma reload_flags: "reload_items E K p its a w = (a', w') \<Longrightarrow> same_flags a a'"
proof (induction its arbitrary: a w)
  case (Cons it its)
  obtain a1 w1 where i: "reload_item E K p it a w = (a1, w1)" by fastforce
  then have "same_flags a a1"
    by (auto simp: reload_item_def same_flags_def Let_def split: sum.splits if_splits)
  also have "same_flags a1 a'" using Cons i by simp
  finally show ?case .
qed simp

lemma reloadKind_flags: "reloadKindLocked E K p a w = Some (a', w') \<Longrightarrow> same_flags a a' \<and> persist a' = persist a"
proof -
  have "reload_items E K p its a w = (a', w') \<Longrightarrow> persist a' = persist a" for its a w a' w'
    by (induction its arbitrary: a w)
       (auto simp: reload_item_def Let_def split: prod.splits sum.splits if_splits)
  then show "reloadKindLocked E K p a w = Some (a', w') \<Longrightarrow> same_flags a a' \<and> persist a' = persist a"
    by (auto simp: reloadKindLocked_def same_flags_def split: option.splits sum.splits
        dest: reload_flags [unfolded same_flags_def])
qed

end

section \<open>What the goroutines run\<close>

text \<open>
  The calls of a host and the iterations of the background loops. A caller that waits under OverflowBlock
  goes through the loop of \<open>enqueueEvent\<close> again (\<open>CPoll\<close>); \<open>CWake\<close> is an iteration of \<open>wakeFlushLoop\<close>, \<open>CConfirm\<close>
  one job of the confirm worker.
\<close>

datatype call =
    CStart
  | CSendEvent SecurityEvent
  | CSendMetric "gostring \<Rightarrow> gostring" SecurityMetric
  | CPollEvent SecurityEvent
  | CPollMetric SecurityMetric
  | CFlush ctx
  | CFlushTick int
  | CWake
  | CReport
  | CRules ctx
  | CConfirm

definition wake :: "env \<Rightarrow> agent \<Rightarrow> world \<Rightarrow> agent \<times> world" where
  "wake E a w = (if flushWake a then flushIfNeeded E (a\<lparr>flushWake := False\<rparr>) w else (a, w))"

definition confirm_job :: "env \<Rightarrow> agent \<Rightarrow> world \<Rightarrow> agent \<times> world" where
  "confirm_job E a w = (case confirmCh a of [] \<Rightarrow> (a, w) | ks # rest \<Rightarrow> (a\<lparr>confirmCh := rest\<rparr>, del E ks w))"

text \<open>None when the call does not return (the SCAN of a start).\<close>

fun perform :: "env \<Rightarrow> call \<Rightarrow> agent \<Rightarrow> world \<Rightarrow> (agent \<times> world) option" where
  "perform E CStart a w = map_option snd (Start E a w)"
| "perform E (CSendEvent ev) a w = Some (snd (SendEvent E ev a w))"
| "perform E (CSendMetric q m) a w = Some (snd (SendMetric E q m a w))"
| "perform E (CPollEvent ev) a w = Some (snd (enqueueEvent E ev a w))"
| "perform E (CPollMetric m) a w = Some (snd (enqueueMetric E m a w))"
| "perform E (CFlush c) a w = Some (snd (Flush E c a w))"
| "perform E (CFlushTick n) a w = Some (snd (flushTick E n a w))"
| "perform E CWake a w = Some (wake E a w)"
| "perform E CReport a w = Some (reportStatus E (loopCtx a) a w)"
| "perform E (CRules c) a w = Some (snd (GetDynamicRules E c a w))"
| "perform E CConfirm a w = Some (confirm_job E a w)"

fun live :: "env \<Rightarrow> call list \<Rightarrow> agent \<Rightarrow> world \<Rightarrow> (agent \<times> world) option" where
  "live E [] a w = Some (a, w)"
| "live E (x # xs) a w = (case perform E x a w of None \<Rightarrow> None | Some (a1, w1) \<Rightarrow> live E xs a1 w1)"

text \<open>An operation that is an execution and leaves the flags alone.\<close>

definition runs :: "env \<Rightarrow> agent \<Rightarrow> world \<Rightarrow> agent \<Rightarrow> world \<Rightarrow> bool" where
  "runs E a w a' w' \<longleftrightarrow> executes E a w a' w' \<and> same_flags a a'"

lemma runs_refl [simp]: "runs E a w a w"
  by (simp add: runs_def)

lemma runs_trans [trans]: "runs E a w b v \<Longrightarrow> runs E b v c u \<Longrightarrow> runs E a w c u"
  unfolding runs_def using executes_trans same_flags_trans by blast

lemma runs_other: "same_buffers a w a' w' \<Longrightarrow> same_flags a a' \<Longrightarrow> runs E a w a' w'"
  by (simp add: runs_def executes_other)

lemma runs_world: "redis_trace w' = redis_trace w \<and> later w w' \<Longrightarrow> runs E a w a w'"
  by (rule runs_other) (simp_all add: same_buffers_def)

lemma runs_flush:
  "flushEvents E c force a w = (r, a', w') \<Longrightarrow> runs E a w a' w'"
  "flushMetrics E c force a w = (r, a', w') \<Longrightarrow> runs E a w a' w'"
  by (auto simp: runs_def executes_flushEvents executes_flushMetrics flushEvents_def flushMetrics_def
      dest: ek.flush_flags mk.flush_flags)

lemma runs_enqueue:
  "enqueueEvent E x a w = (r, a', w') \<Longrightarrow> runs E a w a' w'"
  "enqueueMetric E y a w = (r, a', w') \<Longrightarrow> runs E a w a' w'"
  by (auto simp: runs_def executes_enqueueEvent executes_enqueueMetric enqueueEvent_def enqueueMetric_def
      dest: ek.enqueue_flags mk.enqueue_flags)

lemma now_redis [simp]: "redis_trace (snd (now E w)) = redis_trace w"
  by (simp add: now_def Let_def)

lemma gen_UUID4_redis: "gen_UUID4 E w = (u, w') \<Longrightarrow> redis_trace w' = redis_trace w \<and> later w w'"
  using gen_traces(4) [of E w] later_steps(5) [of w E] by simp

lemma complete_event_redis: "complete_event E c ev w = (ev1, w1) \<Longrightarrow> redis_trace w1 = redis_trace w \<and> later w w1"
  by (auto simp: complete_event_def now_def Let_def split: if_splits prod.splits
      intro: later_trans dest!: gen_UUID4_redis)

lemma runs_SendEvent:
  assumes "SendEvent E ev a w = (r, a', w')"
  shows "runs E a w a' w'"
proof (cases "guardClosed a = None \<and> EnableEvents (cfg a) \<and> ev_EventType ev \<noteq> []")
  case True
  obtain ev1 w1 where c: "complete_event E (cfg a) ev w = (ev1, w1)" by fastforce
  from runs_world [OF complete_event_redis [OF c]] have "runs E a w a w1" .
  also obtain q a2 w2 where e: "enqueueEvent E ev1 a w1 = (q, a2, w2)" by (metis prod.collapse)
  then have "runs E a w1 a2 w2" by (rule runs_enqueue)
  finally show ?thesis using assms True c e by (simp add: SendEvent_def)
next
  case False
  with assms show ?thesis by (auto simp: SendEvent_def split: option.splits if_splits)
qed

lemma runs_SendMetric:
  assumes "SendMetric E q m a w = (r, a', w')"
  shows "runs E a w a' w'"
proof (cases "guardClosed a = None \<and> EnableMetrics (cfg a) \<and> validMetricType (m_MetricType m)")
  case True
  obtain m1 w1 where c: "(if isZero (m_Timestamp m) then (case now E w of (tm, w1) \<Rightarrow> (m\<lparr>m_Timestamp := tm\<rparr>, w1))
      else (m, w)) = (m1, w1)" by fastforce
  then have "redis_trace w1 = redis_trace w \<and> later w w1" by (auto simp: now_def later_def Let_def split: if_splits)
  from runs_world [OF this] have "runs E a w a w1" .
  also obtain s a2 w2 where e: "enqueueMetric E (redactMetricTags E m1 (sensitive (cfg a))) a w1 = (s, a2, w2)"
    by (metis prod.collapse)
  then have "runs E a w1 a2 w2" by (rule runs_enqueue)
  finally show ?thesis using assms True c e by (simp add: SendMetric_def)
next
  case False
  with assms show ?thesis by (auto simp: SendMetric_def split: option.splits if_splits)
qed

lemma runs_Flush:
  assumes "Flush E c a w = (r, a', w')"
  shows "runs E a w a' w'"
proof (cases "guardClosed a")
  case None
  obtain e1 a1 w1 where f1: "flushEvents E c False a w = (e1, a1, w1)" by (metis prod.collapse)
  obtain e2 a2 w2 where f2: "flushMetrics E c False a1 w1 = (e2, a2, w2)" by (metis prod.collapse)
  note runs_flush(1) [OF f1]
  also note runs_flush(2) [OF f2]
  finally show ?thesis using assms None f1 f2 by (simp add: Flush_def)
qed (use assms in \<open>auto simp: Flush_def\<close>)

lemma runs_flushTick: "flushTick E n a w = (k, a', w') \<Longrightarrow> runs E a w a' w'"
  by (auto simp: flushTick_def split: prod.splits option.splits intro: runs_Flush)

lemma runs_flushIfNeeded:
  assumes "flushIfNeeded E a w = (a', w')"
  shows "runs E a w a' w'"
proof (cases "combined a = 0")
  case False
  obtain b w1 where c: "(if isZero (lastFlush a) then (True, w) else case now E w of (tm, w1) \<Rightarrow>
      (time_sub tm (lastFlush a) \<ge> FlushInterval (cfg a), w1)) = (b, w1)" by fastforce
  then have "redis_trace w1 = redis_trace w \<and> later w w1" by (auto simp: now_def later_def Let_def split: if_splits)
  from runs_world [OF this] have "runs E a w a w1" .
  also have "runs E a w1 a' w'"
    using assms False c by (auto simp: flushIfNeeded_def Let_def split: if_splits prod.splits intro: runs_Flush)
  finally show ?thesis .
qed (use assms in \<open>simp add: flushIfNeeded_def\<close>)

lemma runs_wake: "wake E a w = (a', w') \<Longrightarrow> runs E a w a' w'"
proof -
  assume k: "wake E a w = (a', w')"
  have "runs E a w (a\<lparr>flushWake := False\<rparr>) w" by (rule runs_other) (simp_all add: same_buffers_def same_flags_def)
  also have "runs E (a\<lparr>flushWake := False\<rparr>) w b v" if "flushIfNeeded E (a\<lparr>flushWake := False\<rparr>) w = (b, v)" for b v
    using that by (rule runs_flushIfNeeded)
  finally show ?thesis using k by (auto simp: wake_def split: if_splits)
qed

lemma runs_reportStatus: "reportStatus E c a w = (a', w') \<Longrightarrow> runs E a w a' w'"
proof (rule runs_other)
  assume r: "reportStatus E c a w = (a', w')"
  from reportStatus_result [OF r] show "same_buffers a w a' w'" by blast
  from r show "same_flags a a'"
    by (auto simp: reportStatus_def record_report_def recordErrorLocked_def same_flags_def Let_def
        split: prod.splits if_splits)
qed

lemma runs_GetDynamicRules: "GetDynamicRules E c a w = (r, a', w') \<Longrightarrow> runs E a w a' w'"
proof (rule runs_other)
  assume r: "GetDynamicRules E c a w = (r, a', w')"
  from GetDynamicRules_result [OF r] show "same_buffers a w a' w'" by blast
  from r show "same_flags a a'"
    by (auto simp: GetDynamicRules_def same_flags_def split: prod.splits if_splits sum.splits)
qed

lemma runs_confirm_job: "confirm_job E a w = (a', w') \<Longrightarrow> runs E a w a' w'"
  by (auto simp: confirm_job_def runs_def same_flags_def executes_worker split: list.splits)

lemma runs_reload:
  assumes "reloadFromRedisLocked E p a w = Some (a', w')" "persist a = Some p"
  shows "runs E a w a' w'"
proof -
  obtain a1 w1 where e: "reloadKindLocked E event_kind p a w = Some (a1, w1)"
    and m: "reloadKindLocked E metric_kind p a1 w1 = Some (a', w')"
    using assms(1) by (auto simp: reloadFromRedisLocked_def split: option.splits)
  note ef = ek.reloadKind_flags [OF e] and mf = mk.reloadKind_flags [OF m]
  have "executes E a w a1 w1"
    by (rule executes_events) (rule fe.reloadKind_steps [OF e assms(2)])
  then have "runs E a w a1 w1" using ef by (simp add: runs_def)
  also have "executes E a1 w1 a' w'"
    by (rule executes_metrics) (rule fm.reloadKind_steps [OF m], use ef assms(2) in simp)
  then have "runs E a1 w1 a' w'" using mf by (simp add: runs_def)
  finally show ?thesis .
qed

lemma runs_Start:
  assumes "Start E a w = Some (r, a', w')"
  shows "runs E a w a' w'"
proof (cases "closed a \<or> started a")
  case False
  obtain tm w1 where n: "now E w = (tm, w1)" by fastforce
  let ?a = "a\<lparr>loop_context := Some Background, started := True, startedAt := tm\<rparr>"
  have "redis_trace w1 = redis_trace w \<and> later w w1" using n now_redis [of E w] now_later [OF n] by simp
  then have "runs E a w ?a w1" by (intro runs_other) (simp_all add: same_buffers_def same_flags_def)
  also have "runs E ?a w1 a' w'"
  proof (cases "persist a")
    case (Some p)
    then have "reloadFromRedisLocked E p ?a w1 = Some (a', w')" "persist ?a = Some p"
      using assms False n by (auto simp: Start_def Let_def split: option.splits)
    then show ?thesis by (rule runs_reload)
  qed (use assms False n in \<open>simp add: Start_def\<close>)
  finally show ?thesis .
qed (use assms in \<open>auto simp: Start_def split: if_splits\<close>)

lemma perform_runs:
  assumes "perform E x a w = Some (a', w')"
  shows "runs E a w a' w'"
proof (cases x)
  case CStart
  with assms obtain r where "Start E a w = Some (r, a', w')" by auto
  then show ?thesis by (rule runs_Start)
next
  case (CSendEvent ev)
  with assms show ?thesis by (cases "SendEvent E ev a w") (auto dest: runs_SendEvent)
next
  case (CSendMetric q m)
  with assms show ?thesis by (cases "SendMetric E q m a w") (auto dest: runs_SendMetric)
next
  case (CPollEvent ev)
  with assms show ?thesis by (cases "enqueueEvent E ev a w") (auto dest: runs_enqueue)
next
  case (CPollMetric m)
  with assms show ?thesis by (cases "enqueueMetric E m a w") (auto dest: runs_enqueue)
next
  case (CFlush c)
  with assms show ?thesis by (cases "Flush E c a w") (auto dest: runs_Flush)
next
  case (CFlushTick n)
  with assms show ?thesis by (cases "flushTick E n a w") (auto dest: runs_flushTick)
next
  case CWake
  with assms show ?thesis by (auto dest: runs_wake)
next
  case CReport
  with assms show ?thesis by (auto dest: runs_reportStatus)
next
  case (CRules c)
  with assms show ?thesis by (cases "GetDynamicRules E c a w") (auto dest: runs_GetDynamicRules)
next
  case CConfirm
  with assms show ?thesis by (auto dest: runs_confirm_job)
qed

lemma live_runs: "live E xs a w = Some (a', w') \<Longrightarrow> runs E a w a' w'"
proof (induction xs arbitrary: a w)
  case (Cons x xs)
  then obtain a1 w1 where p: "perform E x a w = Some (a1, w1)" and l: "live E xs a1 w1 = Some (a', w')"
    by (auto split: option.splits)
  note perform_runs [OF p]
  also note Cons.IH [OF l]
  finally show ?case .
qed simp

section \<open>Stopping\<close>

lemma executes_confirm_all:
  fixes a :: agent
  shows "executes E (a\<lparr>confirmCh := qs\<rparr>) w (a\<lparr>confirmCh := []\<rparr>) (confirm_all E qs w)"
proof (induction qs arbitrary: w)
  case (Cons ks qs)
  have "executes E (a\<lparr>confirmCh := ks # qs\<rparr>) w (a\<lparr>confirmCh := qs\<rparr>) (del E ks w)"
    using executes_worker [of "a\<lparr>confirmCh := ks # qs\<rparr>" ks qs E w] by simp
  also note Cons.IH [of "del E ks w"]
  finally show ?case by simp
qed simp

lemma executes_Stop:
  assumes "Stop E c a w = (r, a', w')"
  shows "executes E a w a' w'"
proof (cases "closed a")
  case False
  let ?a1 = "a\<lparr>closed := True, loop_context := cancelled (loop_context a) w\<rparr>"
  obtain e1 a2 w2 where f1: "flushEvents E c True ?a1 w = (e1, a2, w2)" by (metis prod.collapse)
  obtain e2 a3 w3 where f2: "flushMetrics E c True a2 w2 = (e2, a3, w3)" by (metis prod.collapse)
  have "executes E a w ?a1 w" by (rule executes_other) (simp add: same_buffers_def)
  also note executes_flushEvents [OF f1]
  also note executes_flushMetrics [OF f2]
  finally have main: "executes E a w a3 w3" .
  show ?thesis
  proof (cases "persist a3 = None")
    case True
    with assms False f1 f2 main show ?thesis by (simp add: Stop_def Let_def)
  next
    case persisted: False
    note main
    also have "executes E a3 w3 (a3\<lparr>confirmCh := []\<rparr>) (confirm_all E (confirmCh a3) w3)"
      using executes_confirm_all [where a = a3 and qs = "confirmCh a3"] by simp
    also have "executes E (a3\<lparr>confirmCh := []\<rparr>) (confirm_all E (confirmCh a3) w3) a' w'"
      using assms False persisted f1 f2
      by (intro executes_other) (auto simp: Stop_def Let_def same_buffers_def)
    finally show ?thesis .
  qed
qed (use assms in \<open>simp add: Stop_def\<close>)

section \<open>Without persistence nothing is reloaded\<close>

context kind_access begin

lemma kstep_no_reload:
  assumes "kstep E K (a, w, f) (a', w', f')" "persist a = None"
  shows "persist a' = None \<and> displaced f' = displaced f"
  using assms(1)
proof (cases rule: kstep.cases)
  case (enqueue x r nf ks)
  from enqueue(2) have "persist a' = None" using assms(2) by (cases rule: enqueue_locked_cases) auto
  with enqueue show ?thesis by (simp add: after_enqueue_def)
next
  case (drain force d)
  with drain_get(6) [OF drain(2)] assms(2) show ?thesis by simp
next
  case (count o' n)
  with assms(2) show ?thesis by (simp add: settle_frame)
next
  case (fail d)
  with settle_failed_frame [OF fail(3)] assms(2) show ?thesis by simp
next
  case (requeue d ks)
  with requeue_locked_get(5) [OF requeue(4)] assms(2) show ?thesis by simp
next
  case (confirm ks)
  with assms(2) show ?thesis by (auto simp: confirmKeys_def)
qed (use assms(2) in simp_all)

end

lemma sys_step_no_reload:
  "sys_step E s s' \<Longrightarrow> case (s, s') of ((a, w, fe, fm), (a', w', fe', fm')) \<Rightarrow>
     persist a = None \<longrightarrow> persist a' = None \<and> displaced fe' = displaced fe \<and> displaced fm' = displaced fm"
  by (induction rule: sys_step.induct)
     (auto simp: same_buffers_def dest: ek.kstep_no_reload mk.kstep_no_reload)

lemma reach_no_reload:
  assumes "(sys_step E)\<^sup>*\<^sup>* s s'"
  shows "case (s, s') of ((a, w, fe, fm), (a', w', fe', fm')) \<Rightarrow>
     persist a = None \<longrightarrow> persist a' = None \<and> displaced fe' = displaced fe \<and> displaced fm' = displaced fm"
  using assms
proof (induction rule: rtranclp_induct)
  case (step s1 s2)
  with sys_step_no_reload [OF step(2)] show ?case by (auto split: prod.splits)
qed (auto split: prod.splits)

section \<open>The balance of a life\<close>

lemma settled_balance:
  assumes "kinv K a f" "same_flight (no_flight xs) f"
  shows "buffered (kd_get K a) = of_nat (length (items (kd_get K a))) + sent_count (kd_get K a)
    + dropped (kd_get K a) + of_nat (size (displaced f))"
proof -
  have "size (entered f) = length (items (kd_get K a)) + size (finished f) + size (lost f) + size (displaced f)"
    "sent_count (kd_get K a) = of_nat (size (finished f))" "dropped (kd_get K a) = of_nat (size (lost f))"
    "buffered (kd_get K a) = of_nat (size (entered f))"
    using assms by (simp_all add: kinv_def same_flight_def no_flight_def)
  then show ?thesis by simp
qed


section \<open>A closed example\<close>

text \<open>An agent as \<open>New\<close> builds it for the calm outside, its buffers filled at will.\<close>

definition calm_agent :: "SecurityEvent buffered list \<Rightarrow> bool \<Rightarrow> agent" where
  "calm_agent xs b = (new_agent (fill_defaults calm (sample_config [])) ''install'' None
       (newTransport (fill_defaults calm (sample_config [])) ''install''))\<lparr>
         events := empty_kstate\<lparr>items := xs, buffered := of_nat (length xs)\<rparr>, flushWake := b\<rparr>"

lemma calm_config [simp]:
  "EnableEvents (fill_defaults calm (sample_config []))" "BufferSize (fill_defaults calm (sample_config [])) = 100"
  "OnError (fill_defaults calm (sample_config [])) = False" "ProjectID (fill_defaults calm (sample_config [])) = []"
  "RetryAttempts (fill_defaults calm (sample_config [])) = 3"
  "CompressionThreshold (fill_defaults calm (sample_config [])) = 1024"
  "SigningSecret (fill_defaults calm (sample_config [])) = []"
  by (simp_all add: fill_defaults_def sample_config_def DefaultConfig_def)

lemma calm_simps [simp]:
  "EnableEvents (cfg (calm_agent xs b))" "BufferSize (cfg (calm_agent xs b)) = 100" "closed (calm_agent xs b) = False"
  "persist (calm_agent xs b) = None" "events (calm_agent xs b) = empty_kstate\<lparr>items := xs, buffered := of_nat (length xs)\<rparr>"
  "metrics (calm_agent xs b) = empty_kstate" "OnError (cfg (calm_agent xs b)) = False"
  "loop_context (calm_agent xs b) = None"
  by (simp_all add: calm_agent_def new_agent_def)

lemma calm_New: "\<exists>w. New calm (sample_config []) start = (Inr (calm_agent [] False), w)"
  by (simp add: New_def sample_normalize sample_filled resolveInstallID_def CreateEncryptor_def calm_agent_def
      new_agent_def Let_def empty_kstate_def newTransport_def)

lemma calm_SendEvent: "\<exists>b ev w'. SendEvent calm sample_event (calm_agent [] False) w
    = (Returned None, calm_agent [\<lparr>payload = ev, key = []\<rparr>] b, w')"
proof -
  obtain ev w1 where c: "complete_event calm (cfg (calm_agent [] False)) sample_event w = (ev, w1)" by fastforce
  have "\<exists>b. enqueueEvent calm ev (calm_agent [] False) w1 = (Enqueued, calm_agent [\<lparr>payload = ev, key = []\<rparr>] b, w1)"
    by (auto simp: enqueueEvent_def enqueue_def enqueue_locked_def appendLocked_def reserveKeyLocked_def confirmKeys_def
        triggerFlush_def event_kind_def empty_kstate_def calm_agent_def new_agent_def Let_def)
  then obtain b where e: "enqueueEvent calm ev (calm_agent [] False) w1 = (Enqueued, calm_agent [\<lparr>payload = ev, key = []\<rparr>] b, w1)"
    by blast
  have "SendEvent calm sample_event (calm_agent [] False) w
      = (Returned None, calm_agent [\<lparr>payload = ev, key = []\<rparr>] b, w1)"
    by (simp add: SendEvent_def guardClosed_def c e api_result_def) (simp add: sample_event_def)
  then show ?thesis by blast
qed

lemma calm_outside [simp]:
  "entropy calm t n = Some (replicate n (CHR 0x00))" "jsonMarshal calm x = Inr []" "elapsed calm t = 1"
  "NewRequest_err calm u = None" "http_Do calm t rq = Resp 200 [] []"
  "unmarshal_batchResponse calm s = Inr \<lparr>r_Success = True, r_Errors = []\<rparr>"
  by (simp_all add: calm_def)

lemma calm_send: "xs \<noteq> [] \<Longrightarrow> fst (sendItems calm Background event_batches xs (tr (calm_agent ys b)) w)
    = Inr (outcomeAccepted, None)"
  by (simp add: sendItems.simps new_batch_def gen_batchID_def now_def Let_def calm_agent_def new_agent_def newTransport_def
     gen_randomHex_def calm_outside marshalBatch_def willCompress_def sendBatch_def
     encodeBody_def sendLoop.simps sendAttempt_def limiterGate_def Acquire_def pruneLocked_def newRateLimiter_def
     Admit_def newCircuitBreaker_def client_Do_def after_request_def on_response_def evaluateBatchResponse_def)

lemma calm_Stop: "xs \<noteq> [] \<Longrightarrow> \<exists>a' w'. Stop calm Background (calm_agent xs b) w = (None, a', w')"
proof -
  assume xs: "xs \<noteq> []"
  let ?a = "(calm_agent xs b)\<lparr>closed := True, loop_context := None\<rparr>"
  obtain a1 w1 where d: "drain calm event_kind True ?a w = (Some xs, a1, w1)" and a1: "tr a1 = tr (calm_agent xs b)"
      "cfg a1 = cfg (calm_agent xs b)"
    using xs by (simp add: drain_def Let_def split_beta signalSpaceLocked_def event_kind_def empty_kstate_def)
  have "fst (sendSafely calm Background event_kind (map payload xs) (tr a1) w1) = (outcomeAccepted, None)"
    using calm_send [of "map payload xs" xs b w1] xs
    by (auto simp: sendSafely_def a1 event_kind_def split: prod.split sum.split)
  then obtain t1 w2 where s: "sendSafely calm Background event_kind (map payload xs) (tr a1) w1
      = ((outcomeAccepted, None), t1, w2)" by (metis prod.collapse)
  obtain a2 w3 where f: "flushEvents calm Background True ?a w = (None, a2, w3)"
  proof -
    have "kd_enabled event_kind (cfg ?a)" by (simp add: event_kind_def)
    then have "fst (flushEvents calm Background True ?a w) = None"
      by (simp add: flushEvents_def flush_kind_def d s settle_def Let_def split_beta)
    then show thesis by (metis prod.collapse that)
  qed
  have "kd_get metric_kind a2 = kd_get metric_kind ?a" by (rule em.flush_other [OF f [unfolded flushEvents_def]])
  then have "items (metrics a2) = []" by (simp add: metric_kind_def empty_kstate_def)
  then have m: "fst (flushMetrics calm Background True a2 w3) = None"
    by (simp add: flushMetrics_def flush_kind_def drain_def metric_kind_def)
  have "persist a2 = None"
    using ek.flush_grows [OF f [unfolded flushEvents_def]] by (simp add: queue_grows_def)
  obtain a3 w4 where g: "flushMetrics calm Background True a2 w3 = (None, a3, w4)" using m by (metis prod.collapse)
  have "cancelled (loop_context (calm_agent xs b)) w = None" by (simp add: cancelled_def)
  then show ?thesis using f g by (simp add: Stop_def Let_def)
qed


end
