(* ===== verification/Loops.thy ===== *)
theory Loops
  imports Life
begin

text \<open>
  The background loops of agent.go and dynamic_rules.go. A loop waits in a select; the list says which
  branch each pass takes: the loop context has ended, or the ticker (for \<open>wakeFlushLoop\<close>: the wake channel)
  fires, after the other goroutines have done something to the agent and its outside. The end of the
  list is a loop that still waits.
\<close>

datatype select = CtxDone | Fires "agent \<Rightarrow> world \<Rightarrow> agent \<times> world"

fun autoFlushLoop :: "env \<Rightarrow> select list \<Rightarrow> int \<Rightarrow> agent \<Rightarrow> world \<Rightarrow> agent \<times> world" where
  "autoFlushLoop E [] consecutive a w = (a, w)"
| "autoFlushLoop E (CtxDone # _) consecutive a w = (a, w)"
| "autoFlushLoop E (Fires others # rest) consecutive a w =
    (case others a w of (a1, w1) \<Rightarrow> case flushTick E consecutive a1 w1 of (n, a2, w2) \<Rightarrow> autoFlushLoop E rest n a2 w2)"

fun wakeFlushLoop :: "env \<Rightarrow> select list \<Rightarrow> agent \<Rightarrow> world \<Rightarrow> agent \<times> world" where
  "wakeFlushLoop E [] a w = (a, w)"
| "wakeFlushLoop E (CtxDone # _) a w = (a, w)"
| "wakeFlushLoop E (Fires others # rest) a w =
    (case others a w of (a1, w1) \<Rightarrow> case wake E a1 w1 of (a2, w2) \<Rightarrow> wakeFlushLoop E rest a2 w2)"

fun statusLoop :: "env \<Rightarrow> select list \<Rightarrow> agent \<Rightarrow> world \<Rightarrow> agent \<times> world" where
  "statusLoop E [] a w = (a, w)"
| "statusLoop E (CtxDone # _) a w = (a, w)"
| "statusLoop E (Fires others # rest) a w =
    (case others a w of (a1, w1) \<Rightarrow> case reportStatus E (loopCtx a1) a1 w1 of (a2, w2) \<Rightarrow> statusLoop E rest a2 w2)"

fun rulesLoop :: "env \<Rightarrow> select list \<Rightarrow> int \<Rightarrow> agent \<Rightarrow> world \<Rightarrow> agent \<times> world" where
  "rulesLoop E [] consecutive a w = (a, w)"
| "rulesLoop E (CtxDone # _) consecutive a w = (a, w)"
| "rulesLoop E (Fires others # rest) consecutive a w =
    (case others a w of (a1, w1) \<Rightarrow> case rulesTick E consecutive a1 w1 of (n, a2, w2) \<Rightarrow> rulesLoop E rest n a2 w2)"

text \<open>The other goroutines run as steps of the system.\<close>

fun orderly :: "env \<Rightarrow> select \<Rightarrow> bool" where
  "orderly E CtxDone = True"
| "orderly E (Fires others) = (\<forall>a w. executes E a w (fst (others a w)) (snd (others a w)))"

lemma executes_flushTick: "flushTick E n a w = (k, a', w') \<Longrightarrow> executes E a w a' w'"
  using runs_flushTick by (simp add: runs_def)

lemma executes_wake: "wake E a w = (a', w') \<Longrightarrow> executes E a w a' w'"
  using runs_wake by (simp add: runs_def)

lemma executes_reportStatus: "reportStatus E c a w = (a', w') \<Longrightarrow> executes E a w a' w'"
  using runs_reportStatus by (simp add: runs_def)

lemma executes_rulesTick: "rulesTick E n a w = (k, a', w') \<Longrightarrow> executes E a w a' w'"
  using runs_GetDynamicRules by (auto simp: rulesTick_def runs_def split: prod.splits option.splits)

lemma loop_pass:
  assumes "orderly E (Fires others)" "others a w = (a1, w1)" "executes E a1 w1 a2 w2" "executes E a2 w2 a' w'"
  shows "executes E a w a' w'"
proof -
  have "executes E a w a1 w1" using assms(1,2) by (metis fst_conv orderly.simps(2) snd_conv)
  also note assms(3)
  also note assms(4)
  finally show ?thesis .
qed

lemma autoFlushLoop_executes:
  "list_all (orderly E) ss \<Longrightarrow> autoFlushLoop E ss n a w = (a', w') \<Longrightarrow> executes E a w a' w'"
proof (induction E ss n a w rule: autoFlushLoop.induct)
  case (3 E others rest n a w)
  then show ?case
    by (auto split: prod.splits intro: loop_pass [where others = others] dest: executes_flushTick)
qed auto

lemma wakeFlushLoop_executes:
  "list_all (orderly E) ss \<Longrightarrow> wakeFlushLoop E ss a w = (a', w') \<Longrightarrow> executes E a w a' w'"
proof (induction E ss a w rule: wakeFlushLoop.induct)
  case (3 E others rest a w)
  then show ?case
    by (auto split: prod.splits intro: loop_pass [where others = others] dest: executes_wake)
qed auto

lemma statusLoop_executes:
  "list_all (orderly E) ss \<Longrightarrow> statusLoop E ss a w = (a', w') \<Longrightarrow> executes E a w a' w'"
proof (induction E ss a w rule: statusLoop.induct)
  case (3 E others rest a w)
  then show ?case
    by (auto split: prod.splits intro: loop_pass [where others = others] dest: executes_reportStatus)
qed auto

lemma rulesLoop_executes:
  "list_all (orderly E) ss \<Longrightarrow> rulesLoop E ss n a w = (a', w') \<Longrightarrow> executes E a w a' w'"
proof (induction E ss n a w rule: rulesLoop.induct)
  case (3 E others rest n a w)
  then show ?case
    by (auto split: prod.splits intro: loop_pass [where others = others] dest: executes_rulesTick)
qed auto

text \<open>C11. The background loops are executions of the delivery system, whatever branches their selects take and
  whatever the other goroutines do in between, as long as that is an execution itself: so no loop can
  break what holds of every execution.\<close>

theorem loops_refine_system:
  assumes "list_all (orderly E) ss"
  shows "executes E a w (fst (autoFlushLoop E ss n a w)) (snd (autoFlushLoop E ss n a w))
    \<and> executes E a w (fst (wakeFlushLoop E ss a w)) (snd (wakeFlushLoop E ss a w))
    \<and> executes E a w (fst (statusLoop E ss a w)) (snd (statusLoop E ss a w))
    \<and> executes E a w (fst (rulesLoop E ss n a w)) (snd (rulesLoop E ss n a w))"
  using autoFlushLoop_executes [OF assms] wakeFlushLoop_executes [OF assms] statusLoop_executes [OF assms]
    rulesLoop_executes [OF assms] by (metis prod.collapse)

theorem loops_refine_system_witness:
  "\<exists>fe' fm'. (sys_step calm)\<^sup>*\<^sup>* (sample_agent, start, no_flight {#}, no_flight {#})
     (fst (autoFlushLoop calm [Fires (\<lambda>a w. (a, w)), CtxDone] 0 sample_agent start),
      snd (autoFlushLoop calm [Fires (\<lambda>a w. (a, w)), CtxDone] 0 sample_agent start), fe', fm')"
proof -
  have "list_all (orderly calm) [Fires (\<lambda>a w. (a, w)), CtxDone]" by simp
  from loops_refine_system [OF this, of sample_agent start 0] show ?thesis unfolding executes_def by blast
qed

text \<open>Once rules are cached, the failure count of \<open>rulesLoop\<close> never leaves zero, however long the outage: the
  cached rules count as a success, so that the warning is never escalated.\<close>

theorem rules_failures_hidden:
  assumes "cachedRules a \<noteq> None"
  shows "fst (rulesTick E n a w) = 0"
proof -
  obtain res a' w' where g: "GetDynamicRules E (loopCtx a) a w = (res, a', w')" by (metis prod.collapse)
  from GetDynamicRules_result [OF g] assms have "res \<noteq> None" by auto
  with g show ?thesis by (auto simp: rulesTick_def)
qed

end
