(* ===== verification/Options.thy ===== *)
theory Options
  imports Config
begin

text \<open>
  The construction options of config.go: functions on the options record that \<open>New\<close> runs in order over
  the defaults, and the client the transport ends up with. A logger and an HTTP client are opaque
  values of the host; a nil pointer is None.
\<close>

record ('l, 'c) options =
  logger :: 'l
  httpClient :: "'c option"

definition WithLogger :: "'l option \<Rightarrow> ('l, 'c) options \<Rightarrow> ('l, 'c) options" where
  "WithLogger l o' = (case l of None \<Rightarrow> o' | Some l' \<Rightarrow> o'\<lparr>logger := l'\<rparr>)"

definition WithHTTPClient :: "'c option \<Rightarrow> ('l, 'c) options \<Rightarrow> ('l, 'c) options" where
  "WithHTTPClient c o' = (case c of None \<Rightarrow> o' | Some c' \<Rightarrow> o'\<lparr>httpClient := Some c'\<rparr>)"

text \<open>The first lines of \<open>New\<close>, for the given \<open>log.Default()\<close>.\<close>

definition run_options :: "'l \<Rightarrow> (('l, 'c) options \<Rightarrow> ('l, 'c) options) list \<Rightarrow> ('l, 'c) options" where
  "run_options log_Default opts = fold (\<lambda>opt o'. opt o') opts \<lparr>logger = log_Default, httpClient = None\<rparr>"

text \<open>\<open>newTransport\<close> without a client makes its own, which keeps the standard redirect policy.\<close>

datatype 'c client = HostClient 'c | StandardClient duration

definition transport_client :: "Config \<Rightarrow> 'c option \<Rightarrow> 'c client" where
  "transport_client cfg c = (case c of None \<Rightarrow> StandardClient (Timeout cfg) | Some c' \<Rightarrow> HostClient c')"

section \<open>The last option wins\<close>

text \<open>The option calls of the package, as a list of their arguments.\<close>

definition option_call :: "'l option + 'c option \<Rightarrow> ('l, 'c) options \<Rightarrow> ('l, 'c) options" where
  "option_call = case_sum WithLogger WithHTTPClient"

definition loggers :: "('l option + 'c option) list \<Rightarrow> 'l list" where
  "loggers = List.map_filter (case_sum id (\<lambda>c. None))"

definition clients :: "('l option + 'c option) list \<Rightarrow> 'c list" where
  "clients = List.map_filter (case_sum (\<lambda>l. None) id)"

lemma option_calls_fold:
  "logger (fold (\<lambda>opt o'. opt o') (map option_call os) o') = last (logger o' # loggers os)
   \<and> httpClient (fold (\<lambda>opt o'. opt o') (map option_call os) o')
     = (if clients os = [] then httpClient o' else Some (last (clients os)))"
proof (induction os arbitrary: o')
  case (Cons x os)
  then show ?case
    by (cases x; cases "projl x"; cases "projr x")
       (auto simp: option_call_def WithLogger_def WithHTTPClient_def loggers_def clients_def List.map_filter_def)
qed (simp add: loggers_def clients_def List.map_filter_def)

text \<open>Of several options of one kind the last that is not nil counts, in whatever way the kinds are mixed;
  without one the logger is the default and the client the transport's own, with the configured
  timeout.\<close>

theorem options_last_wins:
  "logger (run_options d (map option_call os)) = last (d # loggers os)
   \<and> transport_client cfg (httpClient (run_options d (map option_call os)))
     = (if clients os = [] then StandardClient (Timeout cfg) else HostClient (last (clients os)))"
  using option_calls_fold [of os "\<lparr>logger = d, httpClient = None\<rparr>"]
  by (simp add: run_options_def transport_client_def)

end
