(* ===== verification/Recovery.thy ===== *)
theory Recovery
  imports Life
begin

text \<open>
  What survives a crash. The Redis commands of a process, replayed, give the records the server is bound
  to hold when the process dies; an item that the process still had in hand and had persisted is among
  them, and the reload of the next process puts it back into the buffer under its old key.
\<close>

section \<open>What Redis holds\<close>

type_synonym store = "gostring \<Rightarrow> gostring option"

text \<open>
  The records a server is bound to hold. An acknowledged SET stores its value; after a SET that
  reported an error (a timeout, say) nothing is certain about its key; a DEL is taken to have removed
  its keys whether it was answered or not. Expiry is left out: the records are those of a process that
  is restarted within the TTL.
\<close>

fun after_cmd :: "redis_cmd \<Rightarrow> store \<Rightarrow> store" where
  "after_cmd (RSet k v d None) m = m(k \<mapsto> v)"
| "after_cmd (RSet k v d (Some err)) m = m(k := None)"
| "after_cmd (RDel ks) m = m |` (- set ks)"

definition held :: "store \<Rightarrow> redis_cmd list \<Rightarrow> store" where
  "held m cs = fold after_cmd cs m"

text \<open>The keys written, in order.\<close>

fun cmd_set :: "redis_cmd \<Rightarrow> gostring list" where
  "cmd_set (RSet k v d r) = [k]"
| "cmd_set (RDel ks) = []"

definition set_keys :: "redis_cmd list \<Rightarrow> gostring list" where
  "set_keys cs = concat (map cmd_set cs)"

definition del_keys :: "redis_cmd list \<Rightarrow> gostring set" where
  "del_keys cs = (\<Union>c \<in> set cs. cmd_keys c)"

lemma cmds_simps [simp]:
  "held m [] = m" "held m (c # cs) = held (after_cmd c m) cs"
  "set_keys [] = []" "set_keys (c # cs) = cmd_set c @ set_keys cs"
  "del_keys [] = {}" "del_keys (c # cs) = cmd_keys c \<union> del_keys cs"
  by (simp_all add: held_def set_keys_def del_keys_def)

lemma deleted_del_keys: "deleted n w = del_keys (drop n (redis_trace w))"
  by (simp add: deleted_def del_keys_def)

lemma held_untouched: "k \<notin> set (set_keys cs) \<Longrightarrow> k \<notin> del_keys cs \<Longrightarrow> held m cs k = m k"
proof (induction cs arbitrary: m)
  case (Cons c cs)
  then have "after_cmd c m k = m k" by (cases "(c, m)" rule: after_cmd.cases) (auto simp: restrict_map_def)
  with Cons show ?case by simp
qed simp

lemma held_written:
  "RSet k v d None \<in> set cs \<Longrightarrow> distinct (set_keys cs) \<Longrightarrow> k \<notin> del_keys cs \<Longrightarrow> held m cs k = Some v"
proof (induction cs arbitrary: m)
  case (Cons c cs)
  show ?case
  proof (cases "c = RSet k v d None")
    case True
    with Cons.prems held_untouched [of k cs "after_cmd c m"] show ?thesis by simp
  next
    case False
    with Cons show ?thesis by simp
  qed
qed simp

text \<open>
  What the theorems assume of a history: no key is written twice (a key holds the time in nanoseconds
  and 32 random bits), and what a reload read was there, from before or by an acknowledged write.
\<close>

definition written_once :: "store \<Rightarrow> redis_cmd list \<Rightarrow> bool" where
  "written_once m cs \<longleftrightarrow> distinct (set_keys cs) \<and> set (set_keys cs) \<inter> dom m = {}"

definition wrote :: "redis_cmd list \<Rightarrow> gostring \<Rightarrow> gostring \<Rightarrow> bool" where
  "wrote cs k v \<longleftrightarrow> (\<exists>d. RSet k v d None \<in> set cs)"

definition truthful :: "store \<Rightarrow> redis_cmd list \<Rightarrow> (gostring \<times> gostring) set \<Rightarrow> bool" where
  "truthful m cs R \<longleftrightarrow> (\<forall>(k, v) \<in> R. m k = Some v \<or> wrote cs k v)"

lemma held_known:
  assumes "written_once m cs" "m k = Some v \<or> wrote cs k v" "k \<notin> del_keys cs"
  shows "held m cs k = Some v"
proof (cases "wrote cs k v")
  case True
  with assms(1,3) held_written [of k v _ cs m] show ?thesis by (auto simp: written_once_def wrote_def)
next
  case False
  with assms(1,2) have "m k = Some v" "k \<notin> set (set_keys cs)" by (auto simp: written_once_def)
  with assms(3) held_untouched [of k cs m] show ?thesis by simp
qed

section \<open>The record of an item\<close>

text \<open>
  An item that carries a key has a record: the process wrote it, as the JSON of the item, or a reload
  read the item from it. The key has the form the next process derives again.
\<close>

definition key_shape :: "'a kind \<Rightarrow> gostring \<Rightarrow> gostring \<Rightarrow> bool" where
  "key_shape K pre k \<longleftrightarrow> (\<exists>s. colon_free s \<and> k = pre @ '':'' @ kd_namespace K @ '':'' @ s)"

definition record_of :: "env \<Rightarrow> 'a kind \<Rightarrow> gostring \<Rightarrow> 'a \<Rightarrow> bool" where
  "record_of E K v x \<longleftrightarrow> kd_marshal K E x = Inr v \<or> kd_unmarshal K E v = Inr x"

definition recorded :: "env \<Rightarrow> 'a kind \<Rightarrow> gostring \<Rightarrow> redis_cmd list \<Rightarrow> (gostring \<times> gostring) set \<Rightarrow> 'a buffered \<Rightarrow> bool" where
  "recorded E K pre cs R b \<longleftrightarrow> key b = [] \<or> key_shape K pre (key b)
     \<and> (\<exists>v. record_of E K v (payload b) \<and> (wrote cs (key b) v \<or> (key b, v) \<in> R))"

definition rec_inv :: "env \<Rightarrow> 'a kind \<Rightarrow> gostring \<Rightarrow> nat \<Rightarrow> world \<Rightarrow> 'a flight \<Rightarrow> bool" where
  "rec_inv E K pre n w f \<longleftrightarrow> (\<forall>b \<in># entered f. recorded E K pre (drop n (redis_trace w)) (reread f) b)
     \<and> (\<forall>kv \<in> reread f. key_shape K pre (fst kv)) \<and> unreadable f \<subseteq> fst ` reread f"

definition prefixed :: "gostring \<Rightarrow> agent \<Rightarrow> bool" where
  "prefixed pre a \<longleftrightarrow> map_option p_prefix (persist a) = Some pre"

lemma recorded_mono: "recorded E K pre cs R b \<Longrightarrow> set cs \<subseteq> set cs' \<Longrightarrow> R \<subseteq> R' \<Longrightarrow> recorded E K pre cs' R' b"
  unfolding recorded_def wrote_def by blast

lemma fullKey_shape: "p_prefix p = pre \<Longrightarrow> colon_free s \<Longrightarrow> key_shape K pre (fullKey p (kd_namespace K) s)"
  unfolding key_shape_def fullKey_def by blast

lemma key_shape_kinds: "key_shape event_kind pre k \<Longrightarrow> \<not> key_shape metric_kind pre k"
  by (auto simp: key_shape_def event_kind_def metric_kind_def)

lemma key_shape_full:
  assumes "key_shape K pre k" "p_prefix p = pre"
  shows "fullKey p (kd_namespace K) (shortOf k) = k"
proof -
  from assms obtain s where "colon_free s" "k = fullKey p (kd_namespace K) s"
    by (auto simp: key_shape_def fullKey_def)
  with keys.reload_same [of s p "kd_namespace K"] show ?thesis by simp
qed

section \<open>Every step keeps the records\<close>

lemma store_prefix: "store E p k v w = (ok, p', w') \<Longrightarrow> p_prefix p' = p_prefix p"
  by (erule store_cases) auto

lemma reserveKey_prefix:
  assumes "reserveKeyLocked E K x a w = (k, a', w')"
  shows "map_option p_prefix (persist a') = map_option p_prefix (persist a)"
  using assms store_prefix
  by (fastforce simp: reserveKeyLocked_def persistItemLocked_def recordErrorLocked_def Let_def
      split: option.splits sum.splits prod.splits if_splits)

text \<open>A key is only given to an item whose write was acknowledged.\<close>

lemma reserveKey_wrote:
  assumes "reserveKeyLocked E K x a w = (k, a', w')" "k \<noteq> []" "colon_free (kd_name K)" "prefixed pre a"
    "n \<le> length (redis_trace w)"
  shows "key_shape K pre k \<and> (\<exists>v. kd_marshal K E x = Inr v \<and> wrote (drop n (redis_trace w')) k v)"
proof -
  from assms(4) obtain p where p: "persist a = Some p" "p_prefix p = pre" by (auto simp: prefixed_def)
  with assms(1,2) obtain data where d: "kd_marshal K E x = Inr data"
    by (auto simp: reserveKeyLocked_def split: sum.splits)
  obtain s w1 where s: "shortKey E (kd_name K) w = (s, w1)" by fastforce
  obtain ok p1 w2 where st: "store E p (fullKey p (kd_namespace K) s) data w1 = (ok, p1, w2)" by (metis prod.collapse)
  from assms(1,2) p d s st have k: "ok" "k = fullKey p (kd_namespace K) s" "w' = w2"
    by (auto simp: reserveKeyLocked_def persistItemLocked_def Let_def split: if_splits)
  have cf: "colon_free s" using shortKey_colon_free [OF assms(3), of E w] s by simp
  have "redis_trace w1 = redis_trace w" using shortKey_redis [of E "kd_name K" w] s by simp
  moreover from st k(1) have "redis_trace w2 = redis_trace w1 @ [RSet (fullKey p (kd_namespace K) s) data (p_ttl p) None]"
    by (cases rule: store_cases) auto
  ultimately have "wrote (drop n (redis_trace w')) k data" using k assms(5) by (auto simp: wrote_def)
  with d k(2) fullKey_shape [OF p(2) cf] show ?thesis by auto
qed

locale recorded_kind = kind_access K for K :: "'a kind" +
  assumes name_colon_free: "colon_free (kd_name K)"
begin

lemma appendLocked_prefix: "appendLocked E K x a w = (b, a', w') \<Longrightarrow>
  map_option p_prefix (persist a') = map_option p_prefix (persist a)"
  by (auto simp: appendLocked_def Let_def split: prod.splits dest!: reserveKey_prefix)

lemma appendLocked_recorded:
  assumes "appendLocked E K x a w = (b, a', w')" "prefixed pre a" "n \<le> length (redis_trace w)"
  shows "recorded E K pre (drop n (redis_trace w')) R (last (items (kd_get K a')))"
proof -
  obtain k a1 w1 where r: "reserveKeyLocked E K x a w = (k, a1, w1)" by (metis prod.collapse)
  have a': "a' = kd_map K (\<lambda>s. s\<lparr>items := items s @ [\<lparr>payload = x, key = k\<rparr>], buffered := buffered s + 1\<rparr>) a1" "w' = w1"
    using assms(1) by (auto simp: appendLocked_def r Let_def)
  show "recorded E K pre (drop n (redis_trace w')) R (last (items (kd_get K a')))"
    using reserveKey_wrote [OF r _ name_colon_free assms(2,3)]
    by (auto simp: a' recorded_def record_of_def)
qed

lemma enqueue_recorded:
  assumes "enqueue_locked E K x a w = ((r, nf, ks), a', w')" "prefixed pre a" "n \<le> length (redis_trace w)"
  shows "r = Enqueued \<longrightarrow> recorded E K pre (drop n (redis_trace w')) R (last (items (kd_get K a')))"
proof -
  have step: "appendLocked E K x b w = (nf', a', w') \<Longrightarrow> persist b = persist a \<Longrightarrow> ?thesis" for b nf'
    using appendLocked_recorded [of E x b w nf' a' w' pre n] assms(2,3) by (simp add: prefixed_def)
  show ?thesis
    using assms(1,2) step
    by (auto simp: enqueue_locked_def split: if_splits list.splits prod.splits)
qed

lemma rec_inv_add:
  assumes "rec_inv E K pre n w f" "redis_trace w' = redis_trace w @ cs" "n \<le> length (redis_trace w)"
    and "entered f' = entered f + N" "reread f \<subseteq> reread f'" "unreadable f' \<subseteq> fst ` reread f'"
    and "\<forall>b \<in># N. recorded E K pre (drop n (redis_trace w')) (reread f') b"
    and "\<forall>kv \<in> reread f' - reread f. key_shape K pre (fst kv)"
  shows "rec_inv E K pre n w' f'"
proof -
  have "set (drop n (redis_trace w)) \<subseteq> set (drop n (redis_trace w'))" using assms(2,3) by simp
  from recorded_mono [where K = K, OF _ this assms(5)] assms show ?thesis by (auto simp: rec_inv_def)
qed

lemma rec_inv_same:
  assumes "rec_inv E K pre n w f" "redis_trace w' = redis_trace w @ cs" "n \<le> length (redis_trace w)"
    and "entered f' = entered f" "reread f' = reread f" "unreadable f' = unreadable f"
  shows "rec_inv E K pre n w' f'"
  using assms by (intro rec_inv_add [where N = "{#}", OF assms(1-3)]) (auto simp: rec_inv_def)

lemma kstep_prefix:
  assumes "kstep E K (a, w, f) (a', w', f')"
  shows "map_option p_prefix (persist a') = map_option p_prefix (persist a)"
  using assms
proof (cases rule: kstep.cases)
  case (enqueue x r nf ks)
  then show ?thesis
    by (auto simp: enqueue_locked_def split: if_splits list.splits prod.splits dest!: appendLocked_prefix)
next
  case (drain force d)
  with drain_get(6) show ?thesis by simp
next
  case (fail d)
  with settle_failed_frame show ?thesis by simp
next
  case (requeue d ks)
  with requeue_locked_get(5) show ?thesis by simp
next
  case (confirm ks)
  then show ?thesis by (auto simp: confirmKeys_def split: if_splits)
next
  case (reload p it)
  then show ?thesis by (auto simp: reload_item_def Let_def split: sum.splits if_splits)
qed (auto simp: settle_frame)

lemma kstep_rec_inv:
  assumes "kstep E K (a, w, f) (a', w', f')" "rec_inv E K pre n w f" "prefixed pre a"
    "n \<le> length (redis_trace w)" "redis_trace w' = redis_trace w @ cs" "0 < BufferSize (cfg a)"
  shows "rec_inv E K pre n w' f'"
  using assms(1)
proof (cases rule: kstep.cases)
  case (enqueue x r nf ks)
  note e = enqueue_recorded [OF enqueue(2) assms(3,4), of "reread f"]
  show ?thesis
    using assms(2) e by (intro rec_inv_add [OF assms(2,5,4)]) (auto simp: enqueue(1) after_enqueue_def rec_inv_def split: if_splits)
next
  case (reload p it)
  have pre: "p_prefix p = pre" using assms(3) reload(2) by (simp add: prefixed_def)
  note sh = fullKey_shape [OF pre reload(3), of K]
  from reload(4) assms(6) show ?thesis
  proof (cases rule: reload_item_cases)
    case (corrupt err)
    with assms(2) sh show ?thesis
      by (intro rec_inv_add [where N = "{#}", OF assms(2,5,4)]) (auto simp: reload(1) after_reload_def rec_inv_def)
  next
    case (room x)
    with assms(2) sh show ?thesis
      by (intro rec_inv_add [OF assms(2,5,4)])
         (auto simp: reload(1) after_reload_def rec_inv_def recorded_def record_of_def)
  next
    case (displace x old rest)
    with assms(2) sh show ?thesis
      by (intro rec_inv_add [OF assms(2,5,4)])
         (auto simp: reload(1) after_reload_def rec_inv_def recorded_def record_of_def)
  qed
qed (rule rec_inv_same [OF assms(2,5,4)]; simp)+

end

interpretation er: recorded_kind event_kind
  by unfold_locales (simp add: event_kind_def colon_free_def)

interpretation mr: recorded_kind metric_kind
  by unfold_locales (simp add: metric_kind_def colon_free_def)

text \<open>The whole system: the accounting, the prefix of the keys, and the records of both kinds.\<close>

definition rec_sys :: "env \<Rightarrow> gostring \<Rightarrow> nat \<Rightarrow> system \<Rightarrow> bool" where
  "rec_sys E pre n s \<longleftrightarrow> sys_inv n s \<and> (case s of (a, w, fe, fm) \<Rightarrow>
     prefixed pre a \<and> rec_inv E event_kind pre n w fe \<and> rec_inv E metric_kind pre n w fm)"

lemma redis_growsE: "redis_grows w w' D \<Longrightarrow> \<exists>cs. redis_trace w' = redis_trace w @ cs"
  by (auto simp: redis_grows_def)

lemma rec_sys_step: "sys_step E s s' \<Longrightarrow> rec_sys E pre n s \<Longrightarrow> rec_sys E pre n s'"
proof (induction rule: sys_step.induct)
  case (event_step a w fe a' w' fe' fm)
  then have k: "kinv event_kind a fe" "0 < BufferSize (cfg a)" "n \<le> length (redis_trace w)" "prefixed pre a"
    "rec_inv E event_kind pre n w fe" "rec_inv E metric_kind pre n w fm"
    by (simp_all add: rec_sys_def sys_inv_def)
  obtain cs where cs: "redis_trace w' = redis_trace w @ cs"
    using ek.kstep_keys [OF event_step(1) k(1,2)] redis_growsE by blast
  from er.kstep_rec_inv [OF event_step(1) k(5,4,3) cs k(2)] mr.rec_inv_same [OF k(6) cs k(3)]
    er.kstep_prefix [OF event_step(1)] sys_step_inv [OF sys_step.event_step [OF event_step(1)]] event_step.prems
  show ?case by (simp add: rec_sys_def prefixed_def del: map_option_eq_Some)
next
  case (metric_step a w fm a' w' fm' fe)
  then have k: "kinv metric_kind a fm" "0 < BufferSize (cfg a)" "n \<le> length (redis_trace w)" "prefixed pre a"
    "rec_inv E metric_kind pre n w fm" "rec_inv E event_kind pre n w fe"
    by (simp_all add: rec_sys_def sys_inv_def)
  obtain cs where cs: "redis_trace w' = redis_trace w @ cs"
    using mk.kstep_keys [OF metric_step(1) k(1,2)] redis_growsE by blast
  from mr.kstep_rec_inv [OF metric_step(1) k(5,4,3) cs k(2)] er.rec_inv_same [OF k(6) cs k(3)]
    mr.kstep_prefix [OF metric_step(1)] sys_step_inv [OF sys_step.metric_step [OF metric_step(1)]] metric_step.prems
  show ?case by (simp add: rec_sys_def prefixed_def del: map_option_eq_Some)
next
  case (worker a ks rest w fe fm)
  then have k: "n \<le> length (redis_trace w)" "rec_inv E event_kind pre n w fe" "rec_inv E metric_kind pre n w fm"
    by (simp_all add: rec_sys_def sys_inv_def)
  obtain cs where cs: "redis_trace (del E ks w) = redis_trace w @ cs" using redis_growsE [OF del_grows] by blast
  from er.rec_inv_same [OF k(2) cs k(1)] mr.rec_inv_same [OF k(3) cs k(1)]
    sys_step_inv [OF sys_step.worker [OF worker(1)]] worker.prems
  show ?case by (simp add: rec_sys_def prefixed_def)
next
  case (other a w a' w' fe fm)
  with sys_step_inv [OF sys_step.other [OF other(1)]] show ?case
    by (simp add: rec_sys_def prefixed_def same_buffers_def rec_inv_def del: map_option_eq_Some)
qed

lemma rec_sys_reach: "(sys_step E)\<^sup>*\<^sup>* s s' \<Longrightarrow> rec_sys E pre n s \<Longrightarrow> rec_sys E pre n s'"
  by (induction rule: rtranclp_induct) (auto intro: rec_sys_step)

lemma rec_sys_start:
  assumes "quiescent a w (no_flight {#}) (no_flight {#})" "prefixed pre a"
  shows "rec_sys E pre (length (redis_trace w)) (a, w, no_flight {#}, no_flight {#})"
  using quiescent_inv [OF assms(1)] assms(2) by (simp add: rec_sys_def rec_inv_def no_flight_def)

section \<open>The records outlive the process\<close>

text \<open>The items a process has in hand: in the buffer or in a batch that is not settled.\<close>

definition in_hand :: "'a kind \<Rightarrow> agent \<Rightarrow> 'a flight \<Rightarrow> 'a buffered \<Rightarrow> bool" where
  "in_hand K a f b \<longleftrightarrow> b \<in># mset (items (kd_get K a)) + in_batches (flying f) + in_batches (failing f)"

lemma done_keys_shape:
  assumes "kinv K a f" "rec_inv E K pre n w f" "k \<in> done_keys f" "k \<noteq> []"
  shows "key_shape K pre k"
proof (cases "k \<in> unreadable f")
  case True
  with assms(2) show ?thesis by (auto simp: rec_inv_def)
next
  case False
  with assms(1,3) have "k \<in> key_set (entered f)" by (auto simp: done_keys_def kinv_def)
  with assms(2,4) show ?thesis by (auto simp: key_set_def rec_inv_def recorded_def)
qed

lemma record_kept:
  assumes "kinv K a f" and "rec_inv E K pre n w f" and "in_hand K a f b" and "key b \<noteq> []" and "key b \<notin> deleted n w"
    and "written_once m (drop n (redis_trace w))" and "truthful m (drop n (redis_trace w)) (reread f)"
  shows "key_shape K pre (key b)
    \<and> (\<exists>v. held m (drop n (redis_trace w)) (key b) = Some v \<and> record_of E K v (payload b))"
proof -
  have "b \<in># entered f" using assms(1,3) by (auto simp: in_hand_def kinv_def)
  with assms(2,4) obtain v where v: "key_shape K pre (key b)" "record_of E K v (payload b)"
    "wrote (drop n (redis_trace w)) (key b) v \<or> (key b, v) \<in> reread f"
    by (auto simp: rec_inv_def recorded_def)
  with held_known [OF assms(6)] assms(5,7) show ?thesis by (fastforce simp: truthful_def deleted_del_keys)
qed

text \<open>The deletions of one kind are none of the other's, as the namespaces differ.\<close>

lemma rec_sys_deleted:
  assumes "rec_sys E pre n (a, w, fe, fm)" "k \<noteq> []" "k \<in> deleted n w"
  shows "key_shape event_kind pre k \<and> k \<in> done_keys fe \<or> key_shape metric_kind pre k \<and> k \<in> done_keys fm"
proof -
  have k: "kinv event_kind a fe" "kinv metric_kind a fm" "rec_inv E event_kind pre n w fe"
    "rec_inv E metric_kind pre n w fm" "deleted n w \<subseteq> done_keys fe \<union> done_keys fm"
    using assms(1) by (simp_all add: rec_sys_def sys_inv_def)
  with assms(2,3) done_keys_shape [OF k(1,3)] done_keys_shape [OF k(2,4)] show ?thesis by blast
qed

lemma record_survives:
  assumes "rec_sys E pre n (a, w, fe, fm)" and "written_once m (drop n (redis_trace w))"
  shows "in_hand event_kind a fe b \<Longrightarrow> key b \<noteq> [] \<Longrightarrow> key b \<notin> done_keys fe
    \<Longrightarrow> truthful m (drop n (redis_trace w)) (reread fe) \<Longrightarrow> key_shape event_kind pre (key b)
      \<and> (\<exists>v. held m (drop n (redis_trace w)) (key b) = Some v \<and> record_of E event_kind v (payload b))"
    and "in_hand metric_kind a fm c \<Longrightarrow> key c \<noteq> [] \<Longrightarrow> key c \<notin> done_keys fm
    \<Longrightarrow> truthful m (drop n (redis_trace w)) (reread fm) \<Longrightarrow> key_shape metric_kind pre (key c)
      \<and> (\<exists>v. held m (drop n (redis_trace w)) (key c) = Some v \<and> record_of E metric_kind v (payload c))"
proof -
  have k: "kinv event_kind a fe" "kinv metric_kind a fm" "rec_inv E event_kind pre n w fe" "rec_inv E metric_kind pre n w fm"
    using assms(1) by (simp_all add: rec_sys_def sys_inv_def)
  have shape: "in_hand event_kind a fe b \<Longrightarrow> key b \<noteq> [] \<Longrightarrow> key_shape event_kind pre (key b)"
    "in_hand metric_kind a fm c \<Longrightarrow> key c \<noteq> [] \<Longrightarrow> key_shape metric_kind pre (key c)"
    using k by (auto simp: in_hand_def kinv_def rec_inv_def recorded_def)
  show "in_hand event_kind a fe b \<Longrightarrow> key b \<noteq> [] \<Longrightarrow> key b \<notin> done_keys fe
    \<Longrightarrow> truthful m (drop n (redis_trace w)) (reread fe) \<Longrightarrow> key_shape event_kind pre (key b)
      \<and> (\<exists>v. held m (drop n (redis_trace w)) (key b) = Some v \<and> record_of E event_kind v (payload b))"
    using rec_sys_deleted [OF assms(1)] shape(1) key_shape_kinds by (intro record_kept [OF k(1,3) _ _ _ assms(2)]) blast+
  show "in_hand metric_kind a fm c \<Longrightarrow> key c \<noteq> [] \<Longrightarrow> key c \<notin> done_keys fm
    \<Longrightarrow> truthful m (drop n (redis_trace w)) (reread fm) \<Longrightarrow> key_shape metric_kind pre (key c)
      \<and> (\<exists>v. held m (drop n (redis_trace w)) (key c) = Some v \<and> record_of E metric_kind v (payload c))"
    using rec_sys_deleted [OF assms(1)] shape(2) key_shape_kinds by (intro record_kept [OF k(2,4) _ _ _ assms(2)]) blast+
qed

section \<open>The next process\<close>

text \<open>
  A Redis server that holds the given records: a scan that runs to its end has returned every key with
  the prefix at least once (SCAN may return a key twice), and a GET returns the value or fails. The
  prefix is taken to be free of the pattern characters of MATCH.
\<close>

definition serves :: "env \<Rightarrow> store \<Rightarrow> gostring \<Rightarrow> bool" where
  "serves E m pre \<longleftrightarrow>
     (\<forall>d w ks w'. scan_loop E d (pre @ '':*'') [] 0 w = Some (Inr ks, w')
        \<longrightarrow> (\<forall>s. m (pre @ '':'' @ s) \<noteq> None \<longrightarrow> pre @ '':'' @ s \<in> set ks))
     \<and> (\<forall>t k v. m k = Some v \<longrightarrow> redis_Get E t k = RVal v \<or> (\<exists>err. redis_Get E t k = RErr err))"

lemma get_items_ConsE:
  assumes "get_items E d (full # rest) w = (Inr its, w')"
  obtains (gone) "redis_Get E (tick w) full = RNil" "get_items E d rest (observe E w) = (Inr its, w')"
    | (got) u its1 where "redis_Get E (tick w) full = RVal u" "get_items E d rest (observe E w) = (Inr its1, w')"
        "its = \<lparr>Short = shortOf full, Value = u\<rparr> # its1"
  using assms by (auto simp: Let_def split: redis_get.splits sum.splits prod.splits if_splits)

lemma get_items_mem:
  assumes "get_items E d fulls w = (Inr its, w')" "k \<in> set fulls"
    "\<forall>t. redis_Get E t k = RVal v \<or> (\<exists>err. redis_Get E t k = RErr err)"
  shows "\<lparr>Short = shortOf k, Value = v\<rparr> \<in> set its"
  using assms(1,2)
proof (induction fulls arbitrary: w its w')
  case (Cons full rest)
  from Cons.prems(1) show ?case
  proof (cases rule: get_items_ConsE)
    case gone
    with assms(3) have "full \<noteq> k" by (metis redis_get.distinct(1,5))
    with gone Cons show ?thesis by simp
  next
    case (got u its1)
    show ?thesis
    proof (cases "full = k")
      case True
      with got(1) assms(3) have "u = v" by (metis redis_get.inject(1) redis_get.distinct(3))
      with True got(3) show ?thesis by simp
    next
      case False
      with got Cons show ?thesis by simp
    qed
  qed
qed simp

lemma loadKind_mem:
  assumes "loadKind E p ns w = Some (Inr its, w')" "serves E m (p_prefix p @ '':'' @ ns)"
    "m k = Some v" "k = fullKey p ns s"
  shows "\<lparr>Short = shortOf k, Value = v\<rparr> \<in> set its"
proof -
  obtain d w0 ks w1 where s: "scan_loop E d (p_prefix p @ '':'' @ ns @ '':*'') [] 0 w0 = Some (Inr ks, w1)"
    "get_items E d (sort ks) w1 = (Inr its, w')"
    using assms(1) by (auto simp: loadKind_def Let_def split_beta split: option.splits sum.splits)
  have "\<forall>s. m ((p_prefix p @ '':'' @ ns) @ '':'' @ s) \<noteq> None \<longrightarrow> (p_prefix p @ '':'' @ ns) @ '':'' @ s \<in> set ks"
    using s(1) assms(2) unfolding serves_def by (metis append.assoc)
  then have "k \<in> set (sort ks)" using assms(3,4) by (simp add: fullKey_def)
  from get_items_mem [OF s(2) this] assms(2,3) show ?thesis by (auto simp: serves_def)
qed

lemma restored_mem:
  assumes "\<lparr>Short = shortOf k, Value = v\<rparr> \<in> set its" "kd_unmarshal K E v = Inr x" "key_shape K (p_prefix p) k"
  shows "\<lparr>payload = x, key = k\<rparr> \<in> set (restored E K p its)"
  using assms(1) key_shape_full [OF assms(3) refl] assms(2)
  by (induction its) (auto split: sum.split)

context other_kind begin

lemma reload_items_other: "reload_items E K p its a w = (a', w') \<Longrightarrow> kd_get L a' = kd_get L a"
proof (induction its arbitrary: a w)
  case (Cons it its)
  obtain a1 w1 where i: "reload_item E K p it a w = (a1, w1)" by fastforce
  then have "kd_get L a1 = kd_get L a"
    by (auto simp: reload_item_def other_map Let_def split: sum.splits if_splits)
  with Cons i show ?case by simp
qed simp

lemma reloadKind_other: "reloadKindLocked E K p a w = Some (a', w') \<Longrightarrow> kd_get L a' = kd_get L a"
  by (auto simp: reloadKindLocked_def other_frame split: option.splits sum.splits prod.splits
      dest: reload_items_other)

end

text \<open>
  What the theorem asks of the next process: its scan ends before the deadline, without an error, and
  what it finds fits the buffer; and JSON gives the item back, from the record its own process wrote
  or from the one that was read before.
\<close>

definition loads :: "env \<Rightarrow> 'a kind \<Rightarrow> persistence \<Rightarrow> int \<Rightarrow> bool" where
  "loads E K p n \<longleftrightarrow> (\<forall>w. \<exists>its w'. loadKind E p (kd_namespace K) w = Some (Inr its, w') \<and> int (length its) \<le> n)"

definition readable :: "env \<Rightarrow> env \<Rightarrow> 'a kind \<Rightarrow> 'a \<Rightarrow> bool" where
  "readable E E' K x \<longleftrightarrow> (\<forall>v. record_of E K v x \<longrightarrow> kd_unmarshal K E' v = Inr x)"

context kind_access begin

lemma reload_restores:
  assumes "reloadKindLocked E' K p a w = Some (a', w')" "loads E' K p (BufferSize (cfg a))"
    "serves E' m (p_prefix p @ '':'' @ kd_namespace K)" "items (kd_get K a) = []"
    "key_shape K (p_prefix p) (key b)" "m (key b) = Some v" "record_of E K v (payload b)" "readable E E' K (payload b)"
  shows "b \<in> set (items (kd_get K a'))"
proof -
  obtain its w1 where l: "loadKind E' p (kd_namespace K) w = Some (Inr its, w1)" "int (length its) \<le> BufferSize (cfg a)"
    using assms(2) unfolding loads_def by blast
  obtain s where s: "key b = fullKey p (kd_namespace K) s"
    using assms(5) by (auto simp: key_shape_def fullKey_def)
  have it: "\<lparr>Short = shortOf (key b), Value = v\<rparr> \<in> set its"
    using loadKind_mem [where m = m, OF l(1) assms(3,6) s] .
  then have pos: "0 < BufferSize (cfg a)" using l(2) by (cases its) auto
  have r: "reload_items E' K p its a w1 = (a', w')" using assms(1) l(1) by (simp add: reloadKindLocked_def)
  have "length (restored E' K p its) \<le> length its" by (induction its) (auto split: sum.split)
  with reload_items_spec [OF r pos] assms(4) l(2) pos have "items (kd_get K a') = restored E' K p its"
    by (simp add: last_n_def)
  moreover have "kd_unmarshal K E' v = Inr (payload b)" using assms(7,8) by (simp add: readable_def)
  ultimately show ?thesis using restored_mem [OF it _ assms(5)] by (cases b) simp
qed

lemma reloadKind_cfg:
  assumes "reloadKindLocked E K p a w = Some (a', w')"
  shows "cfg a' = cfg a"
proof -
  have "reload_items E K p its b v = (a', w') \<Longrightarrow> cfg a' = cfg b" for its b v
    by (induction its arbitrary: b v)
       (auto simp: reload_item_def Let_def split: prod.splits sum.splits if_splits)
  with assms show ?thesis by (auto simp: reloadKindLocked_def split: option.splits sum.splits prod.splits)
qed

end

lemma Start_reloads:
  assumes "Start E a w = Some (None, a', w')" "\<not> started a" "persist a = Some p"
  obtains b v a2 w2 where "events b = events a" "metrics b = metrics a" "cfg b = cfg a"
    "reloadKindLocked E event_kind p b v = Some (a2, w2)" "reloadKindLocked E metric_kind p a2 w2 = Some (a', w')"
proof -
  let ?b = "a\<lparr>loop_context := Some Background, started := True, startedAt := fst (now E w)\<rparr>"
  have "reloadFromRedisLocked E p ?b (snd (now E w)) = Some (a', w')"
    using assms by (auto simp: Start_def Let_def split: if_splits prod.splits option.splits)
  then obtain a2 w2 where "reloadKindLocked E event_kind p ?b (snd (now E w)) = Some (a2, w2)"
    "reloadKindLocked E metric_kind p a2 w2 = Some (a', w')"
    by (auto simp: reloadFromRedisLocked_def split: option.splits prod.splits)
  then show thesis by (intro that [of ?b]) simp_all
qed

text \<open>The restart, where every key was written once (which theory Keys proves of a clock that advances).\<close>

lemma crash_recovery_once:
  assumes "quiescent a0 w0 (no_flight {#}) (no_flight {#})" and "prefixed pre a0"
    and "(sys_step E)\<^sup>*\<^sup>* (a0, w0, no_flight {#}, no_flight {#}) (a, w, fe, fm)"
    and "cs = drop (length (redis_trace w0)) (redis_trace w)"
    and "written_once m cs" and "truthful m cs (reread fe)" and "truthful m cs (reread fm)"
    and "serves E' (held m cs) (pre @ '':'' @ persistNamespaceEvents)"
    and "serves E' (held m cs) (pre @ '':'' @ persistNamespaceMetrics)"
    and "\<not> started a1" and "persist a1 = Some p1" and "p_prefix p1 = pre"
    and "items (events a1) = []" and "items (metrics a1) = []"
    and "loads E' event_kind p1 (BufferSize (cfg a1))" and "loads E' metric_kind p1 (BufferSize (cfg a1))"
    and "Start E' a1 w1 = Some (None, a', w')"
  shows "(\<forall>b. in_hand event_kind a fe b \<and> key b \<noteq> [] \<and> key b \<notin> done_keys fe \<and> readable E E' event_kind (payload b)
      \<longrightarrow> b \<in> set (items (events a')))
    \<and> (\<forall>c. in_hand metric_kind a fm c \<and> key c \<noteq> [] \<and> key c \<notin> done_keys fm \<and> readable E E' metric_kind (payload c)
      \<longrightarrow> c \<in> set (items (metrics a')))"
proof -
  note sys = rec_sys_reach [OF assms(3) rec_sys_start [OF assms(1,2)]]
  note kept = record_survives [OF sys assms(5) [unfolded assms(4)], folded assms(4)]
  obtain b1 v1 a2 w2 where st: "events b1 = events a1" "metrics b1 = metrics a1" "cfg b1 = cfg a1"
    "reloadKindLocked E' event_kind p1 b1 v1 = Some (a2, w2)" "reloadKindLocked E' metric_kind p1 a2 w2 = Some (a', w')"
    using Start_reloads [OF assms(17,10,11)] .
  have ns: "kd_namespace event_kind = persistNamespaceEvents" "kd_namespace metric_kind = persistNamespaceMetrics"
    "kd_get event_kind = events" "kd_get metric_kind = metrics" by (simp_all add: event_kind_def metric_kind_def)
  have same: "events a' = events a2" "metrics a2 = metrics b1" "cfg a2 = cfg b1"
    using me.reloadKind_other [OF st(5)] em.reloadKind_other [OF st(4)] ek.reloadKind_cfg [OF st(4)]
    by (simp_all add: ns)
  note E = ek.reload_restores [OF st(4), unfolded ns st(1,3) assms(12), OF assms(15,8,13)]
  note M = mk.reload_restores [OF st(5), unfolded ns same st(2,3) assms(12), OF assms(16,9,14)]
  show ?thesis
  proof (intro conjI allI impI; elim conjE)
    fix b assume b: "in_hand event_kind a fe b" "key b \<noteq> []" "key b \<notin> done_keys fe" "readable E E' event_kind (payload b)"
    from kept(1) [OF b(1-3) assms(6)] E [OF _ _ _ b(4)] show "b \<in> set (items (events a'))"
      unfolding same(1) by blast
  next
    fix c assume c: "in_hand metric_kind a fm c" "key c \<noteq> []" "key c \<notin> done_keys fm" "readable E E' metric_kind (payload c)"
    from kept(2) [OF c(1-3) assms(7)] M [OF _ _ _ c(4)] show "c \<in> set (items (metrics a'))" by blast
  qed
qed

section \<open>A key returned twice\<close>

lemma get_items_count:
  assumes "get_items E d fulls w = (Inr its, w')" "\<forall>t. redis_Get E t k = RVal v"
  shows "count_list fulls k \<le> count_list its \<lparr>Short = shortOf k, Value = v\<rparr>"
  using assms(1)
proof (induction fulls arbitrary: w its w')
  case (Cons full rest)
  from Cons.prems show ?case
  proof (cases rule: get_items_ConsE)
    case gone
    with assms(2) have "full \<noteq> k" by auto
    with Cons.IH [OF gone(2)] show ?thesis by simp
  next
    case (got u its1)
    with assms(2) Cons.IH [OF got(2)] show ?thesis by auto
  qed
qed simp

lemma restored_count:
  assumes "kd_unmarshal K E v = Inr x" "key_shape K (p_prefix p) k"
  shows "count_list its \<lparr>Short = shortOf k, Value = v\<rparr> \<le> count_list (restored E K p its) \<lparr>payload = x, key = k\<rparr>"
  using assms(1) key_shape_full [OF assms(2) refl] by (induction its) (auto split: sum.split)

lemma count_list_sort: "count_list (sort xs) x = count_list xs x"
  by (simp add: count_mset [symmetric])

text \<open>Redis documents that SCAN may return a key several times; the load does not remove the copies, so that
  the record is read, buffered and sent as often as its key came.\<close>

theorem reload_scan_duplicates:
  assumes "scan_loop E (fst (now E w) + scanTimeout) (p_prefix p @ '':'' @ persistNamespaceEvents @ '':*'') [] 0
      (snd (now E w)) = Some (Inr ks, w1)"
    and "loadKind E p persistNamespaceEvents w = Some (Inr its, w2)"
    and "reloadKindLocked E event_kind p a w = Some (a', w')"
    and "key_shape event_kind (p_prefix p) k" and "\<forall>t. redis_Get E t k = RVal v" and "unmarshal_event E v = Inr x"
    and "0 < BufferSize (cfg a)" and "int (length (items (events a)) + length its) \<le> BufferSize (cfg a)"
  shows "count_list ks k \<le> count_list (items (events a')) \<lparr>payload = x, key = k\<rparr>"
proof -
  have g: "get_items E (fst (now E w) + scanTimeout) (sort ks) w1 = (Inr its, w2)"
    using assms(1,2) by (simp add: loadKind_def Let_def split_beta)
  have r: "reload_items E event_kind p its a w2 = (a', w')"
    using assms(2,3) by (simp add: reloadKindLocked_def event_kind_def)
  have "length (restored E event_kind p its) \<le> length its" by (induction its) (auto split: sum.split)
  with ek.reload_items_spec [OF r assms(7)] assms(8)
  have i: "items (events a') = items (events a) @ restored E event_kind p its"
    by (simp add: event_kind_def last_n_def)
  have u: "kd_unmarshal event_kind E v = Inr x" using assms(6) by (simp add: event_kind_def)
  from get_items_count [OF g assms(5)] restored_count [OF u assms(4), of its]
  show ?thesis by (simp add: i count_list_sort)
qed

section \<open>A crash and a restart\<close>

definition durable_agent :: agent where
  "durable_agent = sample_agent\<lparr>persist := Some sample_persistence\<rparr>"

text \<open>A Redis server that holds one record of an event.\<close>

definition one_record :: "env \<Rightarrow> gostring \<Rightarrow> gostring \<Rightarrow> env" where
  "one_record E k v = E\<lparr>redis_Scan := (\<lambda>t c p. Inr (if p = fullKey sample_persistence persistNamespaceEvents ''*'' then [k] else [], 0)),
     redis_Get := (\<lambda>t q. if q = k then RVal v else RNil)\<rparr>"

lemma durable_simps:
  "BufferSize (cfg durable_agent) = 100" "items (events durable_agent) = []" "items (metrics durable_agent) = []"
  "persist durable_agent = Some sample_persistence" "\<not> started durable_agent" "\<not> closed durable_agent"
  by (simp_all add: durable_agent_def sample_agent_def new_agent_def empty_kstate_def sample_simps)

lemma one_record_scan:
  "deadline > clock w \<Longrightarrow> scan_loop (one_record E k v) deadline pat [] 0 w
    = Some (Inr (if pat = fullKey sample_persistence persistNamespaceEvents ''*'' then [k] else []), observe (one_record E k v) w)"
  by (simp add: scan_loop.simps one_record_def)

lemma one_record_serves:
  assumes "k = fullKey sample_persistence persistNamespaceEvents s"
    and "ns = persistNamespaceEvents \<or> ns = persistNamespaceMetrics"
  shows "serves (one_record E k v) [k \<mapsto> v] (p_prefix sample_persistence @ '':'' @ ns)"
  unfolding serves_def
proof (intro conjI allI impI)
  fix d w ks w' s'
  let ?pre = "p_prefix sample_persistence @ '':'' @ ns"
  assume l: "scan_loop (one_record E k v) d (?pre @ '':*'') [] 0 w = Some (Inr ks, w')"
    and m: "[k \<mapsto> v] (?pre @ '':'' @ s') \<noteq> None"
  have k: "?pre @ '':'' @ s' = k" using m by (simp split: if_splits)
  with assms have "ns = persistNamespaceEvents" by (auto simp: fullKey_def)
  then have "?pre @ '':*'' = fullKey sample_persistence persistNamespaceEvents ''*''" by (simp add: fullKey_def)
  moreover have "clock w < d" using l by (cases "d \<le> clock w") (simp_all add: scan_loop.simps)
  ultimately have "ks = [k]" using l one_record_scan [of w d E k v "?pre @ '':*''"] by simp
  with k show "?pre @ '':'' @ s' \<in> set ks" by simp
next
  fix t q u
  assume "[k \<mapsto> v] q = Some u"
  then show "redis_Get (one_record E k v) t q = RVal u \<or> (\<exists>err. redis_Get (one_record E k v) t q = RErr err)"
    by (simp add: one_record_def split: if_splits)
qed

lemma one_record_loads:
  assumes "elapsed E = (\<lambda>t. 1)"
  shows "loads (one_record E k v) K sample_persistence 100"
  unfolding loads_def
proof
  fix w
  have t: "elapsed (one_record E k v) = (\<lambda>t. 1)" "redis_Get (one_record E k v) t k = RVal v" for t
    by (simp_all add: one_record_def assms)
  show "\<exists>its w'. loadKind (one_record E k v) sample_persistence (kd_namespace K) w = Some (Inr its, w') \<and> int (length its) \<le> 100"
    by (simp add: loadKind_def now_def Let_def one_record_scan t)
qed

text \<open>A server whose scan returns the only key twice.\<close>

definition scanned_key :: gostring where
  "scanned_key = fullKey sample_persistence persistNamespaceEvents ''a''"

definition two_scans :: env where
  "two_scans = calm\<lparr>redis_Scan := (\<lambda>t c p. Inr ([scanned_key, scanned_key], 0)),
     redis_Get := (\<lambda>t q. RVal []), unmarshal_event := (\<lambda>s. Inr sample_event)\<rparr>"

theorem reload_scan_duplicates_witness:
  "\<exists>a' w'. reloadKindLocked two_scans event_kind sample_persistence durable_agent start = Some (a', w')
    \<and> 2 \<le> count_list (items (events a')) \<lparr>payload = sample_event, key = scanned_key\<rparr>"
proof -
  have ns: "kd_namespace event_kind = persistNamespaceEvents" by (simp add: event_kind_def)
  let ?it = "\<lparr>Short = ''a'', Value = []\<rparr>"
  have sc: "scan_loop two_scans (fst (now two_scans start) + scanTimeout)
      (p_prefix sample_persistence @ '':'' @ persistNamespaceEvents @ '':*'') [] 0 (snd (now two_scans start))
      = Some (Inr [scanned_key, scanned_key], observe two_scans (snd (now two_scans start)))"
    by (simp add: scan_loop.simps now_def Let_def two_scans_def calm_def)
  have sh: "key_shape event_kind (p_prefix sample_persistence) scanned_key" "shortOf scanned_key = ''a''"
    using fullKey_shape [of sample_persistence "p_prefix sample_persistence" "''a''" event_kind]
      keys.short_full [of "''a''" sample_persistence persistNamespaceEvents]
    by (simp_all add: scanned_key_def ns colon_free_def)
  obtain w2 where l: "loadKind two_scans sample_persistence persistNamespaceEvents start = Some (Inr [?it, ?it], w2)"
    using sc sh(2) by (simp add: loadKind_def now_def Let_def two_scans_def calm_def)
  obtain a' w' where r: "reloadKindLocked two_scans event_kind sample_persistence durable_agent start = Some (a', w')"
    using l by (simp add: reloadKindLocked_def ns del: reload_items.simps) (metis prod.collapse)
  have "\<forall>t. redis_Get two_scans t scanned_key = RVal []" "unmarshal_event two_scans [] = Inr sample_event"
    by (simp_all add: two_scans_def)
  from reload_scan_duplicates [OF sc l r sh(1) this] r show ?thesis by (simp add: durable_simps)
qed

end
