(* ===== verification/Keys.thy ===== *)
theory Keys
  imports Recovery
begin

text \<open>
  No key is written twice. A key holds the instant of its write in nanoseconds; where every reading of the
  clock is later than the one before, the keys of a process are different from each other and from the
  keys of the processes before it, which is what the recovery after a crash asks for.
\<close>

section \<open>The stamp of a key\<close>

definition stamped :: "'a kind \<Rightarrow> gostring \<Rightarrow> gostring \<Rightarrow> int \<Rightarrow> bool" where
  "stamped K pre k n \<longleftrightarrow> (\<exists>hex. k = pre @ '':'' @ kd_namespace K @ '':'' @ short_text (kd_name K) n hex)"

lemma digit_not_underscore: "is_digit c \<Longrightarrow> c \<noteq> CHR ''_''"
  by (auto simp: is_digit_def byte_in_def)

lemma Itoa_no_underscore: "CHR ''_'' \<notin> set (Itoa n)"
proof -
  have "CHR ''_'' \<notin> set (show_nat m)" for m
    using show_nat_digits [of m] digit_not_underscore by (auto simp: list_all_iff)
  then show ?thesis by (simp add: Itoa_def)
qed

lemma Itoa_inject: "Itoa m = Itoa n \<longleftrightarrow> m = n"
proof
  assume e: "Itoa m = Itoa n"
  have hd: "hd (show_nat k) \<noteq> CHR ''-''" for k
    using hd_show_nat [of k] by (auto simp: is_digit_def byte_in_def)
  have inj: "show_nat i = show_nat j \<Longrightarrow> i = j" for i j by (metis digits_val_show_nat)
  from e hd show "m = n"
    by (auto simp: Itoa_def dest!: inj split: if_splits) (metis list.sel(1))+
qed simp

lemma stamped_unique: "stamped K pre k m \<Longrightarrow> stamped K pre k n \<Longrightarrow> m = n"
proof -
  have split: "takeWhile (\<lambda>c. c \<noteq> CHR ''_'') (Itoa i @ CHR ''_'' # h) = Itoa i" for i h
    using Itoa_no_underscore [of i] by (subst takeWhile_append2) auto
  assume "stamped K pre k m" "stamped K pre k n"
  then obtain g h where "Itoa m @ CHR ''_'' # g = Itoa n @ CHR ''_'' # h"
    by (auto simp: stamped_def short_text_def)
  with split have "Itoa m = Itoa n" by metis
  then show "m = n" by (simp add: Itoa_inject)
qed

lemma stamped_kinds: "stamped event_kind pre k m \<Longrightarrow> \<not> stamped metric_kind pre k n"
  by (auto simp: stamped_def event_kind_def metric_kind_def)

definition stamped_any :: "gostring \<Rightarrow> gostring \<Rightarrow> int \<Rightarrow> bool" where
  "stamped_any pre k n \<longleftrightarrow> stamped event_kind pre k n \<or> stamped metric_kind pre k n"

lemma stamped_any_unique: "stamped_any pre k m \<Longrightarrow> stamped_any pre k n \<Longrightarrow> m = n"
  using stamped_unique stamped_kinds unfolding stamped_any_def by metis

section \<open>What a step writes\<close>

text \<open>The commands a step adds: at most one write, under a key stamped in between.\<close>

definition adds :: "gostring \<Rightarrow> world \<Rightarrow> world \<Rightarrow> bool" where
  "adds pre w w' \<longleftrightarrow> (\<exists>cs. redis_trace w' = redis_trace w @ cs \<and> (set_keys cs = []
     \<or> (\<exists>k t. set_keys cs = [k] \<and> stamped_any pre k (UnixNano t) \<and> clock w < t \<and> t \<le> clock w')))"

lemma adds_same: "redis_trace w' = redis_trace w \<Longrightarrow> adds pre w w'"
  by (simp add: adds_def)

lemma adds_key:
  assumes "redis_trace w' = redis_trace w @ [RSet k d ttl r]" "stamped_any pre k (UnixNano t)"
    "clock w < t" "t \<le> clock w'"
  shows "adds pre w w'"
  unfolding adds_def using assms by (intro exI [of _ "[RSet k d ttl r]"]) auto

lemma adds_del: "adds pre w (del E ks w)"
  by (cases ks) (simp_all add: adds_def del_def redis_write_def)

lemma adds_confirm: "confirmKeys E ks a w = (a', w') \<Longrightarrow> adds pre w w'"
  by (auto simp: confirmKeys_def adds_same adds_del split: if_splits)

lemma reserveKey_adds:
  assumes "reserveKeyLocked E K x a w = (k, a', w')" "prefixed pre a" "timely E"
    and K: "\<And>h n. stamped K pre h n \<Longrightarrow> stamped_any pre h n"
  shows "adds pre w w'"
proof (cases "\<exists>data. kd_marshal K E x = Inr data")
  case True
  then obtain data where d: "kd_marshal K E x = Inr data" ..
  from assms(2) obtain p where p: "persist a = Some p" "p_prefix p = pre" by (auto simp: prefixed_def)
  obtain s w1 where s: "shortKey E (kd_name K) w = (s, w1)" by fastforce
  obtain ok p1 w2 where st: "store E p (fullKey p (kd_namespace K) s) data w1 = (ok, p1, w2)" by (metis prod.collapse)
  have w2: "w' = w2" using assms(1) p d s st
    by (auto simp: reserveKeyLocked_def persistItemLocked_def Let_def split: if_splits)
  obtain hex where hx: "s = short_text (kd_name K) (UnixNano (clock (observe E w))) hex"
    and o1: "later (observe E w) w1"
    using s later_steps(6) [of "observe E w" E 4]
    by (auto simp: shortKey_def now_def Let_def split: prod.splits)
  have "stamped K pre (fullKey p (kd_namespace K) s) (UnixNano (clock (observe E w)))"
    unfolding stamped_def fullKey_def hx p(2) by blast
  note key = K [OF this]
  have "redis_trace w1 = redis_trace w" using shortKey_redis [of E "kd_name K" w] s by simp
  moreover have "clock w < clock (observe E w)" using assms(3) by (simp add: timely_def)
  moreover have "clock (observe E w) \<le> clock w2"
    using later_trans [OF o1 store_later [OF st]] by (simp add: later_def)
  ultimately show ?thesis using key unfolding w2
    by (cases rule: store_cases [OF st]) (auto intro: adds_same adds_key)
next
  case False
  with assms(1,2) show ?thesis
    by (auto simp: reserveKeyLocked_def prefixed_def adds_same split: sum.splits)
qed

lemma enqueue_adds:
  assumes "enqueue_locked E K x a w = (r, a', w')" "prefixed pre a" "timely E" "kind_access K"
    and K: "\<And>h n. stamped K pre h n \<Longrightarrow> stamped_any pre h n"
  shows "adds pre w w'"
proof -
  have "appendLocked E K x b w = (nf, a', w') \<Longrightarrow> persist b = persist a \<Longrightarrow> adds pre w w'" for b nf
    using reserveKey_adds [OF _ _ assms(3) K, of K x b w] assms(2)
    by (auto simp: appendLocked_def Let_def prefixed_def split: prod.splits)
  then show ?thesis
    using assms(1) kind_access.map_frame(2) [OF assms(4)]
    by (auto simp: enqueue_locked_def adds_same split: if_splits list.splits prod.splits)
qed

context kind_access begin

lemma kstep_adds:
  assumes "kstep E K (a, w, f) (a', w', f')" "prefixed pre a" "timely E"
    and K: "\<And>h n. stamped K pre h n \<Longrightarrow> stamped_any pre h n"
  shows "adds pre w w'"
  using assms(1)
proof (cases rule: kstep.cases)
  case (enqueue x r nf ks)
  from enqueue_adds [OF enqueue(2) assms(2,3) kind_access_axioms K] show ?thesis .
next
  case (drain force d)
  from drain_redis [OF drain(2)] show ?thesis by (rule adds_same)
next
  case (fail d)
  with settle_failed_frame show ?thesis by (simp add: adds_same)
next
  case (confirm ks)
  with adds_confirm show ?thesis by blast
next
  case (reload p it)
  then show ?thesis by (auto simp: reload_item_def adds_same adds_del Let_def split: sum.splits if_splits)
qed (simp_all add: adds_same)

lemma kstep_later:
  assumes "kstep E K (a, w, f) (a', w', f')"
  shows "later w w'"
  using assms
proof (cases rule: kstep.cases)
  case (enqueue x r nf ks)
  then show ?thesis by (blast intro: enqueue_locked_later)
next
  case (drain force d)
  then show ?thesis by (blast intro: drain_later)
next
  case (fail d)
  then show ?thesis by (blast intro: settle_failed_later)
next
  case (confirm ks)
  then show ?thesis by (blast intro: confirmKeys_later)
next
  case (reload p it)
  then show ?thesis by (blast intro: reload_item_later)
qed simp_all

end

section \<open>What a run writes\<close>

definition fresh_keys :: "gostring \<Rightarrow> world \<Rightarrow> world \<Rightarrow> redis_cmd list \<Rightarrow> bool" where
  "fresh_keys pre w w' cs \<longleftrightarrow> distinct (set_keys cs)
     \<and> (\<forall>k \<in> set (set_keys cs). \<exists>t. stamped_any pre k (UnixNano t) \<and> clock w < t \<and> t \<le> clock w')"

lemma set_keys_append: "set_keys (cs @ ds) = set_keys cs @ set_keys ds"
  by (simp add: set_keys_def)

text \<open>The instants a key can tell apart: those whose Unix time in nanoseconds is an \<open>int64\<close>.\<close>

definition in_unix_nano :: "gotime \<Rightarrow> bool" where
  "in_unix_nano t \<longleftrightarrow> min_int64 \<le> t - unix_epoch \<and> t - unix_epoch \<le> max_int64"

lemma UnixNano_exact: "in_unix_nano t \<Longrightarrow> UnixNano t = t - unix_epoch"
  by (simp add: UnixNano_def in_unix_nano_def)

lemma fresh_keys_stamp:
  assumes "fresh_keys pre w w' cs" "in_unix_nano (clock w)" "in_unix_nano (clock w')" "k \<in> set (set_keys cs)"
    "stamped_any pre k n"
  shows "UnixNano (clock w) < n \<and> n \<le> UnixNano (clock w')"
proof -
  from assms(1,4) obtain t where t: "stamped_any pre k (UnixNano t)" "clock w < t" "t \<le> clock w'"
    unfolding fresh_keys_def by blast
  with assms(2,3) have "in_unix_nano t" unfolding in_unix_nano_def by linarith
  with stamped_any_unique [OF assms(5) t(1)] t assms(2,3) show ?thesis by (simp add: UnixNano_exact)
qed

lemma fresh_keys_add:
  assumes "fresh_keys pre w w1 cs" "adds pre w1 w2" "redis_trace w2 = redis_trace w1 @ ds" "later w1 w2" "later w w1"
    and "in_unix_nano (clock w)" "in_unix_nano (clock w2)"
  shows "fresh_keys pre w w2 (cs @ ds)"
proof -
  have c: "clock w1 \<le> clock w2" "clock w \<le> clock w1" using assms(4,5) by (simp_all add: later_def)
  with assms(6,7) have r: "in_unix_nano (clock w1)" unfolding in_unix_nano_def by linarith
  have old: "\<forall>k \<in> set (set_keys cs). \<exists>t. stamped_any pre k (UnixNano t) \<and> clock w < t \<and> t \<le> clock w2"
    using assms(1) c(1) unfolding fresh_keys_def by (blast intro: order_trans)
  show ?thesis
  proof (cases "set_keys ds = []")
    case True
    with assms(1) old show ?thesis by (simp add: fresh_keys_def set_keys_append)
  next
    case False
    with assms(2,3) obtain k t where k: "set_keys ds = [k]" "stamped_any pre k (UnixNano t)" "clock w1 < t" "t \<le> clock w2"
      unfolding adds_def by auto
    from k(3,4) r assms(7) have rt: "in_unix_nano t" unfolding in_unix_nano_def by linarith
    have "k \<notin> set (set_keys cs)"
    proof
      assume "k \<in> set (set_keys cs)"
      from fresh_keys_stamp [OF assms(1,6) r this k(2)] k(3) rt r show False by (simp add: UnixNano_exact)
    qed
    moreover have "clock w < t" using c(2) k(3) by linarith
    ultimately show ?thesis using assms(1) old k(1,2,4) by (auto simp: fresh_keys_def set_keys_append)
  qed
qed

section \<open>A step of the agent\<close>

lemma sys_step_keys:
  assumes "sys_step E s s'" "prefixed pre (fst s)" "timely E"
  shows "prefixed pre (fst s') \<and> adds pre (fst (snd s)) (fst (snd s')) \<and> later (fst (snd s)) (fst (snd s'))"
  using assms(1,2)
proof (induction rule: sys_step.induct)
  case (event_step a w fe a' w' fe' fm)
  then show ?case
    using ek.kstep_adds [OF event_step(1) _ assms(3)] ek.kstep_later [OF event_step(1)] er.kstep_prefix [OF event_step(1)]
    by (auto simp: prefixed_def stamped_any_def)
next
  case (metric_step a w fm a' w' fm' fe)
  then show ?case
    using mk.kstep_adds [OF metric_step(1) _ assms(3)] mk.kstep_later [OF metric_step(1)] mr.kstep_prefix [OF metric_step(1)]
    by (auto simp: prefixed_def stamped_any_def)
next
  case (worker a ks rest w fe fm)
  then show ?case by (simp add: prefixed_def adds_del del_later)
next
  case (other a w a' w' fe fm)
  then show ?case by (auto simp: same_buffers_def prefixed_def adds_same)
qed

lemma sys_reach_keys:
  assumes "(sys_step E)\<^sup>*\<^sup>* (a0, w0, fe0, fm0) s" "prefixed pre a0" "timely E" "in_unix_nano (clock w0)"
  shows "prefixed pre (fst s) \<and> later w0 (fst (snd s)) \<and> (\<exists>cs. redis_trace (fst (snd s)) = redis_trace w0 @ cs)
    \<and> (in_unix_nano (clock (fst (snd s)))
       \<longrightarrow> fresh_keys pre w0 (fst (snd s)) (drop (length (redis_trace w0)) (redis_trace (fst (snd s)))))"
  using assms(1)
proof (induction rule: rtranclp_induct)
  case base
  with assms show ?case by (simp add: fresh_keys_def set_keys_def)
next
  case (step s s')
  from step.IH obtain cs where s: "prefixed pre (fst s)" "later w0 (fst (snd s))"
    "redis_trace (fst (snd s)) = redis_trace w0 @ cs"
    "in_unix_nano (clock (fst (snd s))) \<longrightarrow> fresh_keys pre w0 (fst (snd s)) cs" by auto
  note n = sys_step_keys [OF step(2) s(1) assms(3)]
  then obtain ds where ds: "redis_trace (fst (snd s')) = redis_trace (fst (snd s)) @ ds" unfolding adds_def by blast
  have "fresh_keys pre w0 (fst (snd s')) (cs @ ds)" if r: "in_unix_nano (clock (fst (snd s')))"
  proof -
    have "in_unix_nano (clock (fst (snd s)))"
      using r n s(2) assms(4) unfolding in_unix_nano_def later_def by linarith
    with s(4) have "fresh_keys pre w0 (fst (snd s)) cs" by blast
    from fresh_keys_add [OF this _ ds _ s(2) assms(4) r] n show ?thesis by blast
  qed
  with n s(2,3) ds later_trans show ?case by auto
qed

lemma fresh_keys_once:
  assumes "fresh_keys pre w0 w cs" "in_unix_nano (clock w0)" "in_unix_nano (clock w)"
    and "\<forall>k \<in> dom m. \<forall>n. stamped_any pre k n \<longrightarrow> n \<le> UnixNano (clock w0)"
  shows "written_once m cs"
  unfolding written_once_def
proof
  show "distinct (set_keys cs)" using assms(1) by (simp add: fresh_keys_def)
  show "set (set_keys cs) \<inter> dom m = {}"
  proof (rule ccontr)
    assume "set (set_keys cs) \<inter> dom m \<noteq> {}"
    then obtain k where k: "k \<in> set (set_keys cs)" "k \<in> dom m" by blast
    with assms(1) obtain n where n: "stamped_any pre k n" unfolding fresh_keys_def by blast
    from fresh_keys_stamp [OF assms(1-3) k(1) n] assms(4) k(2) n show False by fastforce
  qed
qed

section \<open>The keys of a process\<close>

text \<open>C4. No key is written twice: where every reading of the clock is later than the one before and its Unix
  time in nanoseconds is an \<open>int64\<close>, the records that a process writes have keys different from each other
  and from every key that was stamped before the process began.\<close>

theorem keys_written_once:
  assumes "(sys_step E)\<^sup>*\<^sup>* (a0, w0, fe0, fm0) (a, w, fe, fm)" and "prefixed pre a0" and "timely E"
    and "in_unix_nano (clock w0)" and "in_unix_nano (clock w)"
    and "\<forall>k \<in> dom m. \<forall>n. stamped_any pre k n \<longrightarrow> n \<le> UnixNano (clock w0)"
  shows "written_once m (drop (length (redis_trace w0)) (redis_trace w))"
  using sys_reach_keys [OF assms(1-4)] assms(5) fresh_keys_once [OF _ assms(4-6)] by auto

text \<open>Nothing persisted is lost in a crash: whatever the goroutines did, when the process dies every item that
  is in a buffer or in a batch not yet settled and carries a key is put back into its buffer, under
  that key, by the \<open>Start\<close> of a new process on the same Redis, unless something under its key was already
  done with. The clock must advance between two readings (a key holds the instant of its write), the new process must
  get through its scans, and the records must fit its buffers.\<close>

theorem crash_recovery:
  assumes "quiescent a0 w0 (no_flight {#}) (no_flight {#})" and "prefixed pre a0"
    and "(sys_step E)\<^sup>*\<^sup>* (a0, w0, no_flight {#}, no_flight {#}) (a, w, fe, fm)"
    and "cs = drop (length (redis_trace w0)) (redis_trace w)"
    and "timely E" and "in_unix_nano (clock w0)" and "in_unix_nano (clock w)"
    and "\<forall>k \<in> dom m. \<forall>n. stamped_any pre k n \<longrightarrow> n \<le> UnixNano (clock w0)"
    and "truthful m cs (reread fe)" and "truthful m cs (reread fm)"
    and "serves E' (held m cs) (pre @ '':'' @ persistNamespaceEvents)"
    and "serves E' (held m cs) (pre @ '':'' @ persistNamespaceMetrics)"
    and "\<not> started a1" and "persist a1 = Some p1" and "p_prefix p1 = pre"
    and "items (events a1) = []" and "items (metrics a1) = []"
    and "loads E' event_kind p1 (BufferSize (cfg a1))" and "loads E' metric_kind p1 (BufferSize (cfg a1))"
    and "Start E' a1 w1 = Some (None, a', w')"
  shows "(\<forall>b. in_hand event_kind a fe b \<and> key b \<noteq> [] \<and> key b \<notin> done_keys fe \<and> readable E E' event_kind (payload b)
      \<longrightarrow> b \<in> set (items (events a')))
    \<and> (\<forall>c. in_hand metric_kind a fm c \<and> key c \<noteq> [] \<and> key c \<notin> done_keys fm \<and> readable E E' metric_kind (payload c)
      \<longrightarrow> c \<in> set (items (metrics a')))"
proof -
  have "written_once m cs"
    using sys_reach_keys [OF assms(3,2,5,6)] assms(4,7) fresh_keys_once [OF _ assms(6-8)] by auto
  from crash_recovery_once [OF assms(1-4) this assms(9-20)] show ?thesis .
qed

section \<open>A process that crashes after one event\<close>

definition epoch_start :: world where
  "epoch_start = start\<lparr>clock := unix_epoch\<rparr>"

lemma durable_enqueue:
  assumes E: "elapsed E = elapsed calm" "entropy E = entropy calm" "redis_Set E = redis_Set calm"
    and j: "jsonMarshal E (JEvent sample_event) = Inr v"
  shows "\<exists>nf a w s d. enqueue_locked E event_kind sample_event durable_agent epoch_start = ((Enqueued, nf, []), a, w)
    \<and> items (events a) = [\<lparr>payload = sample_event, key = fullKey sample_persistence persistNamespaceEvents s\<rparr>]
    \<and> redis_trace w = [RSet (fullKey sample_persistence persistNamespaceEvents s) v d None] \<and> in_unix_nano (clock w)"
proof -
  obtain s w1 where s: "shortKey E ''event'' epoch_start = (s, w1)" by fastforce
  have w0: "redis_trace epoch_start = []" "clock epoch_start = unix_epoch" by (simp_all add: epoch_start_def start_def)
  have sk: "clock (snd (shortKey E k w)) \<le> clock w + 5" for k w
    by (simp add: shortKey_def now_def Let_def gen_randomHex_def E calm_def split_beta)
  have w1: "redis_trace w1 = []" "unix_epoch \<le> clock w1" "clock w1 \<le> unix_epoch + 5"
    using shortKey_redis [of E "''event''" epoch_start] shortKey_later [of epoch_start E "''event''"]
      sk [of "''event''" epoch_start] unfolding s snd_conv w0 by (simp_all add: later_def w0)
  let ?k = "fullKey sample_persistence persistNamespaceEvents s" and ?p = "sample_persistence"
  let ?w = "redis_write E (RSet ?k v (p_ttl ?p) None) (snd (now E w1))"
  have "store E ?p ?k v w1 = (True, ?p\<lparr>consecutiveFailures := 0\<rparr>, ?w)"
    using w1(2) by (simp add: store_def storeAvailable_def now_def Let_def sample_persistence_def E calm_def)
  then have "\<exists>nf a. enqueue_locked E event_kind sample_event durable_agent epoch_start = ((Enqueued, nf, []), a, ?w)
      \<and> items (events a) = [\<lparr>payload = sample_event, key = ?k\<rparr>]"
    by (simp add: enqueue_locked_def appendLocked_def reserveKeyLocked_def persistItemLocked_def durable_simps Let_def
        event_kind_def s j)
  moreover have "redis_trace ?w = [RSet ?k v (p_ttl ?p) None]" "in_unix_nano (clock ?w)"
    using w1 by (simp_all add: redis_write_def now_def Let_def E calm_def in_unix_nano_def)
  ultimately show ?thesis by blast
qed

theorem keys_written_once_witness:
  "\<exists>w :: world. set_keys (redis_trace w) \<noteq> [] \<and> written_once Map.empty (drop (length (redis_trace epoch_start)) (redis_trace w))"
proof -
  obtain nf a w s d where e: "enqueue_locked calm event_kind sample_event durable_agent epoch_start = ((Enqueued, nf, []), a, w)"
    and it: "redis_trace w = [RSet (fullKey sample_persistence persistNamespaceEvents s) [] d None]" "in_unix_nano (clock w)"
    using durable_enqueue [of calm "[]"] by (auto simp: calm_def)
  have r: "(sys_step calm)\<^sup>*\<^sup>* (durable_agent, epoch_start, no_flight {#}, no_flight {#})
      (a, w, after_enqueue event_kind Enqueued [] durable_agent a (no_flight {#}), no_flight {#})"
    using sys_step.event_step [OF kstep.enqueue [OF e]] by blast
  have p: "prefixed (p_prefix sample_persistence) durable_agent" by (simp add: prefixed_def durable_simps)
  have "timely calm" "in_unix_nano (clock epoch_start)"
    by (simp_all add: timely_def calm_def in_unix_nano_def epoch_start_def)
  from keys_written_once [OF r p this it(2)] have "written_once Map.empty (drop (length (redis_trace epoch_start)) (redis_trace w))"
    by simp
  with it(1) show ?thesis by (intro exI [of _ w]) simp
qed

end
