(* ===== verification/Fit.thy ===== *)
theory Fit
  imports Keys
begin

text \<open>
  What stays true of the clocks inside the agent, whatever is called and however the servers answer: the limiter
  and the breaker remember no instant of the future, they keep their parameters, and a buffer is
  gated for at most five minutes. Every operation of the transport and of the agent preserves it.
\<close>

section \<open>The transport\<close>

definition fit :: "transport \<Rightarrow> world \<Rightarrow> bool" where
  "fit t w \<longleftrightarrow> maxCalls (limiter t) = defaultLimiterMaxCalls \<and> window (limiter t) = defaultLimiterWindow
     \<and> (\<forall>u \<in> set (calls (limiter t)). u \<le> clock w)
     \<and> recoveryTimeout (breaker t) = breakerRecoveryTimeout
     \<and> (cstate (breaker t) = circuitOpen \<longrightarrow> openedAt (breaker t) \<le> clock w)"

text \<open>A step that takes a fit transport to a fit one.\<close>

definition fits :: "transport \<Rightarrow> world \<Rightarrow> transport \<Rightarrow> world \<Rightarrow> bool" where
  "fits t w t' w' \<longleftrightarrow> later w w' \<and> (fit t w \<longrightarrow> fit t' w')"

lemma fit_later: "fit t w \<Longrightarrow> later w w' \<Longrightarrow> fit t w'"
  by (fastforce simp: fit_def later_def)

lemma fits_later: "later w w' \<Longrightarrow> fits t w t w'"
  by (simp add: fits_def fit_later)

lemma fits_refl [simp, intro]: "fits t w t w"
  by (simp add: fits_later)

lemma fits_trans [trans]: "fits t u t' v \<Longrightarrow> fits t' v t'' w \<Longrightarrow> fits t u t'' w"
  by (auto simp: fits_def intro: later_trans)

lemma fit_counts [simp]: "fit (bump_failed t) w = fit t w" "fit (bump_sent t) w = fit t w"
  by (simp_all add: fit_def bump_failed_def bump_sent_def)

lemma fits_counts [simp]:
  "fits t w (bump_failed t') w' = fits t w t' w'" "fits t w (bump_sent t') w' = fits t w t' w'"
  "fits (bump_failed t) w t' w' = fits t w t' w'"
  by (simp_all add: fits_def)

lemma fit_Acquire: "Acquire tm (limiter t) = (ok, l) \<Longrightarrow> tm = clock w \<Longrightarrow> fit t w \<Longrightarrow> fit (t\<lparr>limiter := l\<rparr>) w"
  by (auto simp: fit_def Acquire_def pruneLocked_def Let_def split: if_splits)

lemma fit_Admit: "Admit tm (breaker t) = (r, cb) \<Longrightarrow> fit t w \<Longrightarrow> fit (t\<lparr>breaker := cb\<rparr>) w"
  by (auto simp: fit_def Admit_def split: circuitState.splits if_splits)

lemma fit_Success [simp]: "fit t w \<Longrightarrow> fit (t\<lparr>breaker := Success (breaker t)\<rparr>) w"
  by (simp add: fit_def Success_def)

lemma fits_Success [simp]: "fits t w (t\<lparr>breaker := Success (breaker t)\<rparr>) w"
  by (simp add: fits_def)

lemma fit_Failure: "fit t w \<Longrightarrow> fit (t\<lparr>breaker := Failure (clock w) (breaker t)\<rparr>) w"
  by (simp add: fit_def Failure_def Let_def)

lemma breaker_Failure_fits: "breaker_Failure E t w = (t', w') \<Longrightarrow> fits t w t' w'"
  by (auto simp: breaker_Failure_def fits_def split: prod.splits dest!: now_later intro: fit_Failure fit_later)

lemma limiterGate_fits:
  assumes "limiterGate E c attempt what t w = (r, t', w')"
  shows "fits t w t' w'"
proof -
  obtain tm w1 where n: "now E w = (tm, w1)" by fastforce
  obtain ok l where a: "Acquire tm (limiter t) = (ok, l)" by fastforce
  have w1: "later w w1" "tm = clock w1" using now_later [OF n] by simp_all
  have t': "t' = t\<lparr>limiter := l\<rparr>" using assms
    by (auto simp: limiterGate_def n a Let_def split: if_splits prod.splits)
  have w': "later w1 w'"
  proof (cases ok)
    case False
    obtain tm2 w2 where n2: "now E w1 = (tm2, w2)" by fastforce
    obtain slept w3 where s: "sleepCtx E c (RetryAfter tm2 l) w2 = (slept, w3)" by fastforce
    have "later w1 w2" using now_later [OF n2] by simp
    also have "later w2 w3" using later_steps(4) [of w2 E c "RetryAfter tm2 l"] s by simp
    finally have w3: "later w1 w3" .
    also have "later w3 (snd (ctx_Err E c w3))" by (rule later_steps)
    finally show ?thesis using assms False w3
      by (auto simp: limiterGate_def n a n2 s Let_def split: if_splits prod.splits)
  qed (use assms in \<open>auto simp: limiterGate_def n a Let_def\<close>)
  have "fits t w (t\<lparr>limiter := l\<rparr>) w1" unfolding fits_def
    using w1 fit_later [OF _ w1(1)] fit_Acquire [OF a w1(2)] by blast
  also have "fits (t\<lparr>limiter := l\<rparr>) w1 t' w'" unfolding t' by (rule fits_later [OF w'])
  finally show ?thesis .
qed

lemma retry_or_fits: "retry_or E c attempt d r t w = (x, t', w') \<Longrightarrow> fits t w t' w'"
  using retry_or_cases [of E c attempt d r t w x t' w'] by (auto simp: quiet_def intro: fits_later)

text \<open>The shape of a failed request: the breaker hears of it, and the loop may wait.\<close>

lemma failed_fits:
  assumes "breaker_Failure E t w = (t1, w1)" "retry_or E c attempt d r (bump_failed t1) w1 = (x, t', w')"
  shows "fits t w t' w'"
  using fits_trans [OF breaker_Failure_fits [OF assms(1)], of t' w'] retry_or_fits [OF assms(2)] by simp

lemma failed_ctx_fits:
  assumes "breaker_Failure E t w = (t1, w1)" "ctx_Err E c w1 = (e, w2)"
    and "retry_or E c attempt d r (bump_failed t1) w2 = (x, t', w')"
  shows "fits t w t' w'"
proof -
  note breaker_Failure_fits [OF assms(1)]
  also have "fits t1 w1 t1 w2" using later_steps(3) [of w1 E c] assms(2) by (intro fits_later) simp
  also have "fits t1 w2 t' w'" using retry_or_fits [OF assms(3)] by simp
  finally show ?thesis .
qed

lemma ctx_Err_fits: "breaker_Failure E t w = (t1, w1) \<Longrightarrow> ctx_Err E c w1 = (e, w2) \<Longrightarrow> fits t w t1 w2"
  using fits_trans [OF breaker_Failure_fits fits_later, of E t w t1 w1 w2] later_steps(3) [of w1 E c] by simp

lemma on_response_fits: "on_response E c evaluate attempt status ra body t w = (x, t', w') \<Longrightarrow> fits t w t' w'"
  by (auto simp: on_response_def Let_def split: if_splits prod.splits intro: failed_fits)

lemma rules_response_fits: "rules_response E c attempt status ra body t w = (x, t', w') \<Longrightarrow> fits t w t' w'"
proof (cases "status = 200")
  case True
  assume r: "rules_response E c attempt status ra body t w = (x, t', w')"
  have "later w (snd (UnmarshalJSON E (take httpReadLimit body) w))"
    by (auto simp: UnmarshalJSON_def split: prod.splits sum.splits dest: now_later)
  then have "fits (t\<lparr>breaker := Success (breaker t)\<rparr>) w (t\<lparr>breaker := Success (breaker t)\<rparr>) w'"
    using r True by (intro fits_later) (auto simp: rules_response_def Let_def split: prod.splits sum.splits)
  from fits_trans [OF fits_Success this] show ?thesis
    using r True by (auto simp: rules_response_def Let_def split: prod.splits sum.splits)
next
  case False
  assume "rules_response E c attempt status ra body t w = (x, t', w')"
  with False show ?thesis by (auto simp: rules_response_def Let_def split: if_splits prod.splits intro: failed_fits)
qed

lemma after_request_fits: "after_request E c evaluate attempt t a w = (x, t', w') \<Longrightarrow> fits t w t' w'"
  by (cases a) (auto simp: after_request_def Let_def on_response_fits split: prod.splits option.splits
      intro: failed_ctx_fits ctx_Err_fits)

lemma after_rules_request_fits: "after_rules_request E c attempt t a w = (x, t', w') \<Longrightarrow> fits t w t' w'"
  by (cases a) (auto simp: after_rules_request_def Let_def rules_response_fits split: prod.splits option.splits
      intro: failed_ctx_fits ctx_Err_fits)

text \<open>Up to the request both loops go the same way.\<close>

lemma client_Do_later: "client_Do E rq w = (a, w') \<Longrightarrow> later w w'"
  by (auto simp: client_Do_def later_def Let_def)

lemma admitted_fits:
  assumes "limiterGate E c attempt what t w = (g, t1, w1)" "now E w1 = (tm, w2)" "Admit tm (breaker t1) = (adm, cb)"
  shows "fits t w (t1\<lparr>breaker := cb\<rparr>) w2"
proof -
  note limiterGate_fits [OF assms(1)]
  also have "fits t1 w1 t1 w2" using now_later [OF assms(2)] by (intro fits_later) simp
  also have "fits t1 w2 (t1\<lparr>breaker := cb\<rparr>) w2" using fit_Admit [OF assms(3)] by (simp add: fits_def)
  finally show ?thesis .
qed

lemma requested_fits:
  assumes "limiterGate E c attempt what t w = (g, t1, w1)" "now E w1 = (tm, w2)" "Admit tm (breaker t1) = (adm, cb)"
    and "client_Do E rq w2 = (a, w3)" "fits (t1\<lparr>breaker := cb\<rparr>) w3 t' w'"
  shows "fits t w t' w'"
  using fits_trans [OF fits_trans [OF admitted_fits [OF assms(1-3)] fits_later [OF client_Do_later [OF assms(4)]]] assms(5)] .

lemma sendAttempt_fits: "sendAttempt E c path evaluate wire ce sg attempt t w = (x, t', w') \<Longrightarrow> fits t w t' w'"
  by (auto simp: sendAttempt_def Let_def split: prod.splits if_splits option.splits
      intro: limiterGate_fits admitted_fits requested_fits after_request_fits)

lemma rulesAttempt_fits: "rulesAttempt E c attempt t w = (x, t', w') \<Longrightarrow> fits t w t' w'"
  by (auto simp: rulesAttempt_def Let_def split: prod.splits if_splits option.splits
      intro: limiterGate_fits admitted_fits requested_fits after_rules_request_fits)

text \<open>What every pass preserves, the loop preserves.\<close>

context retry_loop begin

lemma loop_preserves:
  assumes step: "\<And>k t w x t' w'. step k t w = (x, t', w') \<Longrightarrow> Q t w t' w'"
    and trans: "\<And>t u t' v t'' w. Q t u t' v \<Longrightarrow> Q t' v t'' w \<Longrightarrow> Q t u t'' w"
  shows "loop k t w = (r, t', w') \<Longrightarrow> Q t w t' w'"
proof (induction "nat (RetryAttempts (t_cfg t) - k)" arbitrary: k t w rule: less_induct)
  case less
  obtain x t1 w1 where s: "step k t w = (x, t1, w1)" by (cases "step k t w") auto
  show ?case
  proof (cases x)
    case (Return r')
    with less.prems s step [OF s] show ?thesis by (simp add: loop_eq [of k t w])
  next
    case Again
    then have "k < RetryAttempts (t_cfg t)" "t_cfg t1 = t_cfg t"
      using step_attempted [OF s] by (auto simp: attempted_def same_transport_def)
    moreover have "loop (k + 1) t1 w1 = (r, t', w')" using less.prems s Again by (simp add: loop_eq [of k t w])
    ultimately have "Q t1 w1 t' w'" using less.hyps [of t1 "k + 1" w1] by simp
    with step [OF s] show ?thesis by (rule trans)
  qed
qed

end

lemma sendBatch_fits: "sendBatch E c path raw evaluate t w = (r, t', w') \<Longrightarrow> fits t w t' w'"
  using send.loop_preserves [where Q = fits, OF sendAttempt_fits fits_trans]
  by (auto simp: sendBatch_def Let_def split_beta)

lemma fetchDynamicRules_fits: "fetchDynamicRules E c t w = (r, t', w') \<Longrightarrow> fits t w t' w'"
  using fetch.loop_preserves [where Q = fits, OF rulesAttempt_fits fits_trans]
  by (auto simp: fetchDynamicRules_def)

section \<open>Batches, reports, rules\<close>

lemma fit_clock: "clock w' = clock w \<Longrightarrow> fit t w' = fit t w"
  by (simp add: fit_def)

lemma fit_hooks [simp]:
  "fit t (fireErrorHook h st e x w) = fit t w" "fit t (fireHook u st e x w) = fit t w"
  "fit t (send_failure K u e w) = fit t w" "fit t (singleton_dropped K xs u w) = fit t w"
  by (simp_all add: fit_def fireHook_def send_failure_def singleton_dropped_def)

lemma fits_hooks [simp]:
  "fits t w t' (fireErrorHook h st e x w') = fits t w t' w'" "fits t w t' (fireHook u st e x w') = fits t w t' w'"
  "fits t w t' (send_failure K u e w') = fits t w t' w'" "fits t w t' (singleton_dropped K xs u w') = fits t w t' w'"
  by (simp_all add: fits_def)

lemma sendEncryptedBatch_fits:
  assumes "sendEncryptedBatch E c p evs ms t w = (r, t', w')"
  shows "fits t w t' w'"
proof (cases "canonicalItemsJSON E evs ms")
  case (Inl err)
  with assms show ?thesis by (auto simp: sendEncryptedBatch_def)
next
  case pt: (Inr plaintext)
  obtain x w1 where e: "Encrypt E p plaintext [] w = (x, w1)" by fastforce
  have w1: "later w w1" using Encrypt_world [OF e] by simp
  show ?thesis
  proof (cases x)
    case (Inl encErr)
    with assms pt e w1 show ?thesis by (auto simp: sendEncryptedBatch_def intro: fits_later)
  next
    case payload: (Inr payload)
    obtain bid w2 where b: "gen_batchID E w1 = (bid, w2)" by fastforce
    have w2: "fits t w t w2" using gen_batchID_world [OF b] w1 by (auto intro: fits_later later_trans)
    have sent: "sendBatch E c encryptedPath raw True t w2 = (q, t3, w3) \<Longrightarrow> fits t w t3 w3" for raw q t3 w3
      using fits_trans [OF w2 sendBatch_fits] .
    show ?thesis using assms pt e payload b w2
      by (auto simp: sendEncryptedBatch_def split: sum.splits prod.splits option.splits dest!: sent)
  qed
qed

lemma split_fits:
  assumes IH: "\<And>ys t w r t' w'. sendItems E c K ys t w = (r, t', w') \<Longrightarrow> length ys < length xs \<Longrightarrow> fits t w t' w'"
    and "splitOrDrop E c K xs t w = (q, t', w')"
  shows "fits t w t' w'"
proof (cases "length xs \<le> 1")
  case True
  with assms(2) show ?thesis by (auto simp: splitOrDrop.simps [of E c K xs])
next
  case False
  note len = half_less [OF False] half_less' [OF False]
  from assms(2) False show ?thesis
  proof (cases rule: splitOrDrop_cases)
    case (left_panics v)
    from IH [OF this(1) len(1)] show ?thesis .
  next
    case (right_panics le t1 w1 v)
    from fits_trans [OF IH [OF this(1) len(1)] IH [OF this(2) len(2)]] show ?thesis .
  next
    case (both l e t1 w1 r e')
    from fits_trans [OF IH [OF this(1) len(1)] IH [OF this(2) len(2)]] show ?thesis .
  qed
qed

lemma sendItems_fits: "sendItems E c K xs t w = (r, t', w') \<Longrightarrow> fits t w t' w'"
proof (induction "length xs" arbitrary: xs t w r t' w' rule: less_induct)
  case less
  show ?case
  proof (cases "xs = []")
    case True
    with less.prems show ?thesis by (simp add: sendItems.simps)
  next
    case ne: False
    show ?thesis
    proof (cases "encryptor t")
      case (Some p)
      with less.prems ne show ?thesis
        by (auto simp: sendItems.simps [of E c K xs] split: prod.splits dest: sendEncryptedBatch_fits)
    next
      case None
      from less.prems None ne show ?thesis
      proof (cases rule: sendItems_cases)
        case (unserialisable e batch w1)
        then show ?thesis by (auto intro: fits_later)
      next
        case (sent batch w1 raw w2)
        have "fits t w t w1" using new_batch_trace [OF sent(1)] by (auto intro: fits_later)
        also note sendBatch_fits [OF sent(3)]
        also have "fits t' w2 t' w'" using sent(4) by (auto intro: fits_later)
        finally show ?thesis .
      next
        case (split batch w1 raw o' e t2 w2 q)
        have "fits t w t w1" using new_batch_trace [OF split(1)] by (auto intro: fits_later)
        also note sendBatch_fits [OF split(3)]
        also have "fits t2 w2 t' w'" by (rule split_fits [OF _ split(5)]) (use less.hyps in simp)
        finally show ?thesis .
      qed
    qed
  qed
qed

lemma sendSafely_fits: "sendSafely E c K xs t w = (r, t', w') \<Longrightarrow> fits t w t' w'"
  by (auto simp: sendSafely_def split: prod.splits sum.splits dest: sendItems_fits)

lemma sendStatus_fits: "sendStatus E c body t w = (r, t', w') \<Longrightarrow> fits t w t' w'"
  by (auto simp: sendStatus_def split: prod.splits sum.splits if_splits dest: sendBatch_fits)

section \<open>The agent\<close>

text \<open>The operations of the agent: the transport stays fit, and a loop context is only ever set by \<open>Start\<close>.\<close>

definition ages :: "agent \<Rightarrow> world \<Rightarrow> agent \<Rightarrow> world \<Rightarrow> bool" where
  "ages a w a' w' \<longleftrightarrow> fits (tr a) w (tr a') w' \<and> (loop_context a' = loop_context a \<or> loop_context a' = Some Background)"

lemma ages_refl [simp, intro]: "ages a w a w"
  by (simp add: ages_def)

lemma ages_trans [trans]: "ages a w b v \<Longrightarrow> ages b v c u \<Longrightarrow> ages a w c u"
  unfolding ages_def using fits_trans by metis

text \<open>Most operations leave both alone.\<close>

definition keeps :: "agent \<Rightarrow> agent \<Rightarrow> bool" where
  "keeps a a' \<longleftrightarrow> tr a' = tr a \<and> loop_context a' = loop_context a"

lemma keeps_refl [simp, intro]: "keeps a a"
  by (simp add: keeps_def)

lemma keeps_trans [trans]: "keeps a b \<Longrightarrow> keeps b c \<Longrightarrow> keeps a c"
  by (simp add: keeps_def)

lemma ages_keeps: "keeps a a' \<Longrightarrow> later w w' \<Longrightarrow> ages a w a' w'"
  by (simp add: ages_def keeps_def fits_later)

lemma keeps_fields [simp]:
  "keeps a (triggerFlush a') = keeps a a'" "keeps a (recordErrorLocked m a') = keeps a a'"
  "keeps a (signalSpaceLocked a') = keeps a a'" "keeps a (a'\<lparr>flushWake := b\<rparr>) = keeps a a'"
  "keeps a (a'\<lparr>lastFlush := tm\<rparr>) = keeps a a'" "keeps a (a'\<lparr>persist := p\<rparr>) = keeps a a'"
  "keeps a (a'\<lparr>redisPersistFailures := n\<rparr>) = keeps a a'" "keeps a (a'\<lparr>confirmCh := q\<rparr>) = keeps a a'"
  by (simp_all add: keeps_def triggerFlush_def recordErrorLocked_def signalSpaceLocked_def Let_def)

text \<open>A kind whose state is apart from both.\<close>

locale apart = kind_access K for K :: "'a kind" +
  assumes map_keeps [simp]: "keeps a (kd_map K f b) = keeps a b"
begin

lemma confirmKeys_keeps: "confirmKeys E ks a w = (a', w') \<Longrightarrow> keeps a a'"
  by (auto simp: confirmKeys_def split: if_splits)

lemma reserveKey_keeps: "reserveKeyLocked E K x a w = (k, a', w') \<Longrightarrow> keeps a a'"
  by (auto simp: reserveKeyLocked_def persistItemLocked_def Let_def split: option.splits sum.splits prod.splits if_splits)

lemma appendLocked_keeps: "appendLocked E K x a w = (b, a', w') \<Longrightarrow> keeps a a'"
  by (auto simp: appendLocked_def Let_def split: prod.splits dest: reserveKey_keeps)

lemma enqueue_keeps:
  assumes "enqueue E K x a w = (r, a', w')"
  shows "keeps a a'"
proof -
  obtain q nf ks a1 w1 where l: "enqueue_locked E K x a w = ((q, nf, ks), a1, w1)" by (metis prod.collapse)
  obtain a2 w2 where c: "confirmKeys E ks a1 w1 = (a2, w2)" by fastforce
  have "keeps (kd_map K f a) b \<Longrightarrow> keeps a b" for f b
    using map_keeps [of a f a] by (simp add: keeps_trans [of a "kd_map K f a"])
  with l have "keeps a a1"
    by (auto simp: enqueue_locked_def split: if_splits list.splits prod.splits dest!: appendLocked_keeps)
  also have "keeps a1 a2" by (rule confirmKeys_keeps [OF c])
  finally show ?thesis using assms l c by (auto simp: enqueue_def)
qed

lemma drain_keeps: "drain E K force a w = (d, a', w') \<Longrightarrow> keeps a a'"
  by (auto simp: drain_def Let_def split: prod.splits if_splits)

lemma requeue_keeps:
  assumes "requeue E K d a w = (a', w')"
  shows "keeps a a'"
proof -
  obtain ks a1 where r: "requeue_locked K d a = (ks, a1)" by fastforce
  then have "keeps a a1" by (auto simp: requeue_locked_def Let_def)
  also have "keeps a1 a'" using assms r by (auto simp: requeue_def dest: confirmKeys_keeps)
  finally show ?thesis .
qed

lemma settle_failed_keeps: "settle_failed E K n a w = (a', w') \<Longrightarrow> keeps a a'"
  by (auto simp: settle_failed_def Let_def split: prod.splits)

lemma settle_keeps:
  assumes "settle E K d o' err a w = (r, a', w')"
  shows "keeps a a'"
proof (cases "outcomeConfirms o'")
  case True
  with assms show ?thesis
    by (cases o') (auto simp: settle_def outcomeConfirms_def settle_accepted_def settle_permanent_def Let_def
        split: prod.splits dest!: confirmKeys_keeps)
next
  case False
  obtain a1 w1 where f: "settle_failed E K (length d) a w = (a1, w1)" by fastforce
  obtain a2 w2 where q: "requeue E K d a1 w1 = (a2, w2)" by fastforce
  have "a' = a2" using assms False f q by (cases o') (auto simp: settle_def outcomeConfirms_def Let_def)
  with keeps_trans [OF settle_failed_keeps [OF f] requeue_keeps [OF q]] show ?thesis by simp
qed

lemma reload_items_keeps: "reload_items E K p its a w = (a', w') \<Longrightarrow> keeps a a'"
proof (induction its arbitrary: a w)
  case (Cons it its)
  obtain a1 w1 where i: "reload_item E K p it a w = (a1, w1)" by fastforce
  then have "keeps a a1" by (auto simp: reload_item_def Let_def split: sum.splits if_splits)
  also have "keeps a1 a'" using Cons i by simp
  finally show ?case .
qed simp

lemma reloadKind_keeps: "reloadKindLocked E K p a w = Some (a', w') \<Longrightarrow> keeps a a'"
  by (auto simp: reloadKindLocked_def split: option.splits sum.splits dest: reload_items_keeps)

end

interpretation ea: apart event_kind
  by standard (simp add: keeps_def event_kind_def)

interpretation ma: apart metric_kind
  by standard (simp add: keeps_def metric_kind_def)

section \<open>Every call\<close>

lemma sys_step_later: "sys_step E s s' \<Longrightarrow> later (fst (snd s)) (fst (snd s'))"
proof (induction rule: sys_step.induct)
  case (event_step a w fe a' w' fe' fm)
  then show ?case by (simp add: ek.kstep_later)
next
  case (metric_step a w fm a' w' fm' fe)
  then show ?case by (simp add: mk.kstep_later)
qed (simp_all add: del_later same_buffers_def)

lemma sys_reach_later: "(sys_step E)\<^sup>*\<^sup>* s s' \<Longrightarrow> later (fst (snd s)) (fst (snd s'))"
  by (induction rule: rtranclp_induct) (auto dest: sys_step_later later_trans)

lemma settle_later:
  assumes "settle E K d o' err a w = (r, a', w')"
  shows "later w w'"
proof (cases "outcomeConfirms o'")
  case True
  with assms show ?thesis
    by (cases o') (auto simp: settle_def outcomeConfirms_def Let_def split: prod.splits dest!: confirmKeys_later)
next
  case False
  obtain a1 w1 where f: "settle_failed E K (length d) a w = (a1, w1)" by fastforce
  obtain a2 w2 where q: "requeue E K d a1 w1 = (a2, w2)" by fastforce
  have "later w1 w2" using q by (auto simp: requeue_def split: prod.splits dest: confirmKeys_later)
  with later_trans [OF settle_failed_later [OF f]] show ?thesis
    using assms False f q by (cases o') (auto simp: settle_def outcomeConfirms_def Let_def)
qed

lemma runs_later: "runs E a w a' w' \<Longrightarrow> later w w'"
  unfolding runs_def executes_def using sys_reach_later by fastforce

context apart begin

lemma flush_ages:
  assumes "flush_kind E K c force a w = (r, a', w')"
  shows "ages a w a' w'"
proof (cases "kd_enabled K (cfg a)")
  case True
  obtain d a1 w1 where d: "drain E K force a w = (d, a1, w1)" by (metis prod.collapse)
  have 1: "ages a w a1 w1" by (rule ages_keeps [OF drain_keeps [OF d] drain_later [OF d]])
  show ?thesis
  proof (cases d)
    case None
    with assms True d 1 show ?thesis by (simp add: flush_kind_def)
  next
    case (Some xs)
    obtain o' err t1 w2 where s: "sendSafely E c K (map payload xs) (tr a1) w1 = ((o', err), t1, w2)" by (metis prod.collapse)
    have "ages a1 w1 (a1\<lparr>tr := t1\<rparr>) w2" using sendSafely_fits [OF s] by (simp add: ages_def)
    moreover have st: "settle E K xs o' err (a1\<lparr>tr := t1\<rparr>) w2 = (r, a', w')"
      using assms True d Some s by (simp add: flush_kind_def)
    have "later w2 w'" using settle_later [OF st] .
    then have "ages (a1\<lparr>tr := t1\<rparr>) w2 a' w'" by (rule ages_keeps [OF settle_keeps [OF st]])
    ultimately show ?thesis using 1 ages_trans by blast
  qed
qed (use assms in \<open>simp add: flush_kind_def\<close>)

end

lemma Flush_ages: "Flush E c a w = (r, a', w') \<Longrightarrow> ages a w a' w'"
  by (auto simp: Flush_def flushEvents_def flushMetrics_def split: option.splits prod.splits
      dest!: ea.flush_ages ma.flush_ages intro: ages_trans)

lemma Start_ages:
  assumes "Start E a w = Some (r, a', w')"
  shows "ages a w a' w'"
proof -
  have l: "later w w'" by (rule runs_later [OF runs_Start [OF assms]])
  have "keeps a a' \<or> tr a' = tr a \<and> loop_context a' = Some Background"
  proof (cases "closed a \<or> started a \<or> persist a = None")
    case True
    with assms show ?thesis by (auto simp: Start_def Let_def keeps_def split: if_splits prod.splits)
  next
    case False
    obtain tm w1 where n: "now E w = (tm, w1)" by fastforce
    let ?a = "a\<lparr>loop_context := Some Background, started := True, startedAt := tm\<rparr>"
    from False obtain p where p: "persist a = Some p" by auto
    with assms False n have "reloadFromRedisLocked E p ?a w1 = Some (a', w')"
      by (auto simp: Start_def Let_def split: option.splits)
    then obtain a1 w2 where e: "reloadKindLocked E event_kind p ?a w1 = Some (a1, w2)"
      and m: "reloadKindLocked E metric_kind p a1 w2 = Some (a', w')"
      by (auto simp: reloadFromRedisLocked_def split: option.splits)
    from keeps_trans [OF ea.reloadKind_keeps [OF e] ma.reloadKind_keeps [OF m]] show ?thesis by (simp add: keeps_def)
  qed
  with l show ?thesis by (auto simp: ages_def keeps_def intro: fits_later)
qed

lemma SendEvent_keeps: "SendEvent E ev a w = (r, a', w') \<Longrightarrow> keeps a a'"
  by (auto simp: SendEvent_def enqueueEvent_def split: option.splits prod.splits if_splits dest: ea.enqueue_keeps)

lemma SendMetric_keeps: "SendMetric E q m a w = (r, a', w') \<Longrightarrow> keeps a a'"
  by (auto simp: SendMetric_def enqueueMetric_def split: option.splits prod.splits if_splits dest: ma.enqueue_keeps)

lemma flushTick_ages: "flushTick E n a w = (k, a', w') \<Longrightarrow> ages a w a' w'"
  by (auto simp: flushTick_def split: prod.splits option.splits dest: Flush_ages)

lemma flushIfNeeded_ages:
  assumes "flushIfNeeded E a w = (a', w')"
  shows "ages a w a' w'"
proof (cases "combined a = 0")
  case False
  obtain b w1 where c: "(if isZero (lastFlush a) then (True, w) else case now E w of (tm, w1) \<Rightarrow>
      (time_sub tm (lastFlush a) \<ge> FlushInterval (cfg a), w1)) = (b, w1)" by fastforce
  then have "later w w1" by (auto simp: now_def later_def Let_def split: if_splits)
  then have "ages a w a w1" by (intro ages_keeps) auto
  also have "ages a w1 a' w'"
    using assms False c by (auto simp: flushIfNeeded_def Let_def split: if_splits prod.splits dest: Flush_ages)
  finally show ?thesis .
qed (use assms in \<open>simp add: flushIfNeeded_def\<close>)

lemma wake_ages: "wake E a w = (a', w') \<Longrightarrow> ages a w a' w'"
proof -
  assume k: "wake E a w = (a', w')"
  have "ages a w (a\<lparr>flushWake := False\<rparr>) w" by (rule ages_keeps) auto
  also have "ages (a\<lparr>flushWake := False\<rparr>) w b v" if "flushIfNeeded E (a\<lparr>flushWake := False\<rparr>) w = (b, v)" for b v
    using that by (rule flushIfNeeded_ages)
  finally show ?thesis using k by (auto simp: wake_def split: if_splits)
qed

lemma reportStatus_ages:
  assumes "reportStatus E c a w = (a', w')"
  shows "ages a w a' w'"
proof -
  obtain body w1 where b: "statusPayload E a w = (body, w1)" by fastforce
  obtain o' err t1 w2 where s: "sendStatusSafely E c body (tr a) w1 = ((o', err), t1, w2)" by (metis prod.collapse)
  have "fits (tr a) w (tr a) w1" using statusPayload_frame [OF b] by (auto intro: fits_later)
  also have "fits (tr a) w1 t1 w2" using s
    by (auto simp: sendStatusSafely_def split: prod.splits sum.splits dest: sendStatus_fits)
  finally show ?thesis using assms b s
    by (auto simp: reportStatus_def record_report_def recordErrorLocked_def ages_def Let_def)
qed

lemma GetDynamicRules_ages:
  assumes "GetDynamicRules E c a w = (r, a', w')"
  shows "ages a w a' w'"
proof -
  obtain fresh w1 where f: "(case cachedRules a of None \<Rightarrow> (False, w)
        | Some r \<Rightarrow> (case now E w of (tm, w1) \<Rightarrow> (time_sub tm (rulesLastUpdate a) < ttl_duration r, w1))) = (fresh, w1)"
    by fastforce
  then have w1: "later w w1" by (auto simp: now_def later_def Let_def split: option.splits)
  obtain q t1 w2 where s: "fetchRulesSafely E c (tr a) w1 = (q, t1, w2)" by (metis prod.collapse)
  have "fits (tr a) w (tr a) w1" by (rule fits_later [OF w1])
  also have "fits (tr a) w1 t1 w2" using s
    by (auto simp: fetchRulesSafely_def split: prod.splits sum.splits dest: fetchDynamicRules_fits)
  finally have 2: "fits (tr a) w t1 w2" .
  have 3: "later w2 (snd (now E w2))" by (rule later_steps)
  show ?thesis using assms f s w1 2 3 fits_trans [OF 2 fits_later [OF 3]]
    by (auto simp: GetDynamicRules_def ages_def intro: fits_later split: if_splits sum.splits prod.splits)
qed

lemma perform_ages:
  assumes "perform E x a w = Some (a', w')"
  shows "ages a w a' w'"
proof -
  have l: "later w w'" by (rule runs_later [OF perform_runs [OF assms]])
  note keep = ages_keeps [OF _ l]
  show ?thesis
  proof (cases x)
    case CStart
    with assms obtain r where "Start E a w = Some (r, a', w')" by auto
    then show ?thesis by (rule Start_ages)
  next
    case (CSendEvent ev)
    with assms show ?thesis by (cases "SendEvent E ev a w") (auto dest: SendEvent_keeps intro: keep)
  next
    case (CSendMetric q m)
    with assms show ?thesis by (cases "SendMetric E q m a w") (auto dest: SendMetric_keeps intro: keep)
  next
    case (CPollEvent ev)
    with assms show ?thesis by (cases "enqueueEvent E ev a w") (auto simp: enqueueEvent_def dest: ea.enqueue_keeps intro: keep)
  next
    case (CPollMetric m)
    with assms show ?thesis by (cases "enqueueMetric E m a w") (auto simp: enqueueMetric_def dest: ma.enqueue_keeps intro: keep)
  next
    case (CFlush c)
    with assms show ?thesis by (cases "Flush E c a w") (auto dest: Flush_ages)
  next
    case (CFlushTick n)
    with assms show ?thesis by (cases "flushTick E n a w") (auto dest: flushTick_ages)
  next
    case CWake
    with assms show ?thesis by (auto dest: wake_ages)
  next
    case CReport
    with assms show ?thesis by (auto dest: reportStatus_ages)
  next
    case (CRules c)
    with assms show ?thesis by (cases "GetDynamicRules E c a w") (auto dest: GetDynamicRules_ages)
  next
    case CConfirm
    with assms show ?thesis by (auto simp: confirm_job_def split: list.splits intro: ages_keeps del_later)
  qed
qed

lemma live_ages: "live E xs a w = Some (a', w') \<Longrightarrow> ages a w a' w'"
proof (induction xs arbitrary: a w)
  case (Cons x xs)
  then obtain a1 w1 where p: "perform E x a w = Some (a1, w1)" and l: "live E xs a1 w1 = Some (a', w')"
    by (auto split: option.splits)
  note perform_ages [OF p]
  also note Cons.IH [OF l]
  finally show ?case .
qed simp

section \<open>The gates\<close>

definition gated :: "'a kstate \<Rightarrow> world \<Rightarrow> bool" where
  "gated s w \<longleftrightarrow> gate s = 0 \<or> gate s \<le> clock w + maxPartialBackoff"

lemma gated_later: "gated s w \<Longrightarrow> later w w' \<Longrightarrow> gated s w'"
  by (auto simp: gated_def later_def)

lemma gated_del: "gated s w \<Longrightarrow> gated s (del E ks w)"
  by (rule gated_later [OF _ del_later])

lemma partialFailureBackoff_le: "partialFailureBackoff oor n d \<le> maxPartialBackoff"
  by (simp add: partialFailureBackoff_def Let_def)

context kind_access begin

lemma settle_failed_gated:
  assumes "settle_failed E K n a w = (a', w')"
  shows "gated (kd_get K a') w'"
proof -
  obtain tm w1 where n: "now E w = (tm, w1)" by fastforce
  with assms partialFailureBackoff_le [of "conv E" "streak (kd_get K a) + 1" "FlushInterval (cfg a)"] now_later [OF n]
  show ?thesis by (auto simp: settle_failed_def Let_def gated_def)
qed

lemma kstep_gated:
  assumes "kstep E K (a, w, f) (a', w', f')" "gated (kd_get K a) w"
  shows "gated (kd_get K a') w'"
proof -
  have l: "gated (kd_get K a) w'" by (rule gated_later [OF assms(2) kstep_later [OF assms(1)]])
  from assms(1) show ?thesis
  proof (cases rule: kstep.cases)
    case (enqueue x r nf ks)
    from enqueue(2) show ?thesis by (cases rule: enqueue_locked_cases) (use l in \<open>auto simp: gated_def\<close>)
  next
    case (drain force d)
    from drain_get(3) [OF drain(2)] l show ?thesis by (simp add: gated_def)
  next
    case (count o' n)
    with l show ?thesis by (auto simp: settle_get gated_def)
  next
    case (fail d)
    from settle_failed_gated [OF fail(3)] show ?thesis .
  next
    case (requeue d ks)
    from requeue_locked_get(1) [OF requeue(4)] l show ?thesis by (simp add: gated_def)
  next
    case (confirm ks)
    from confirmKeys_get [OF confirm(3)] l show ?thesis by simp
  next
    case (reload p it)
    from reload(4) have "gate (kd_get K a') = gate (kd_get K a)"
      by (auto simp: reload_item_def Let_def split: sum.splits if_splits)
    with l show ?thesis by (simp add: gated_def)
  qed (use l in simp)
qed

end

lemma sys_step_gated:
  assumes "sys_step E s s'"
  shows "case (s, s') of ((a, w, fe, fm), (a', w', fe', fm')) \<Rightarrow>
    gated (events a) w \<and> gated (metrics a) w \<longrightarrow> gated (events a') w' \<and> gated (metrics a') w'"
  using assms
proof (induction rule: sys_step.induct)
  case (event_step a w fe a' w' fe' fm)
  have "gated (events a) w \<Longrightarrow> gated (events a') w'" using ek.kstep_gated [OF event_step] by (simp add: event_kind_def)
  moreover have "metrics a' = metrics a" using em.kstep_other [OF event_step] by (simp add: metric_kind_def)
  ultimately show ?case using ek.kstep_later [OF event_step] gated_later by auto
next
  case (metric_step a w fm a' w' fm' fe)
  have "gated (metrics a) w \<Longrightarrow> gated (metrics a') w'" using mk.kstep_gated [OF metric_step] by (simp add: metric_kind_def)
  moreover have "events a' = events a" using me.kstep_other [OF metric_step] by (simp add: event_kind_def)
  ultimately show ?case using mk.kstep_later [OF metric_step] gated_later by auto
next
  case (worker a ks rest w fe fm)
  then show ?case by (simp add: gated_del)
next
  case (other a w a' w' fe fm)
  then show ?case by (auto simp: same_buffers_def intro: gated_later)
qed

lemma sys_reach_gated:
  assumes "(sys_step E)\<^sup>*\<^sup>* s s'"
  shows "case (s, s') of ((a, w, fe, fm), (a', w', fe', fm')) \<Rightarrow>
    gated (events a) w \<and> gated (metrics a) w \<longrightarrow> gated (events a') w' \<and> gated (metrics a') w'"
  using assms
proof (induction rule: rtranclp_induct)
  case (step s1 s2)
  with sys_step_gated [OF step(2)] show ?case by (auto split: prod.splits)
qed (auto split: prod.splits)

lemma runs_gated:
  assumes "runs E a w a' w'" "gated (events a) w" "gated (metrics a) w"
  shows "gated (events a') w' \<and> gated (metrics a') w'"
  using assms(1) sys_reach_gated assms(2,3) unfolding runs_def executes_def by fastforce

section \<open>A whole life\<close>

lemma new_fit: "fit (newTransport c ident) w"
  by (simp add: fit_def newTransport_def newRateLimiter_def newCircuitBreaker_def)

text \<open>Of an agent from \<open>New\<close>, whatever was called since.\<close>

lemma life_fit:
  assumes "New E cfg0 w0 = (Inr a0, w1)" "live E xs a0 w1 = Some (a, w)"
  shows "fit (tr a) w" "gated (events a) w" "gated (metrics a) w" "\<not> closed a" "\<not> confirmClosed a" "loopCtx a = Background"
proof -
  from assms(1) obtain c ident enc p where a0: "a0 = new_agent c ident p ((newTransport c ident)\<lparr>encryptor := enc\<rparr>)"
    by (rule New_cases)
  have 0: "fit (tr a0) w1" "gated (events a0) w1" "gated (metrics a0) w1" "\<not> closed a0" "\<not> confirmClosed a0"
    "loop_context a0 = None"
    using new_fit [of c ident w1] by (simp_all add: a0 new_agent_def gated_def empty_kstate_def fit_def)
  from live_ages [OF assms(2)] 0 show "fit (tr a) w" "loopCtx a = Background"
    by (auto simp: ages_def fits_def loopCtx_def)
  note r = live_runs [OF assms(2)]
  from runs_gated [OF r 0(2,3)] show "gated (events a) w" "gated (metrics a) w" by simp_all
  from r 0 show "\<not> closed a" "\<not> confirmClosed a" by (simp_all add: runs_def same_flags_def)
qed

end
