(* ===== verification/Progress.thy ===== *)
theory Progress
  imports Fit
begin

text \<open>
  An outage ends: once the server answers again and the five minutes of the longest gate have passed,
  one tick of the flush loop delivers both buffers, whatever happened before. The limiter's window and
  the breaker's recovery time are over by then, so that neither holds the requests back.
\<close>

section \<open>A healthy outside\<close>

text \<open>From the observation \<open>n\<close> on every batch is accepted and entropy is there.\<close>

definition server_up :: "env \<Rightarrow> nat \<Rightarrow> bool" where
  "server_up E n \<longleftrightarrow> (\<forall>t rq. n \<le> t \<longrightarrow> verdict E True (http_Do E t rq) = outcomeAccepted)
     \<and> (\<forall>t k. n \<le> t \<longrightarrow> entropy E t k \<noteq> None)"

text \<open>What is sent can be serialised, and requests to the endpoint can be built.\<close>

definition serialises :: "env \<Rightarrow> Config \<Rightarrow> bool" where
  "serialises E c \<longleftrightarrow> (\<forall>x. \<exists>raw. jsonMarshal E x = Inr raw) \<and> (\<forall>x raw. jsonMarshal E x = Inr raw \<longrightarrow> (\<exists>g. decodeGenericJSON E raw = Inr g))
     \<and> (\<forall>path. NewRequest_err E (Endpoint c @ path) = None)"

lemma server_up_world: "server_up E (tick w) \<Longrightarrow> later w w' \<Longrightarrow> server_up E (tick w')"
  by (auto simp: server_up_def later_def)

lemma serialises_batch:
  assumes "serialises E c"
  obtains raw where "marshalBatch E t b = Inr raw"
proof -
  let ?b = "redactBatch E b (sensitive (t_cfg t))"
  obtain r1 r2 where "jsonMarshal E (JBatch ?b) = Inr r1" "jsonMarshal E (JBatch (?b\<lparr>b_Compressed := True\<rparr>)) = Inr r2"
    using assms unfolding serialises_def by blast
  then show thesis by (intro that [of "if willCompress t (length r1) then r2 else r1"]) (simp add: marshalBatch_def Let_def)
qed

section \<open>A transport at rest\<close>

text \<open>The limiter has counted at most \<open>k\<close> calls that matter from now on, and the breaker lets the next one through.\<close>

definition rested :: "nat \<Rightarrow> transport \<Rightarrow> world \<Rightarrow> bool" where
  "rested k t w \<longleftrightarrow> maxCalls (limiter t) = defaultLimiterMaxCalls \<and> window (limiter t) = defaultLimiterWindow
     \<and> (\<forall>tm \<ge> clock w. length (filter (\<lambda>u. time_sub tm u < defaultLimiterWindow) (calls (limiter t))) \<le> k)
     \<and> recoveryTimeout (breaker t) = breakerRecoveryTimeout
     \<and> (cstate (breaker t) = circuitOpen \<longrightarrow> breakerRecoveryTimeout \<le> clock w - openedAt (breaker t))"

lemma rested_later: "rested k t w \<Longrightarrow> later w w' \<Longrightarrow> rested k t w'"
  by (force simp: rested_def later_def)

lemma rested_counts [simp]: "rested k (bump_failed t) w = rested k t w" "rested k (bump_sent t) w = rested k t w"
  by (simp_all add: rested_def bump_failed_def bump_sent_def)

lemma rested_Success: "rested k t w \<Longrightarrow> rested k (t\<lparr>breaker := Success (breaker t)\<rparr>) w"
  by (simp add: rested_def Success_def)

lemma rested_Suc: "rested k t w \<Longrightarrow> rested (Suc k) t w"
  by (force simp: rested_def)

lemma fit_rested:
  assumes "fit t w" "clock w + 60 * Second \<le> clock w'"
  shows "rested 0 t w'"
proof -
  have "filter (\<lambda>u. time_sub tm u < defaultLimiterWindow) (calls (limiter t)) = []" if "clock w' \<le> tm" for tm
    using assms that by (fastforce simp: fit_def filter_empty_conv time_sub_less)
  with assms show ?thesis by (auto simp: rested_def fit_def)
qed

lemma rested_Acquire:
  assumes "rested k t w" "k < 100" "Acquire (clock w) (limiter t) = (ok, l)"
  shows "ok \<and> rested (Suc k) (t\<lparr>limiter := l\<rparr>) w"
proof -
  let ?f = "\<lambda>tm. filter (\<lambda>u. time_sub tm u < defaultLimiterWindow)"
  let ?cs = "calls (limiter t)"
  have w: "window (limiter t) = defaultLimiterWindow" "maxCalls (limiter t) = defaultLimiterMaxCalls"
    and le: "\<And>tm. clock w \<le> tm \<Longrightarrow> length (?f tm ?cs) \<le> k" using assms(1) by (auto simp: rested_def)
  have p: "calls (pruneLocked (clock w) (limiter t)) = ?f (clock w) ?cs" by (simp add: pruneLocked_def w)
  have "int (length (?f (clock w) ?cs)) < 100" using le [of "clock w"] assms(2) by simp
  then have a: "ok" "l = (limiter t)\<lparr>calls := ?f (clock w) ?cs @ [clock w]\<rparr>"
    using assms(3) p w by (auto simp: Acquire_def Let_def pruneLocked_def)
  have "length (?f tm (?f (clock w) ?cs @ [clock w])) \<le> Suc k" if "clock w \<le> tm" for tm
  proof -
    have "length (?f tm (?f (clock w) ?cs)) = length (?f (clock w) (?f tm ?cs))"
      by (simp add: conj_commute)
    also have "\<dots> \<le> length (?f tm ?cs)" by (rule length_filter_le)
    finally show ?thesis using le [OF that] by simp
  qed
  with a(1) assms(1) show ?thesis by (simp add: rested_def a(2) del: filter_append filter_filter)
qed

lemma rested_Admit:
  assumes "rested k t w" "Admit (clock w) (breaker t) = (r, cb)"
  shows "r = None \<and> rested k (t\<lparr>breaker := cb\<rparr>) w"
  using assms by (auto simp: rested_def Admit_def time_sub_ge split: circuitState.splits if_splits)

section \<open>Sending\<close>

definition delivered :: "nat \<Rightarrow> transport \<Rightarrow> world \<Rightarrow> transport \<Rightarrow> world \<Rightarrow> bool" where
  "delivered k t w t' w' \<longleftrightarrow> rested (Suc k) t' w' \<and> cstate (breaker t') = circuitClosed \<and> t_cfg t' = t_cfg t \<and> later w w'
     \<and> length (http_trace w') = Suc (length (http_trace w))"

lemma delivered_later: "delivered k t w t' w' \<Longrightarrow> later v w \<Longrightarrow> http_trace w = http_trace v
    \<Longrightarrow> delivered k t v t' w'"
  by (auto simp: delivered_def intro: later_trans)

lemma limiterGate_rested:
  assumes "rested k t w" "k < 100"
  obtains t1 w1 where "limiterGate E c attempt what t w = ((True, None), t1, w1)" "rested (Suc k) t1 w1"
    "quiet t w t1 w1"
proof -
  obtain tm w1 where n: "now E w = (tm, w1)" by fastforce
  obtain ok l where a: "Acquire tm (limiter t) = (ok, l)" by fastforce
  have w1: "later w w1" "tm = clock w1" using now_later [OF n] by simp_all
  from rested_Acquire [OF rested_later [OF assms(1) w1(1)] assms(2), of ok l] a w1(2)
  have ok: "ok" "rested (Suc k) (t\<lparr>limiter := l\<rparr>) w1" by simp_all
  then have g: "limiterGate E c attempt what t w = ((True, None), t\<lparr>limiter := l\<rparr>, w1)"
    by (simp add: limiterGate_def n a)
  from g ok(2) limiterGate_quiet [OF g] show thesis by (rule that)
qed

lemma accepted_answer:
  assumes "verdict E True a = outcomeAccepted"
  shows "after_request E c True attempt t a w
    = (Return (Inr (outcomeAccepted, None)), bump_sent (t\<lparr>breaker := Success (breaker t)\<rparr>), w)"
proof (cases a)
  case (Resp status ra body)
  have e: "evaluateBatchResponse E b = (outcomeAccepted, x) \<Longrightarrow> x = None" for b x
    by (auto simp: evaluateBatchResponse_def split: sum.splits if_splits)
  obtain o' x where v: "evaluateBatchResponse E (take httpReadLimit body) = (o', x)" by fastforce
  show ?thesis
  proof (cases "status = 201")
    case False
    with Resp assms v have "status = 200" "o' = outcomeAccepted" by (simp_all split: if_splits)
    with Resp v e [of "take httpReadLimit body" x] show ?thesis by (simp add: after_request_def on_response_def Let_def)
  qed (simp add: Resp after_request_def on_response_def Let_def)
qed (use assms in simp_all)

lemma sendBatch_healthy:
  assumes "rested k t w" "k < 100" "server_up E (tick w)" "serialises E (t_cfg t)"
  obtains t' w' where "sendBatch E c path raw True t w = (Inr (outcomeAccepted, None), t', w')" "delivered k t w t' w'"
proof -
  let ?wire = "fst (encodeBody E t raw)" and ?ce = "snd (encodeBody E t raw)"
  define sg where "sg = (if SigningSecret (t_cfg t) \<noteq> [] then signPayload E raw (SigningSecret (t_cfg t)) else [])"
  obtain t1 w1 where g: "limiterGate E c 0 ''batch send'' t w = ((True, None), t1, w1)" "rested (Suc k) t1 w1"
    "quiet t w t1 w1" using limiterGate_rested [OF assms(1,2)] .
  obtain tm w2 where n: "now E w1 = (tm, w2)" by fastforce
  have w2: "later w1 w2" "tm = clock w2" using now_later [OF n] by simp_all
  obtain r cb where a: "Admit tm (breaker t1) = (r, cb)" by fastforce
  define t2 where "t2 = t1\<lparr>breaker := cb\<rparr>"
  from rested_Admit [OF rested_later [OF g(2) w2(1)], of r cb] a w2(2)
  have r: "r = None" "rested (Suc k) t2 w2" by (simp_all add: t2_def)
  have q2: "quiet t w t2 w2" using quiet_trans [OF g(3) now_quiet [OF n]] by (simp add: t2_def)
  then have cfg: "t_cfg t2 = t_cfg t" "t_cfg t1 = t_cfg t" and l2: "later w w2" and tr2: "http_trace w2 = http_trace w"
    by (simp_all add: quiet_def same_transport_def t2_def)
  obtain ans w3 where d: "client_Do E (the_request path ?wire ?ce sg t2) w2 = (ans, w3)" by fastforce
  have w3: "later w2 w3" "length (http_trace w3) = Suc (length (http_trace w))"
    using d tr2 by (auto simp: client_Do_def Let_def later_def)
  have "verdict E True ans = outcomeAccepted"
    using d assms(3) l2 by (auto simp: client_Do_def Let_def server_up_def later_def)
  from accepted_answer [OF this, of c 0 t2 w3] r(1) assms(4) cfg
  have "sendAttempt E c path True ?wire ?ce sg 0 t w
      = (Return (Inr (outcomeAccepted, None)), bump_sent (t2\<lparr>breaker := Success (breaker t2)\<rparr>), w3)"
    by (simp add: sendAttempt_def g(1) n a t2_def [symmetric] d serialises_def)
  then have "sendBatch E c path raw True t w
      = (Inr (outcomeAccepted, None), bump_sent (t2\<lparr>breaker := Success (breaker t2)\<rparr>), w3)"
    by (simp add: sendBatch_def split_beta sendLoop.simps sg_def [symmetric])
  moreover have "delivered k t w (bump_sent (t2\<lparr>breaker := Success (breaker t2)\<rparr>)) w3"
    using rested_Success [OF rested_later [OF r(2) w3(1)]] w3 later_trans [OF l2 w3(1)] cfg
    by (simp add: delivered_def bump_sent_def Success_def rested_def)
  ultimately show thesis by (rule that)
qed

lemma sendEncryptedBatch_healthy:
  assumes "rested k t w" "k < 100" "server_up E (tick w)" "serialises E (t_cfg t)"
  obtains t' w' where "sendEncryptedBatch E c p evs ms t w = (Inr (outcomeAccepted, None), t', w')" "delivered k t w t' w'"
proof -
  obtain plain where pt: "canonicalItemsJSON E evs ms = Inr plain"
  proof -
    have g: "\<exists>g. (case jsonMarshal E x of Inl err \<Rightarrow> Inl err | Inr raw \<Rightarrow> decodeGenericJSON E raw) = Inr g" for x
      using assms(4) unfolding serialises_def by (metis sum.case(2))
    obtain ge gm where "(case jsonMarshal E (JEvents evs) of Inl err \<Rightarrow> Inl err | Inr raw \<Rightarrow> decodeGenericJSON E raw) = Inr ge"
      "(case jsonMarshal E (JMetrics ms) of Inl err \<Rightarrow> Inl err | Inr raw \<Rightarrow> decodeGenericJSON E raw) = Inr gm"
      using g by meson
    then show thesis
      by (intro that [of "[(''events'', if evs = [] then GSlice [] else ge), (''metrics'', if ms = [] then GSlice [] else gm)]"])
         (simp add: canonicalItemsJSON_def Let_def)
  qed
  obtain x w1 where e: "Encrypt E p plain [] w = (Inr x, w1)"
  proof -
    obtain nonce where "entropy E (tick w) encryptionNonceSize = Some nonce"
      using assms(3) unfolding server_up_def by blast
    then show thesis by (intro that) (auto simp: Encrypt_def Let_def)
  qed
  obtain bid w2 where b: "gen_batchID E w1 = (bid, w2)" by fastforce
  have w2: "later w w2" "http_trace w2 = http_trace w"
    using Encrypt_world [OF e] gen_batchID_world [OF b] by (auto intro: later_trans)
  obtain raw where raw: "jsonMarshal E (JEnvelope \<lparr>e_EncryptedPayload = x, e_BatchID = bid, e_AgentVersion = Version,
      e_GuardVersion = GuardVersion (t_cfg t), e_GuardCoreVersion = GuardCoreVersion (t_cfg t)\<rparr>) = Inr raw"
    using assms(4) unfolding serialises_def by blast
  obtain t' w' where s: "sendBatch E c encryptedPath raw True t w2 = (Inr (outcomeAccepted, None), t', w')"
    "delivered k t w2 t' w'"
    by (rule sendBatch_healthy [OF rested_later [OF assms(1) w2(1)] assms(2) server_up_world [OF assms(3) w2(1)] assms(4)])
  have "sendEncryptedBatch E c p evs ms t w = (Inr (outcomeAccepted, None), t', w')"
    by (simp add: sendEncryptedBatch_def pt e b raw s(1))
  with delivered_later [OF s(2) w2] show thesis by (intro that)
qed

lemma sendItems_healthy:
  assumes "rested k t w" "k < 100" "server_up E (tick w)" "serialises E (t_cfg t)" "xs \<noteq> []"
  obtains t' w' where "sendItems E c K xs t w = (Inr (outcomeAccepted, None), t', w')" "delivered k t w t' w'"
proof (cases "encryptor t")
  case (Some p)
  obtain evs ms where "bk_encrypted K xs = (evs, ms)" by fastforce
  with Some assms(5) have "sendItems E c K xs t w = sendEncryptedBatch E c p evs ms t w" by (simp add: sendItems.simps)
  with sendEncryptedBatch_healthy [OF assms(1-4)] that show thesis by metis
next
  case None
  obtain b w1 where n: "new_batch E t w = (b, w1)" by fastforce
  have w1: "later w w1" "http_trace w1 = http_trace w" using new_batch_trace [OF n] by simp_all
  obtain raw where raw: "marshalBatch E t (bk_put K xs b) = Inr raw" by (rule serialises_batch [OF assms(4)])
  obtain t' w' where s: "sendBatch E c (bk_path K) raw True t w1 = (Inr (outcomeAccepted, None), t', w')"
    "delivered k t w1 t' w'"
    by (rule sendBatch_healthy [OF rested_later [OF assms(1) w1(1)] assms(2) server_up_world [OF assms(3) w1(1)] assms(4)])
  have "sendItems E c K xs t w = (Inr (outcomeAccepted, None), t', w')"
    using None assms(5) by (simp add: sendItems.simps n raw s(1))
  with delivered_later [OF s(2) w1] show thesis by (intro that)
qed

section \<open>Flushing\<close>

definition gate_open :: "'a kstate \<Rightarrow> world \<Rightarrow> bool" where
  "gate_open s w \<longleftrightarrow> gate s = 0 \<or> gate s \<le> clock w"

lemma gate_open_later: "gate_open s w \<Longrightarrow> later w w' \<Longrightarrow> gate_open s w'"
  by (auto simp: gate_open_def later_def)

lemma gated_open: "gated s w \<Longrightarrow> clock w + maxPartialBackoff \<le> clock w' \<Longrightarrow> gate_open s w'"
  by (auto simp: gated_def gate_open_def)

text \<open>What a flush makes of a kind's state.\<close>

definition emptied :: "'a kstate \<Rightarrow> 'a kstate \<Rightarrow> bool" where
  "emptied s s' \<longleftrightarrow> items s' = [] \<and> sent_count s' = sent_count s + of_nat (length (items s))
     \<and> (items s \<noteq> [] \<longrightarrow> streak s' = 0 \<and> gate s' = 0)"

lemma confirmKeys_http: "confirmKeys E ks a w = (a', w') \<Longrightarrow> http_trace w' = http_trace w"
  by (auto simp: confirmKeys_def del_def redis_write_def split: if_splits)

context apart begin

lemma drain_open:
  assumes "force \<or> gate_open (kd_get K a) w" "items (kd_get K a) \<noteq> []"
  obtains a1 w1 where "drain E K force a w = (Some (items (kd_get K a)), a1, w1)"
proof -
  obtain shut w1 where g: "(if force then (False, w) else gateClosedLocked E (gate (kd_get K a)) w) = (shut, w1)" by fastforce
  have "\<not> shut" using g assms(1)
    by (auto simp: gateClosedLocked_def gate_open_def isZero_def now_def Let_def split: if_splits)
  with g assms(2) show thesis by (intro that) (simp add: drain_def Let_def split_beta)
qed

lemma flush_healthy:
  assumes "rested k (tr a) w" "k < 99" "server_up E (tick w)" "serialises E (t_cfg (tr a))"
    and "force \<or> gate_open (kd_get K a) w" "kd_enabled K (cfg a)"
  obtains a' w' where "flush_kind E K c force a w = (None, a', w')" "emptied (kd_get K a) (kd_get K a')"
    "rested (Suc k) (tr a') w'" "t_cfg (tr a') = t_cfg (tr a)" "later w w'" "cfg a' = cfg a"
    "length (http_trace w') \<le> Suc (length (http_trace w))"
    "items (kd_get K a) \<noteq> [] \<or> cstate (breaker (tr a)) = circuitClosed \<longrightarrow> cstate (breaker (tr a')) = circuitClosed"
proof (cases "items (kd_get K a) = []")
  case True
  obtain d a1 w1 where d: "drain E K force a w = (d, a1, w1)" by (metis prod.collapse)
  have n: "d = None" using True d drain_get(1,2) by (cases d) auto
  have l: "later w w1" "a1 = a" using drain_later [OF d] drain_None d n by auto
  have h: "http_trace w1 = http_trace w" using drain_http [OF d] by simp
  have "flush_kind E K c force a w = (None, a, w1)" using d n l(2) assms(6) by (simp add: flush_kind_def)
  then show thesis
    by (rule that) (use True l h rested_Suc [OF rested_later [OF assms(1) l(1)]] in \<open>simp_all add: emptied_def\<close>)
next
  case False
  let ?d = "items (kd_get K a)"
  obtain a1 w1 where d: "drain E K force a w = (Some ?d, a1, w1)" by (rule drain_open [OF assms(5) False])
  note g = drain_get [OF d] and l1 = drain_later [OF d]
  have ne: "map payload ?d \<noteq> []" using False by simp
  have k: "k < 100" using assms(2) by simp
  obtain t1 w2 where s: "sendItems E c (kd_batches K) (map payload ?d) (tr a1) w1 = (Inr (outcomeAccepted, None), t1, w2)"
    "delivered k (tr a1) w1 t1 w2"
    by (rule sendItems_healthy [OF _ k server_up_world [OF assms(3) l1] _ ne])
       (use rested_later [OF assms(1) l1] assms(4) g(7) in simp_all)
  then have ss: "sendSafely E c K (map payload ?d) (tr a1) w1 = ((outcomeAccepted, None), t1, w2)"
    by (simp add: sendSafely_def)
  obtain a3 w3 where c: "confirmKeys E (nonempty_keys ?d) (a1\<lparr>tr := t1\<rparr>) w2 = (a3, w3)" by fastforce
  let ?a = "settle_accepted K (length ?d) a3"
  have get: "kd_get K a3 = kd_get K a1" "cfg a3 = cfg a1" using confirmKeys_get [OF c] by simp_all
  have t: "tr ?a = t1" using confirmKeys_keeps [OF c] by (simp add: settle_accepted_def keeps_def)
  have l3: "later w2 w3" "http_trace w3 = http_trace w2" using confirmKeys_later [OF c] confirmKeys_http [OF c] by simp_all
  have del: "rested (Suc k) t1 w2" "cstate (breaker t1) = circuitClosed" "t_cfg t1 = t_cfg (tr a)" "later w1 w2"
    "length (http_trace w2) = Suc (length (http_trace w1))"
    using s(2) g(7) by (simp_all add: delivered_def)
  have "flush_kind E K c force a w = (None, ?a, w3)"
    using assms(6) d ss c by (simp add: flush_kind_def settle_def Let_def)
  then show thesis
  proof (rule that)
    show "emptied (kd_get K a) (kd_get K ?a)" by (simp add: emptied_def settle_get get g(3))
    show "rested (Suc k) (tr ?a) w3" unfolding t by (rule rested_later [OF del(1) l3(1)])
    show "later w w3" using later_trans [OF l1 later_trans [OF del(4) l3(1)]] .
    show "cfg ?a = cfg a" using get g(4) by (simp add: settle_frame)
    show "length (http_trace w3) \<le> Suc (length (http_trace w))" using l3(2) del(5) drain_http [OF d] by simp
  qed (simp_all add: t del)
qed

text \<open>The same for a kind that may be disabled.\<close>

lemma flush_either:
  assumes "rested k (tr a) w" "k < 99" "server_up E (tick w)" "serialises E (t_cfg (tr a))"
    and "force \<or> gate_open (kd_get K a) w"
  obtains a' w' where "flush_kind E K c force a w = (None, a', w')"
    "kd_enabled K (cfg a) \<longrightarrow> emptied (kd_get K a) (kd_get K a')"
    "rested (Suc k) (tr a') w'" "t_cfg (tr a') = t_cfg (tr a)" "later w w'" "cfg a' = cfg a"
    "length (http_trace w') \<le> Suc (length (http_trace w))"
    "kd_enabled K (cfg a) \<and> items (kd_get K a) \<noteq> [] \<or> cstate (breaker (tr a)) = circuitClosed
       \<longrightarrow> cstate (breaker (tr a')) = circuitClosed"
proof (cases "kd_enabled K (cfg a)")
  case True
  obtain a' w' where f: "flush_kind E K c force a w = (None, a', w')" "emptied (kd_get K a) (kd_get K a')"
    "rested (Suc k) (tr a') w'" "t_cfg (tr a') = t_cfg (tr a)" "later w w'" "cfg a' = cfg a"
    "length (http_trace w') \<le> Suc (length (http_trace w))"
    "items (kd_get K a) \<noteq> [] \<or> cstate (breaker (tr a)) = circuitClosed \<longrightarrow> cstate (breaker (tr a')) = circuitClosed"
    by (rule flush_healthy [OF assms True])
  show thesis by (rule that [OF f(1)]) (use f in auto)
next
  case False
  then have f: "flush_kind E K c force a w = (None, a, w)" by (simp add: flush_kind_def)
  show thesis by (rule that [OF f]) (use False rested_Suc [OF assms(1)] in auto)
qed

end

text \<open>Both kinds, one after the other, as \<open>Flush\<close> and \<open>Stop\<close> do it.\<close>

definition caught_up :: "agent \<Rightarrow> world \<Rightarrow> agent \<Rightarrow> world \<Rightarrow> bool" where
  "caught_up a w a' w' \<longleftrightarrow> (EnableEvents (cfg a) \<longrightarrow> emptied (events a) (events a'))
     \<and> (EnableMetrics (cfg a) \<longrightarrow> emptied (metrics a) (metrics a'))
     \<and> (EnableEvents (cfg a) \<and> items (events a) \<noteq> [] \<or> EnableMetrics (cfg a) \<and> items (metrics a) \<noteq> []
         \<longrightarrow> cstate (breaker (tr a')) = circuitClosed)
     \<and> length (http_trace w') \<le> length (http_trace w) + 2"

lemma both_healthy:
  assumes "rested 0 (tr a) w" "server_up E (tick w)" "serialises E (t_cfg (tr a))"
    and "force \<or> gate_open (events a) w \<and> gate_open (metrics a) w"
  obtains a1 w1 a' w' where "flushEvents E c force a w = (None, a1, w1)" "flushMetrics E c force a1 w1 = (None, a', w')"
    "caught_up a w a' w'"
proof -
  have kd: "kd_get event_kind = events" "kd_get metric_kind = metrics" "kd_enabled event_kind = EnableEvents"
    "kd_enabled metric_kind = EnableMetrics" by (simp_all add: event_kind_def metric_kind_def)
  have ge: "force \<or> gate_open (kd_get event_kind a) w" using assms(4) by (auto simp: kd)
  obtain a1 w1 where e: "flush_kind E event_kind c force a w = (None, a1, w1)"
    "EnableEvents (cfg a) \<longrightarrow> emptied (events a) (events a1)" "rested (Suc 0) (tr a1) w1" "t_cfg (tr a1) = t_cfg (tr a)"
    "later w w1" "cfg a1 = cfg a" "length (http_trace w1) \<le> Suc (length (http_trace w))"
    "EnableEvents (cfg a) \<and> items (events a) \<noteq> [] \<longrightarrow> cstate (breaker (tr a1)) = circuitClosed"
    by (rule ea.flush_either [OF assms(1) _ assms(2,3) ge, of c]) (simp_all add: kd)
  have m1: "metrics a1 = metrics a" using em.flush_other [OF e(1)] by (simp add: kd)
  have gm: "force \<or> gate_open (kd_get metric_kind a1) w1" using assms(4) gate_open_later [OF _ e(5)] by (auto simp: kd m1)
  obtain a' w' where m: "flush_kind E metric_kind c force a1 w1 = (None, a', w')"
    "EnableMetrics (cfg a) \<longrightarrow> emptied (metrics a) (metrics a')"
    "length (http_trace w') \<le> Suc (length (http_trace w1))"
    "EnableMetrics (cfg a) \<and> items (metrics a) \<noteq> [] \<or> cstate (breaker (tr a1)) = circuitClosed
       \<longrightarrow> cstate (breaker (tr a')) = circuitClosed"
    by (rule ma.flush_either [OF e(3) _ server_up_world [OF assms(2) e(5)] _ gm, of c])
       (use assms(3) e(4,6) m1 in \<open>simp_all add: kd\<close>)
  have e1: "events a' = events a1" using me.flush_other [OF m(1)] by (simp add: kd)
  have "caught_up a w a' w'" using e m by (auto simp: caught_up_def e1)
  with e(1) m(1) show thesis by (intro that) (simp_all add: flushEvents_def flushMetrics_def)
qed

section \<open>After an outage\<close>



section \<open>A closed example\<close>

lemma calm_up: "server_up calm n" "serialises calm c"
  by (simp_all add: server_up_def serialises_def evaluateBatchResponse_def) (simp add: calm_def)

lemma calm_life: "\<exists>w1 b ev w. New calm (sample_config []) start = (Inr (calm_agent [] False), w1)
    \<and> live calm [CSendEvent sample_event] (calm_agent [] False) w1 = Some (calm_agent [\<lparr>payload = ev, key = []\<rparr>] b, w)"
proof -
  obtain w1 where n: "New calm (sample_config []) start = (Inr (calm_agent [] False), w1)" using calm_New by blast
  obtain b ev w where "SendEvent calm sample_event (calm_agent [] False) w1
      = (Returned None, calm_agent [\<lparr>payload = ev, key = []\<rparr>] b, w)" using calm_SendEvent by blast
  with n show ?thesis by fastforce
qed



end
