(* ===== verification/Poison.thy ===== *)
theory Poison
  imports Progress
begin

text \<open>
  A metric whose value is NaN or infinite. \<open>SendMetric\<close> checks the type of a metric and not its value, and
  encoding/json refuses such a value, so that no batch with the metric in it can be serialised: it holds
  up every metric that shares the buffer with it.
\<close>

definition nonfinite :: "f64 \<Rightarrow> bool" where
  "nonfinite x \<longleftrightarrow> (case x of Fin r \<Rightarrow> False | _ \<Rightarrow> True)"

text \<open>Documented of \<open>json.Marshal\<close>: floating point values that are NaN or infinite give an error.\<close>

definition json_refuses_nonfinite :: "env \<Rightarrow> bool" where
  "json_refuses_nonfinite E \<longleftrightarrow>
     (\<forall>b. list_ex (\<lambda>m. nonfinite (m_Value m)) (b_Metrics b) \<longrightarrow> (\<exists>err. jsonMarshal E (JBatch b) = Inl err))
   \<and> (\<forall>ms. list_ex (\<lambda>m. nonfinite (m_Value m)) ms \<longrightarrow> (\<exists>err. jsonMarshal E (JMetrics ms) = Inl err))"

lemma redacted_value [simp]: "m_Value (redactMetricTags E m hs) = m_Value m"
  by (simp add: redactMetricTags_def split: option.split)

text \<open>With or without encryption, a batch that holds one is not sent.\<close>

lemma poisoned_batch:
  assumes "json_refuses_nonfinite E" "list_ex (\<lambda>m. nonfinite (m_Value m)) ms"
    and "sendItems E c metric_batches ms t w = (r, t', w')"
  shows "\<exists>e. r = Inr (outcomePartial, Some e) \<and> t' = t \<and> http_trace w' = http_trace w"
proof -
  have ne: "ms \<noteq> []" using assms(2) by auto
  show ?thesis
  proof (cases "encryptor t")
    case (Some p)
    from assms(1,2) obtain err where "jsonMarshal E (JMetrics ms) = Inl err" unfolding json_refuses_nonfinite_def by blast
    with ne have "canonicalItemsJSON E [] ms = Inl (Errorf err)" by (simp add: canonicalItemsJSON_def Let_def)
    moreover have "bk_encrypted metric_batches ms = ([], ms)" by (simp add: metric_batches_def)
    ultimately show ?thesis using assms(3) Some ne
      by (auto simp: sendItems.simps [of E c metric_batches ms] sendEncryptedBatch_def Let_def)
  next
    case None
    have bad: "\<exists>err. marshalBatch E t (bk_put metric_batches ms b) = Inl err" for b
    proof -
      let ?b = "redactBatch E (bk_put metric_batches ms b) (sensitive (t_cfg t))"
      have "list_ex (\<lambda>m. nonfinite (m_Value m)) (b_Metrics ?b)"
        using assms(2) by (simp add: redactBatch_def metric_batches_def list_ex_iff)
      with assms(1) obtain err where "jsonMarshal E (JBatch ?b) = Inl err" unfolding json_refuses_nonfinite_def by blast
      then show ?thesis by (simp add: marshalBatch_def Let_def)
    qed
    obtain b w1 where n: "new_batch E t w = (b, w1)" by fastforce
    from bad [of b] obtain err where "marshalBatch E t (bk_put metric_batches ms b) = Inl err" by blast
    with assms(3) None ne n new_batch_trace [OF n] show ?thesis
      by (auto simp: sendItems.simps [of E c metric_batches ms])
  qed
qed

text \<open>A flush of the metrics leaves such a buffer as it is.\<close>

definition stuck :: "SecurityMetric kstate \<Rightarrow> Config \<Rightarrow> bool" where
  "stuck s c \<longleftrightarrow> list_ex (\<lambda>b. nonfinite (m_Value (payload b))) (items s) \<and> int (length (items s)) \<le> BufferSize c"

lemma poisoned_flush:
  assumes "json_refuses_nonfinite E" "stuck (metrics a) (cfg a)" "flushMetrics E c force a w = (r, a', w')"
  shows "items (metrics a') = items (metrics a) \<and> sent_count (metrics a') = sent_count (metrics a) \<and> cfg a' = cfg a
    \<and> http_trace w' = http_trace w \<and> (EnableMetrics (cfg a) \<and> force \<longrightarrow> r \<noteq> None)"
proof -
  have kd: "kd_get metric_kind = metrics" "kd_batches metric_kind = metric_batches" "kd_enabled metric_kind = EnableMetrics"
    by (simp_all add: metric_kind_def)
  from assms(3) have f: "flush_kind E metric_kind c force a w = (r, a', w')" by (simp add: flushMetrics_def)
  from f show ?thesis
  proof (cases rule: mk.flush_kind_cases)
    case nothing
    then show ?thesis using assms(2) by (auto simp: stuck_def kd)
  next
    case (flushed a1 w1 o' err t1 w2)
    note g = mk.drain_get [OF flushed(2)]
    have bad: "list_ex (\<lambda>m. nonfinite (m_Value m)) (map payload (items (metrics a)))"
      using assms(2) by (simp add: stuck_def list_ex_iff)
    from flushed(4) obtain q where q: "sendItems E c metric_batches (map payload (items (metrics a))) (tr a) w1 = (q, t1, w2)"
      by (rule sendSafely_cases) (simp add: kd)
    from poisoned_batch [OF assms(1) bad q] obtain e where p: "q = Inr (outcomePartial, Some e)" "t1 = tr a"
      "http_trace w2 = http_trace w1" by blast
    with flushed(4) q have o': "o' = outcomePartial" by (simp add: sendSafely_def kd)
    have n: "\<not> outcomeConfirms o'" by (simp add: o' outcomeConfirms_def)
    have "int (length (items (kd_get metric_kind a))) \<le> BufferSize (cfg (a1\<lparr>tr := t1\<rparr>))"
      using assms(2) g(4) by (simp add: stuck_def kd)
    from mk.settle_refused [OF flushed(5) n _ this] g
    have s: "r \<noteq> None" "items (metrics a') = items (metrics a)" "sent_count (metrics a') = sent_count (metrics a)"
      by (simp_all add: kd)
    have "cfg a' = cfg a" using mk.flush_grows [OF f] by (simp add: queue_grows_def)
    moreover have "http_trace w' = http_trace w"
      using settle_http [OF flushed(5)] p(3) drain_http [OF flushed(2)] by simp
    ultimately show ?thesis using s by simp
  qed
qed

text \<open>One flush after the other, forced or not.\<close>

fun flush_rounds :: "env \<Rightarrow> (ctx \<times> bool) list \<Rightarrow> agent \<Rightarrow> world \<Rightarrow> agent \<times> world" where
  "flush_rounds E [] a w = (a, w)"
| "flush_rounds E ((c, force) # xs) a w = (case flushMetrics E c force a w of (r, a1, w1) \<Rightarrow> flush_rounds E xs a1 w1)"

lemma poisoned_rounds:
  "json_refuses_nonfinite E \<Longrightarrow> stuck (metrics a) (cfg a) \<Longrightarrow> flush_rounds E xs a w = (a', w') \<Longrightarrow> items (metrics a') = items (metrics a)
    \<and> sent_count (metrics a') = sent_count (metrics a) \<and> cfg a' = cfg a \<and> http_trace w' = http_trace w"
proof (induction E xs a w rule: flush_rounds.induct)
  case (2 E c force xs a w)
  obtain r a1 w1 where f: "flushMetrics E c force a w = (r, a1, w1)" by (metis prod.collapse)
  note p = poisoned_flush [OF "2.prems"(1,2) f]
  then have "stuck (metrics a1) (cfg a1)" using "2.prems"(2) by (simp add: stuck_def)
  from "2.IH" [OF f [symmetric] refl "2.prems"(1) this] "2.prems"(3) p show ?case by (simp add: f)
qed simp

text \<open>One metric with a NaN or infinite value stops the delivery of all metrics: as long as it is in the
  buffer, no number of flushes sends a request for metrics, counts one as sent or takes one out of the
  buffer, whatever the server would answer, with encryption or without; and a forced flush, like the last
  one of \<open>Stop\<close>, reports an error.\<close>

theorem nonfinite_metric_blocks:
  assumes "json_refuses_nonfinite E" and "m \<in> payload ` set (items (metrics a))" and "nonfinite (m_Value m)"
    and "int (length (items (metrics a))) \<le> BufferSize (cfg a)"
    and "flush_rounds E xs a w = (a', w')"
  shows "items (metrics a') = items (metrics a) \<and> sent_count (metrics a') = sent_count (metrics a)
    \<and> http_trace w' = http_trace w \<and> (EnableMetrics (cfg a) \<longrightarrow> fst (flushMetrics E c True a' w') \<noteq> None)"
proof -
  have "stuck (metrics a) (cfg a)" using assms(2-4) by (auto simp: stuck_def list_ex_iff)
  note main = poisoned_rounds [OF assms(1) this assms(5)]
  with assms(2-4) have s: "stuck (metrics a') (cfg a')" by (auto simp: stuck_def list_ex_iff)
  have "EnableMetrics (cfg a) \<longrightarrow> fst (flushMetrics E c True a' w') \<noteq> None"
    using poisoned_flush [OF assms(1) s, of c True w'] main by (cases "flushMetrics E c True a' w'") simp
  with main show ?thesis by simp
qed

section \<open>A closed example\<close>

definition nan_metric :: SecurityMetric where
  "nan_metric = \<lparr>m_Timestamp = 1, m_MetricType = ''response_time'', m_Value = NaN, m_Endpoint = [], m_Tags = None\<rparr>"

definition poisoned_agent :: agent where
  "poisoned_agent = sample_agent\<lparr>metrics := empty_kstate\<lparr>items := [\<lparr>payload = nan_metric, key = []\<rparr>], buffered := 1\<rparr>\<rparr>"

end
