(* ===== verification/Examples.thy ===== *)
theory Examples
  imports Progress
begin

text \<open>
  The two programs under examples/: \<open>basic_usage\<close>, the wiring of the agent into an engine's \<open>OnBlock\<close> hook, and
  \<open>demo_app\<close>, an HTTP server that emits a test event per request. A program is what it does to its agent
  between the start and the interrupt: its own handlers and, in between, the background loops. The
  environment variables, the engine and net/http are outside.
\<close>

section \<open>The configuration of the examples\<close>

text \<open>The zero value of \<open>Config\<close>, which a composite literal starts from.\<close>

definition zero_config :: Config where
  "zero_config = \<lparr>APIKey = [], Endpoint = [], ProjectID = [], BufferSize = 0, FlushInterval = 0, StatusInterval = 0,
     DynamicRuleInterval = 0, HighWatermarkRatio = Fin 0, MaxConcurrentFlushes = 0, Overflow = [],
     EnableEvents = False, EnableMetrics = False, RetryAttempts = 0, Timeout = 0, BackoffFactor = Fin 0,
     CompressionEnabled = False, CompressionThreshold = 0, SigningSecret = [], ProjectEncryptionKey = [],
     SensitiveHeaders = None, MaxPayloadSize = 0, OnError = False, InstallID = [], InstallIDPath = [],
     Redis = None, GuardVersion = [], GuardCoreVersion = []\<rparr>"

definition basic_config :: "(gostring \<Rightarrow> gostring) \<Rightarrow> Config" where
  "basic_config getenv = zero_config\<lparr>APIKey := getenv ''GUARD_AGENT_API_KEY'',
     ProjectID := getenv ''GUARD_AGENT_PROJECT_ID'', SigningSecret := getenv ''GUARD_AGENT_SIGNING_SECRET'',
     GuardVersion := ''example'', GuardCoreVersion := ''4.0.4''\<rparr>"

definition envOr :: "(gostring \<Rightarrow> gostring) \<Rightarrow> gostring \<Rightarrow> gostring \<Rightarrow> gostring" where
  "envOr getenv k fallback = (if getenv k \<noteq> [] then getenv k else fallback)"

definition demo_endpoint :: "(gostring \<Rightarrow> gostring) \<Rightarrow> gostring" where
  "demo_endpoint getenv = envOr getenv ''GUARD_AGENT_ENDPOINT'' ''https://api.guard-core.com''"

definition demo_project :: "(gostring \<Rightarrow> gostring) \<Rightarrow> gostring" where
  "demo_project getenv = envOr getenv ''GUARD_AGENT_PROJECT_ID'' ''demo-project''"

definition demo_config :: "(gostring \<Rightarrow> gostring) \<Rightarrow> Config" where
  "demo_config getenv = zero_config\<lparr>APIKey := envOr getenv ''GUARD_AGENT_API_KEY'' ''demo-api-key-12345'',
     Endpoint := demo_endpoint getenv, ProjectID := demo_project getenv,
     SigningSecret := getenv ''GUARD_AGENT_SIGNING_SECRET'', BufferSize := 10, FlushInterval := 5 * Second,
     GuardVersion := ''demo'', GuardCoreVersion := ''4.3.2''\<rparr>"

section \<open>The engine hook\<close>

definition stringField :: "gomap \<Rightarrow> gostring \<Rightarrow> gostring" where
  "stringField body k = (case map_of body k of Some (GString v) \<Rightarrow> v | _ \<Rightarrow> [])"

text \<open>An event with nothing set.\<close>

definition zero_event :: SecurityEvent where
  "zero_event = \<lparr>ev_Timestamp = 0, ev_EventType = [], ev_IdempotencyKey = [], ev_IPAddress = [], ev_Country = [],
     ev_UserAgent = [], ev_ActionTaken = [], ev_Reason = [], ev_Endpoint = [], ev_Method = [], ev_StatusCode = None,
     ev_ResponseTime = None, ev_DecoratorType = [], ev_RuleType = [], ev_PatternMatched = [], ev_HandlerName = [],
     ev_Metadata = None\<rparr>"

definition OnBlock :: "env \<Rightarrow> gomap \<Rightarrow> agent \<Rightarrow> world \<Rightarrow> api \<times> agent \<times> world" where
  "OnBlock E body a w = (case now E w of (tm, w1) \<Rightarrow>
     SendEvent E (zero_event\<lparr>ev_Timestamp := tm, ev_EventType := ''suspicious_request'',
       ev_IPAddress := stringField body ''client_ip'', ev_Endpoint := stringField body ''path'',
       ev_Method := stringField body ''method'', ev_ActionTaken := ''BLOCKED'',
       ev_Reason := stringField body ''reason''\<rparr>) a w1)"

text \<open>What happens until the interrupt: blocked requests, and passes of the background loops.\<close>

fun until_interrupt :: "env \<Rightarrow> (gomap + call) list \<Rightarrow> agent \<Rightarrow> world \<Rightarrow> (agent \<times> world) option" where
  "until_interrupt E [] a w = Some (a, w)"
| "until_interrupt E (Inl body # xs) a w = (case OnBlock E body a w of (r, a1, w1) \<Rightarrow> until_interrupt E xs a1 w1)"
| "until_interrupt E (Inr x # xs) a w = (case perform E x a w of None \<Rightarrow> None | Some (a1, w1) \<Rightarrow> until_interrupt E xs a1 w1)"

text \<open>\<open>main\<close>: the message of \<open>log.Fatalf\<close>, or the result of \<open>Stop\<close>. \<open>NewEngine_err\<close> is what the engine says.\<close>

definition basic_main :: "env \<Rightarrow> (gostring \<Rightarrow> gostring) \<Rightarrow> gostring option \<Rightarrow> ctx \<Rightarrow> (gomap + call) list \<Rightarrow> world
    \<Rightarrow> ((gostring + goerror option) \<times> agent option \<times> world) option" where
  "basic_main E getenv NewEngine_err shutdown xs w =
    (case New E (basic_config getenv) w of
       (Inl err, w1) \<Rightarrow> Some (Inl (''agent: '' @ Error (conv E) err), None, w1)
     | (Inr a, w1) \<Rightarrow> (case Start E a w1 of None \<Rightarrow> None
         | Some (Some err, a1, w2) \<Rightarrow> Some (Inl (''start: '' @ Error (conv E) err), Some a1, w2)
         | Some (None, a1, w2) \<Rightarrow> (case NewEngine_err of
             Some err \<Rightarrow> Some (Inl (''engine: '' @ err), Some a1, w2)
           | None \<Rightarrow> (case until_interrupt E xs a1 w2 of None \<Rightarrow> None
               | Some (a2, w3) \<Rightarrow> (case Stop E shutdown a2 w3 of (r, a3, w4) \<Rightarrow> Some (Inr r, Some a3, w4))))))"

section \<open>The demo server\<close>

abbreviation demoEventType :: gostring where "demoEventType \<equiv> ''custom_request_check''"

record demoServer =
  srv_agent :: agent
  srv_endpoint :: gostring
  srv_projectID :: gostring

definition buildTestEvent :: "env \<Rightarrow> world \<Rightarrow> SecurityEvent \<times> world" where
  "buildTestEvent E w = (case now E w of (tm, w1) \<Rightarrow>
     (zero_event\<lparr>ev_Timestamp := tm, ev_EventType := demoEventType, ev_IPAddress := ''192.168.1.100'',
       ev_ActionTaken := ''logged'', ev_Reason := ''Guard Agent demo container test event'',
       ev_Endpoint := ''/demo/test-event'', ev_Method := ''POST'',
       ev_Metadata := Some [(''source'', GString ''guard-agent-demo-container'')]\<rparr>, w1))"

text \<open>A reply: the status code, the content type and the map that is encoded into the body.\<close>

record reply =
  reply_code :: int
  reply_type :: gostring
  reply_map :: "(gostring \<times> gostring) list"

definition writeJSON :: "int \<Rightarrow> (gostring \<times> gostring) list \<Rightarrow> reply" where
  "writeJSON status m = \<lparr>reply_code = status, reply_type = ''application/json'', reply_map = m\<rparr>"

definition handleRoot :: "demoServer \<Rightarrow> reply" where
  "handleRoot s = writeJSON 200 [(''service'', ''guard-agent-demo''), (''endpoint'', srv_endpoint s), (''projectID'', srv_projectID s)]"

definition handleHealth :: "env \<Rightarrow> demoServer \<Rightarrow> world \<Rightarrow> reply \<times> world" where
  "handleHealth E s w = (case agent_Status E (srv_agent s) w of (st, w1) \<Rightarrow> (writeJSON 200 [(''status'', State st)], w1))"

text \<open>No reply yet (None) while the send waits for space.\<close>

definition handleEvents :: "env \<Rightarrow> gostring \<Rightarrow> demoServer \<Rightarrow> world \<Rightarrow> reply option \<times> demoServer \<times> world" where
  "handleEvents E Method s w =
    (if Method \<noteq> ''POST'' then (Some (writeJSON 405 [(''error'', ''POST only'')]), s, w)
     else case buildTestEvent E w of (event, w1) \<Rightarrow>
       (case SendEvent E event (srv_agent s) w1 of (r, a, w2) \<Rightarrow>
         (case r of Waiting \<Rightarrow> None
          | Returned (Some err) \<Rightarrow> Some (writeJSON 500 [(''error'', Error (conv E) err)])
          | Returned None \<Rightarrow> Some (writeJSON 200 [(''emitted'', ev_EventType event)]), s\<lparr>srv_agent := a\<rparr>, w2)))"

text \<open>What the three handlers answer.\<close>

datatype request = GetRoot | GetHealth | Events gostring

definition serve :: "env \<Rightarrow> request \<Rightarrow> demoServer \<Rightarrow> world \<Rightarrow> reply option \<times> demoServer \<times> world" where
  "serve E rq s w = (case rq of
     GetRoot \<Rightarrow> (Some (handleRoot s), s, w)
   | GetHealth \<Rightarrow> (case handleHealth E s w of (rp, w1) \<Rightarrow> (Some rp, s, w1))
   | Events Method \<Rightarrow> handleEvents E Method s w)"

section \<open>The routes\<close>

text \<open>
  What \<open>HandleFunc\<close> of net/http does since Go 1.22 with patterns that have neither host nor wildcard. A pattern is a
  method (none: every method) and a path (a trailing slash: the whole subtree); two patterns that some
  request matches, neither of them the more specific one, conflict, and the second registration panics.
\<close>

datatype pattern = Pattern (p_method: gostring) (p_path: gostring)

datatype relationship = Equivalent | MoreGeneral | MoreSpecific | Disjoint | Overlaps

definition compareMethods :: "gostring \<Rightarrow> gostring \<Rightarrow> relationship" where
  "compareMethods m n = (if m = n then Equivalent else if m = [] then MoreGeneral else if n = [] then MoreSpecific
     else if m = ''GET'' \<and> n = ''HEAD'' then MoreGeneral else if n = ''GET'' \<and> m = ''HEAD'' then MoreSpecific else Disjoint)"

definition subtree :: "gostring \<Rightarrow> gostring \<Rightarrow> bool" where
  "subtree p q \<longleftrightarrow> p \<noteq> [] \<and> last p = CHR ''/'' \<and> take (length p) q = p"

definition comparePaths :: "gostring \<Rightarrow> gostring \<Rightarrow> relationship" where
  "comparePaths p q = (if p = q then Equivalent else if subtree p q then MoreGeneral
     else if subtree q p then MoreSpecific else Disjoint)"

fun combineRelationships :: "relationship \<Rightarrow> relationship \<Rightarrow> relationship" where
  "combineRelationships Equivalent r = r"
| "combineRelationships Disjoint r = Disjoint"
| "combineRelationships Overlaps r = (if r = Disjoint then Disjoint else Overlaps)"
| "combineRelationships r Equivalent = r"
| "combineRelationships MoreGeneral MoreSpecific = Overlaps"
| "combineRelationships MoreSpecific MoreGeneral = Overlaps"
| "combineRelationships _ r = r"

definition conflictsWith :: "pattern \<Rightarrow> pattern \<Rightarrow> bool" where
  "conflictsWith p q \<longleftrightarrow> combineRelationships (compareMethods (p_method p) (p_method q)) (comparePaths (p_path p) (p_path q))
     \<in> {Equivalent, Overlaps}"

fun HandleFuncs :: "pattern list \<Rightarrow> pattern list \<Rightarrow> (pattern \<times> pattern) + pattern list" where
  "HandleFuncs registered [] = Inr registered"
| "HandleFuncs registered (p # ps) = (case find (conflictsWith p) registered of
     Some q \<Rightarrow> Inl (p, q) | None \<Rightarrow> HandleFuncs (registered @ [p]) ps)"

definition demo_routes :: "pattern list" where
  "demo_routes = [Pattern ''GET'' ''/'', Pattern ''GET'' ''/health'', Pattern [] ''/events'']"

text \<open>
  \<open>main\<close> up to the listening: how it ends before (the message of \<open>log.Fatalf\<close>, or the panic of a registration), or
  the server after the boot-time event (None when that event waits for space).
\<close>

datatype demo_end = Fatal gostring | Panics pattern pattern

definition demo_boot :: "env \<Rightarrow> (gostring \<Rightarrow> gostring) \<Rightarrow> world \<Rightarrow> ((demo_end + demoServer) \<times> world) option" where
  "demo_boot E getenv w =
    (case New E (demo_config getenv) w of
       (Inl err, w1) \<Rightarrow> Some (Inl (Fatal (''agent: '' @ Error (conv E) err)), w1)
     | (Inr a, w1) \<Rightarrow> (case Start E a w1 of None \<Rightarrow> None
         | Some (Some err, a1, w2) \<Rightarrow> Some (Inl (Fatal (''start: '' @ Error (conv E) err)), w2)
         | Some (None, a1, w2) \<Rightarrow> (case HandleFuncs [] demo_routes of
             Inl (p, q) \<Rightarrow> Some (Inl (Panics p q), w2)
           | Inr mux \<Rightarrow> (case buildTestEvent E w2 of (event, w3) \<Rightarrow>
               (case SendEvent E event a1 w3 of (r, a2, w4) \<Rightarrow>
                 (case r of Waiting \<Rightarrow> None
                  | Returned err \<Rightarrow> Some (Inr \<lparr>srv_agent = a2, srv_endpoint = demo_endpoint getenv,
                      srv_projectID = demo_project getenv\<rparr>, w4)))))))"

text \<open>The requests served, each with its reply, and passes of the background loops.\<close>

fun demo_run :: "env \<Rightarrow> (request + call) list \<Rightarrow> demoServer \<Rightarrow> world
    \<Rightarrow> ((request \<times> reply option) list \<times> demoServer \<times> world) option" where
  "demo_run E [] s w = Some ([], s, w)"
| "demo_run E (Inl rq # xs) s w = (case serve E rq s w of (rp, s1, w1) \<Rightarrow>
     map_option (\<lambda>(rps, s2, w2). ((rq, rp) # rps, s2, w2)) (demo_run E xs s1 w1))"
| "demo_run E (Inr x # xs) s w = (case perform E x (srv_agent s) w of None \<Rightarrow> None
     | Some (a1, w1) \<Rightarrow> demo_run E xs (s\<lparr>srv_agent := a1\<rparr>) w1)"

text \<open>
  The end of \<open>main\<close>. \<open>ListenAndServe\<close> returns as soon as \<open>Shutdown\<close> is called, and \<open>main\<close> returns with it; whether the
  goroutine gets as far as \<open>Stop\<close> before the process is gone is up to the scheduler.
\<close>

definition demo_exit :: "env \<Rightarrow> ctx \<Rightarrow> bool \<Rightarrow> demoServer \<Rightarrow> world \<Rightarrow> demoServer \<times> world" where
  "demo_exit E shutdown stop_ran s w =
    (if stop_ran then (case Stop E shutdown (srv_agent s) w of (r, a, w1) \<Rightarrow> (s\<lparr>srv_agent := a\<rparr>, w1)) else (s, w))"

section \<open>What the examples send\<close>

text \<open>An agent both of whose kinds are disabled, and that never buffered anything.\<close>

definition mute :: "agent \<Rightarrow> bool" where
  "mute a \<longleftrightarrow> \<not> EnableEvents (cfg a) \<and> \<not> EnableMetrics (cfg a) \<and> events a = empty_kstate \<and> metrics a = empty_kstate
     \<and> t_cfg (tr a) = cfg a \<and> \<not> closed a \<and> persist a = None"

text \<open>The requests that carry no telemetry: status reports and the fetching of rules.\<close>

definition no_telemetry :: "Config \<Rightarrow> world \<Rightarrow> world \<Rightarrow> bool" where
  "no_telemetry c w w' \<longleftrightarrow> (\<exists>tr. http_trace w' = http_trace w @ tr
     \<and> (\<forall>(rq, a) \<in> set tr. rq_url rq = Endpoint c @ statusPath \<or> rq_url rq = Endpoint c @ rulesPath))"

lemma no_telemetry_same [simp]: "http_trace w' = http_trace w \<Longrightarrow> no_telemetry c w w'"
  by (simp add: no_telemetry_def)

lemma no_telemetry_trans [trans]: "no_telemetry c u v \<Longrightarrow> no_telemetry c v w \<Longrightarrow> no_telemetry c u w"
  by (auto simp: no_telemetry_def)

text \<open>A step of such an agent.\<close>

definition idle :: "agent \<Rightarrow> world \<Rightarrow> agent \<Rightarrow> world \<Rightarrow> bool" where
  "idle a w a' w' \<longleftrightarrow> (mute a \<longrightarrow> mute a' \<and> cfg a' = cfg a \<and> no_telemetry (cfg a) w w')"

lemma idle_refl [simp, intro]: "idle a w a w"
  by (simp add: idle_def)

lemma idle_trans [trans]: "idle a w b v \<Longrightarrow> idle b v c u \<Longrightarrow> idle a w c u"
  unfolding idle_def using no_telemetry_trans by metis

lemma idle_http: "http_trace w' = http_trace w \<Longrightarrow> idle a w a w'"
  by (simp add: idle_def)

lemma sendStatus_requests:
  assumes "sendStatus E c body t w = (r, t', w')"
  shows "no_telemetry (t_cfg t) w w' \<and> t_cfg t' = t_cfg t"
proof (cases "marshalStatus E body")
  case (Inl err)
  with assms show ?thesis by (auto simp: sendStatus_def)
next
  case (Inr raw)
  obtain q t1 w1 where s: "sendBatch E c statusPath raw False t w = (q, t1, w1)" by (metis prod.collapse)
  from sendBatch_done [OF s] obtain as where d: "same_transport t t1" "batch_done E statusPath raw False t w q t1 w1 as" by blast
  then have "no_telemetry (t_cfg t) w w1"
    by (auto simp: batch_done_def no_telemetry_def batch_request_def the_request_def)
  moreover have "w' = w1 \<and> (t' = t1 \<or> t' = bump_failed t1)"
    using assms by (auto simp: sendStatus_def Inr s split: sum.splits prod.splits if_splits)
  ultimately show ?thesis using d(1) by (auto simp: same_transport_def bump_failed_def)
qed

lemma reportStatus_idle:
  assumes "reportStatus E c a w = (a', w')"
  shows "idle a w a' w'"
proof -
  obtain body w1 where p: "statusPayload E a w = (body, w1)" by (metis prod.collapse)
  obtain outcome err t1 w2 where s: "sendStatusSafely E c body (tr a) w1 = ((outcome, err), t1, w2)" by (metis prod.collapse)
  then obtain r where "sendStatus E c body (tr a) w1 = (r, t1, w2)"
    by (auto simp: sendStatusSafely_def split: sum.splits prod.splits)
  note d = sendStatus_requests [OF this] and f = statusPayload_frame [OF p]
  have a': "a' = record_report E outcome err (a\<lparr>tr := t1\<rparr>)" "w' = w2" using assms p s by (simp_all add: reportStatus_def)
  have "no_telemetry (t_cfg (tr a)) w w2" using d f no_telemetry_trans [of _ w w1 w2] by simp
  with d show ?thesis by (auto simp: idle_def mute_def a' record_report_def recordErrorLocked_def Let_def)
qed

lemma GetDynamicRules_idle:
  assumes "GetDynamicRules E c a w = (res, a', w')"
  shows "idle a w a' w'"
proof -
  from GetDynamicRules_result [OF assms] obtain as where
    s: "same_buffers a w a' w'" "http_trace w' = http_trace w @ map (Pair (rules_request (tr a))) as" by blast
  then have "no_telemetry (t_cfg (tr a)) w w'" by (auto simp: no_telemetry_def rules_request_def)
  moreover have "t_cfg (tr a') = t_cfg (tr a) \<and> closed a' = closed a"
    using assms by (auto simp: GetDynamicRules_def same_transport_def split: prod.splits if_splits sum.splits
        dest!: fetchRulesSafely_done)
  ultimately show ?thesis using s(1) by (auto simp: idle_def mute_def same_buffers_def)
qed

lemma Flush_idle: "mute a \<Longrightarrow> Flush E c a w = (None, a, w)"
  by (simp add: mute_def Flush_def guardClosed_def flushEvents_def flushMetrics_def flush_kind_def errors_Join_def
      event_kind_def metric_kind_def)

fun background :: "call \<Rightarrow> bool" where
  "background (CFlushTick n) = True"
| "background CWake = True"
| "background CReport = True"
| "background (CRules c) = True"
| "background CConfirm = True"
| "background _ = False"

lemma background_idle:
  assumes "perform E x a w = Some (a', w')" "background x"
  shows "idle a w a' w'"
proof (cases x)
  case (CFlushTick n)
  with assms(1) show ?thesis by (auto simp: idle_def flushTick_def Flush_idle)
next
  case CWake
  with assms(1) show ?thesis
    by (auto simp: idle_def wake_def flushIfNeeded_def combined_def mute_def empty_kstate_def split: if_splits)
next
  case CReport
  with assms(1) show ?thesis by (auto dest: reportStatus_idle)
next
  case (CRules c)
  with assms(1) show ?thesis by (cases "GetDynamicRules E c a w") (auto dest: GetDynamicRules_idle)
next
  case CConfirm
  have "http_trace (del E ks w) = http_trace w" for ks by (simp add: del_def redis_write_def)
  with CConfirm assms(1) show ?thesis by (auto simp: idle_def mute_def confirm_job_def split: list.splits)
qed (use assms(2) in simp_all)

lemma SendEvent_mute: "mute a \<Longrightarrow> SendEvent E ev a w = (Returned None, a, w)"
  by (simp add: mute_def SendEvent_def guardClosed_def)

lemma OnBlock_idle: "OnBlock E body a w = (r, a', w') \<Longrightarrow> idle a w a' w'"
  by (auto simp: OnBlock_def idle_def SendEvent_mute now_def Let_def)

lemma until_interrupt_idle:
  "until_interrupt E xs a w = Some (a', w') \<Longrightarrow> list_all (case_sum (\<lambda>_. True) background) xs \<Longrightarrow> idle a w a' w'"
proof (induction E xs a w rule: until_interrupt.induct)
  case (2 E body xs a w)
  then show ?case by (auto split: prod.splits intro: idle_trans OnBlock_idle)
next
  case (3 E x xs a w)
  then show ?case by (auto split: option.splits prod.splits intro: idle_trans background_idle)
qed simp

lemma Stop_mute:
  assumes "Stop E shutdown a w = (r, a', w')" "mute a"
  shows "r = None \<and> closed a' \<and> events a' = empty_kstate \<and> cfg a' = cfg a \<and> http_trace w' = http_trace w"
  using assms by (auto simp: mute_def Stop_def Let_def flushEvents_def flushMetrics_def flush_kind_def event_kind_def
      metric_kind_def errors_Join_def)

text \<open>The agent the examples start with.\<close>

lemma start_mute:
  assumes "New E c0 w = (Inr a, w1)" "Start E a w1 = Some (r, a1, w2)"
    and "\<not> EnableEvents c0" "\<not> EnableMetrics c0" "Redis c0 = None"
  shows "mute a1 \<and> r = None \<and> w2 = snd (now E w1) \<and> cfg a1 = cfg a"
proof -
  from assms(1) obtain c ws ident w1' enc p where n: "normalize E c0 = (c, ws, None)"
    and a: "a = new_agent c ident p ((newTransport c ident)\<lparr>encryptor := enc\<rparr>)" and p: "p = None \<longleftrightarrow> Redis c = None"
    by (rule New_cases)
  have "\<not> EnableEvents c" "\<not> EnableMetrics c" "Redis c = None"
    using n assms(3-5) by (auto simp: normalize_ok_iff fill_defaults_def)
  with p assms(2) show ?thesis
    by (auto simp: a Start_def mute_def new_agent_def newTransport_def Let_def split: prod.splits)
qed

lemma resolveInstallID_http: "resolveInstallID E k p w = (ident, w') \<Longrightarrow> http_trace w' = http_trace w"
  using gen_traces(1) [of E w]
  by (cases "gen_UUID4 E w") (auto simp: resolveInstallID_def create_install_id_def Let_def split: if_splits prod.splits file_read.splits)

lemma New_http:
  assumes "New E c0 w = (Inr a, w')" "ProjectEncryptionKey c0 = []"
  shows "http_trace w' = http_trace w"
proof -
  from assms(1) obtain c ws ident w1 enc p where n: "normalize E c0 = (c, ws, None)"
    and i: "resolveInstallID E (InstallID c) (InstallIDPath c) w = (ident, w1)"
    and e: "CreateEncryptor E (ProjectEncryptionKey c) = Inr enc" and w: "case enc of None \<Rightarrow> w' = w1 | Some q \<Rightarrow> VerifyKey E q w1 = (True, w')"
    by (rule New_cases)
  have "ProjectEncryptionKey c = []" using n assms(2) by (simp add: normalize_ok_iff fill_defaults_def)
  with e w have "w' = w1" by (simp add: CreateEncryptor_def)
  moreover have "http_trace w1 = http_trace w" by (rule resolveInstallID_http [OF i])
  ultimately show ?thesis by simp
qed

lemma serve_mute:
  assumes "serve E rq s w = (rp, s', w')" "mute (srv_agent s)"
  shows "srv_agent s' = srv_agent s \<and> http_trace w' = http_trace w
    \<and> (rq = Events ''POST'' \<longrightarrow> rp = Some (writeJSON 200 [(''emitted'', demoEventType)]))"
proof (cases rq)
  case (Events Method)
  with assms show ?thesis
    by (auto simp: serve_def handleEvents_def buildTestEvent_def SendEvent_mute now_def Let_def split: if_splits)
next
  case GetHealth
  with assms show ?thesis
    by (auto simp: serve_def handleHealth_def agent_Status_def now_def Let_def split: prod.splits if_splits)
qed (use assms in \<open>auto simp: serve_def\<close>)

lemma demo_run_mute:
  assumes "demo_run E xs s w = Some (rps, s', w')" "mute (srv_agent s)" "list_all (case_sum (\<lambda>_. True) background) xs"
  shows "mute (srv_agent s') \<and> cfg (srv_agent s') = cfg (srv_agent s) \<and> no_telemetry (cfg (srv_agent s)) w w'
    \<and> (\<forall>(rq, rp) \<in> set rps. rq = Events ''POST'' \<longrightarrow> rp = Some (writeJSON 200 [(''emitted'', demoEventType)]))"
  using assms
proof (induction E xs s w arbitrary: rps s' w' rule: demo_run.induct)
  case (2 E rq xs s w)
  obtain rp s1 w1 where v: "serve E rq s w = (rp, s1, w1)" by (metis prod.collapse)
  with "2.prems" obtain rps1 where r: "demo_run E xs s1 w1 = Some (rps1, s', w')" "rps = (rq, rp) # rps1"
    by auto
  note m = serve_mute [OF v "2.prems"(2)]
  with "2.prems"(2,3) have "mute (srv_agent s1)" "list_all (case_sum (\<lambda>_. True) background) xs" by simp_all
  from "2.IH" [OF v [symmetric] refl r(1) this] m r(2) show ?case
    using no_telemetry_trans [OF no_telemetry_same [of w1 w]] by auto
next
  case (3 E x xs s w)
  then obtain a1 w1 where p: "perform E x (srv_agent s) w = Some (a1, w1)"
    and r: "demo_run E xs (s\<lparr>srv_agent := a1\<rparr>) w1 = Some (rps, s', w')" by (auto split: option.splits)
  have i: "mute a1" "cfg a1 = cfg (srv_agent s)" "no_telemetry (cfg (srv_agent s)) w w1"
    using background_idle [OF p] "3.prems"(2,3) by (simp_all add: idle_def)
  from "3.IH" [OF p refl r] i "3.prems"(3) show ?case using no_telemetry_trans [OF i(3)] by auto
qed simp

text \<open>The demo never serves. \<open>GET /\<close> and \<open>/events\<close> both match a GET of /events, the first alone other GETs, the second
  alone other methods of /events, so that registering the third route panics, in every environment, once
  the agent has started; the boot-time event comes after it.\<close>

theorem demo_never_serves:
  "demo_boot E getenv w = Some (r, w') \<Longrightarrow>
    (\<exists>msg. r = Inl (Fatal msg)) \<or> r = Inl (Panics (Pattern [] ''/events'') (Pattern ''GET'' ''/''))"
proof -
  have "HandleFuncs [] demo_routes = Inl (Pattern [] ''/events'', Pattern ''GET'' ''/'')" by code_simp
  then show "demo_boot E getenv w = Some (r, w') \<Longrightarrow> ?thesis"
    by (auto simp: demo_boot_def split: sum.splits option.splits prod.splits)
qed

text \<open>Nor would it ship anything without that panic: the handlers answer every \<open>POST /events\<close> with 200 and the
  name of the event, and nothing is buffered.\<close>

theorem demo_handlers_mute:
  assumes "New E (demo_config getenv) w = (Inr a, v)" and "Start E a v = Some (None, a1, v1)" and "srv_agent s = a1"
    and "demo_run E xs s v1 = Some (rps, s', w')" and "list_all (case_sum (\<lambda>_. True) background) xs"
  shows "buffered (events (srv_agent s')) = 0 \<and> sent_count (events (srv_agent s')) = 0
    \<and> no_telemetry (cfg (srv_agent s)) v1 w'
    \<and> (\<forall>(rq, rp) \<in> set rps. rq = Events ''POST'' \<longrightarrow> rp = Some (writeJSON 200 [(''emitted'', demoEventType)]))"
proof -
  have "\<not> EnableEvents (demo_config getenv)" "\<not> EnableMetrics (demo_config getenv)" "Redis (demo_config getenv) = None"
    by (simp_all add: demo_config_def zero_config_def)
  from start_mute [OF assms(1,2) this] assms(3) have "mute (srv_agent s)" by simp
  from demo_run_mute [OF assms(4) this assms(5)] show ?thesis by (auto simp: mute_def empty_kstate_def)
qed

text \<open>C40. The wiring example loses every blocked request: its configuration is a composite literal that leaves
  \<open>EnableEvents\<close> at its zero value, so that, whatever is blocked and whatever the loops do, no event is ever
  buffered, nothing but status reports and fetches of rules goes out, and \<open>main\<close> ends without an error.\<close>

theorem basic_sends_nothing:
  assumes "basic_main E getenv None shutdown xs w = Some (Inr r, Some a, w')"
    and "list_all (case_sum (\<lambda>_. True) background) xs"
  shows "r = None \<and> closed a \<and> buffered (events a) = 0 \<and> sent_count (events a) = 0 \<and> no_telemetry (cfg a) w w'"
proof -
  from assms(1) obtain a0 v a1 v2 a2 v3 where n: "New E (basic_config getenv) w = (Inr a0, v)"
    and st: "Start E a0 v = Some (None, a1, v2)" and u: "until_interrupt E xs a1 v2 = Some (a2, v3)"
    and s: "Stop E shutdown a2 v3 = (r, a, w')"
    by (auto simp: basic_main_def split: sum.splits option.splits prod.splits)
  have c: "\<not> EnableEvents (basic_config getenv)" "\<not> EnableMetrics (basic_config getenv)" "Redis (basic_config getenv) = None"
    by (simp_all add: basic_config_def zero_config_def)
  have "http_trace v = http_trace w" by (rule New_http [OF n]) (simp add: basic_config_def zero_config_def)
  with start_mute [OF n st c] until_interrupt_idle [OF u assms(2)]
  have m: "mute a2" "no_telemetry (cfg a2) w v3"
    by (auto simp: idle_def intro: no_telemetry_trans [of _ _ v2])
  with Stop_mute [OF s m(1)] show ?thesis by (auto simp: empty_kstate_def intro: no_telemetry_trans [OF m(2)])
qed

section \<open>A closed example\<close>

text \<open>The wiring example with an API key in its environment.\<close>

definition env_key :: "gostring \<Rightarrow> gostring" where
  "env_key k = (if k = ''GUARD_AGENT_API_KEY'' then ''0123456789'' else [])"

lemma basic_literal:
  "APIKey (basic_config env_key) = ''0123456789''" "Endpoint (basic_config env_key) = []"
  "InstallID (basic_config env_key) = []" "InstallIDPath (basic_config env_key) = []" "Redis (basic_config env_key) = None"
  "ProjectEncryptionKey (basic_config env_key) = []" "BufferSize (basic_config env_key) = 0" "StatusInterval (basic_config env_key) = 0"
  "FlushInterval (basic_config env_key) = 0" "DynamicRuleInterval (basic_config env_key) = 0"
  "HighWatermarkRatio (basic_config env_key) = Fin 0" "MaxConcurrentFlushes (basic_config env_key) = 0"
  "Overflow (basic_config env_key) = []" "RetryAttempts (basic_config env_key) = 0" "Timeout (basic_config env_key) = 0"
  "BackoffFactor (basic_config env_key) = Fin 0" "CompressionThreshold (basic_config env_key) = 0"
  "MaxPayloadSize (basic_config env_key) = 0"
  by (simp_all add: basic_config_def zero_config_def env_key_def)

lemma basic_normalize: "normalize calm (basic_config env_key) = (fill_defaults calm (basic_config env_key), [], None)"
proof -
  have "config_problems calm (basic_config env_key) = []"
    unfolding config_problems_def problem_if_def basic_literal by (simp add: normalizeEndpoint_def)
  moreover have "(case normalizeEndpoint calm (Endpoint (basic_config env_key)) of Inl e \<Rightarrow> [] | Inr (ep, ws) \<Rightarrow> ws) = []"
    unfolding basic_literal by (simp add: normalizeEndpoint_def)
  ultimately show ?thesis unfolding normalize_ok_iff by simp
qed

lemma basic_starts:
  "\<exists>a v a1 v1. New calm (basic_config env_key) start = (Inr a, v) \<and> Start calm a v = Some (None, a1, v1) \<and> mute a1"
proof -
  have "\<exists>a v. New calm (basic_config env_key) start = (Inr a, v)"
    by (auto simp: New_def basic_normalize CreateEncryptor_def fill_defaults_def basic_literal split: prod.split)
  then obtain a v where n: "New calm (basic_config env_key) start = (Inr a, v)" by blast
  have "\<not> started a \<and> \<not> closed a \<and> persist a = None" using New_built(1,3) [OF n] by (simp add: basic_literal)
  then obtain a1 v1 where st: "Start calm a v = Some (None, a1, v1)" by (cases "now calm v") (simp add: Start_def Let_def)
  have "\<not> EnableEvents (basic_config env_key)" "\<not> EnableMetrics (basic_config env_key)" "Redis (basic_config env_key) = None"
    by (simp_all add: basic_config_def zero_config_def)
  with start_mute [OF n st this] n st show ?thesis by blast
qed

theorem basic_sends_nothing_witness:
  "\<exists>a w'. basic_main calm env_key None Background [Inl [(''client_ip'', GString ''203.0.113.9'')], Inr CReport] start = Some (Inr None, Some a, w')
    \<and> buffered (events a) = 0"
proof -
  let ?xs = "[Inl [(''client_ip'', GString ''203.0.113.9'')], Inr CReport] :: (gomap + call) list"
  obtain a v a1 v1 where n: "New calm (basic_config env_key) start = (Inr a, v)" and st: "Start calm a v = Some (None, a1, v1)"
    using basic_starts by blast
  have "\<exists>a2 v2. until_interrupt calm ?xs a1 v1 = Some (a2, v2)" by (simp split: prod.split)
  then obtain a2 v2 where u: "until_interrupt calm ?xs a1 v1 = Some (a2, v2)" by blast
  obtain r a3 v3 where s: "Stop calm Background a2 v2 = (r, a3, v3)" by (metis prod.collapse)
  have b: "basic_main calm env_key None Background ?xs start = Some (Inr r, Some a3, v3)"
    by (simp add: basic_main_def n st u s del: until_interrupt.simps)
  have "list_all (case_sum (\<lambda>_. True) background) ?xs" by simp
  from basic_sends_nothing [OF b this] b show ?thesis by auto
qed

end
