(* ===== verification/Logging.thy ===== *)
theory Logging
  imports Life
begin

text \<open>
  The lines of the log whose wording or presence the code decides: the counted line of the drop policy, and the lines of
  the flush and rules loops, which escalate at the third failure in a row. The other lines are plain
  output of what happened and are not modelled.
\<close>

definition dropLogInterval :: int where "dropLogInterval = 100"

definition logDrop :: "gostring \<Rightarrow> counter \<Rightarrow> gostring list" where
  "logDrop kind drops = (if go_rem (sint drops) dropLogInterval = 1
     then [''guardagent: '' @ kind @ '' buffer overflow (drop policy): '' @ Itoa (sint drops) @ '' total drop(s) so far'']
     else [])"

text \<open>What \<open>enqueueEvent\<close> and \<open>enqueueMetric\<close> log: the drop policy, with the count after the eviction.\<close>

definition enqueue_log :: "'a kind \<Rightarrow> agent \<Rightarrow> gostring list" where
  "enqueue_log K a = (if int (length (items (kd_get K a))) < BufferSize (cfg a) then []
     else if Overflow (cfg a) = OverflowDrop then logDrop (kd_name K) (dropped (kd_get K a) + 1) else [])"

definition flush_tick_log :: "env \<Rightarrow> int \<Rightarrow> goerror option \<Rightarrow> gostring list" where
  "flush_tick_log E consecutive err = (case err of None \<Rightarrow> []
     | Some e \<Rightarrow> (let n = consecutive + 1 in
         if n < 3 then [''guardagent: periodic flush failed: '' @ Error (conv E) e]
         else [''guardagent: periodic flush failing repeatedly ('' @ Itoa n @ '' in a row): '' @ Error (conv E) e]))"

definition rules_loop_log :: "int \<Rightarrow> DynamicRules option \<Rightarrow> gostring list" where
  "rules_loop_log consecutive rules = (if rules \<noteq> None then []
     else (let n = consecutive + 1 in
       if n < 3 then [''guardagent: dynamic rules loop failed '' @ Itoa n @ '' time(s); serving last known rules'']
       else [''guardagent: dynamic rules loop failing repeatedly ('' @ Itoa n @ '' in a row); serving last known rules'']))"

text \<open>A pass of the flush loop, or of the rules loop, logs a line exactly when it counts a failure.\<close>

lemma flush_tick_logged:
  assumes "flushTick E n a w = (n', a', w')"
  shows "n' = (if flush_tick_log E n (fst (Flush E (loopCtx a) a w)) = [] then 0 else n + 1)"
  using assms by (auto simp: flushTick_def flush_tick_log_def Let_def split: prod.splits option.splits)

lemma rules_tick_logged:
  assumes "rulesTick E n a w = (n', a', w')"
  shows "n' = (if rules_loop_log n (fst (GetDynamicRules E (loopCtx a) a w)) = [] then 0 else n + 1)"
  using assms by (auto simp: rulesTick_def rules_loop_log_def Let_def split: prod.splits)

section \<open>How often a drop is logged\<close>

lemma go_rem_hundred: "go_rem (int d + 1) 100 = 1 \<longleftrightarrow> d mod 100 = 0"
proof -
  have "go_quot (int d + 1) 100 = (int d + 1) div 100" by (rule go_quot_nonneg) simp_all
  then have "go_rem (int d + 1) 100 = int (Suc d mod 100)"
    unfolding go_rem_def by (simp only: minus_mult_div_eq_mod) (simp add: zmod_int add.commute)
  then show ?thesis by (simp add: mod_Suc)
qed

lemma sint_drops: "int d + 1 < 2 ^ 63 \<Longrightarrow> sint (word_of_int (int d + 1) :: counter) = int d + 1"
  unfolding int_word_sint by (subst mod_pos_pos_trivial) simp_all

lemma logDrop_count:
  assumes "int d + 1 < 2 ^ 63"
  shows "length (logDrop kind (word_of_int (int d + 1))) = (if d mod 100 = 0 then 1 else 0)"
  unfolding logDrop_def dropLogInterval_def sint_drops [OF assms] go_rem_hundred by simp

text \<open>Of the first n drops of a buffer every hundredth is logged, beginning with the first: a burst of drops
  never floods the log.\<close>

theorem drops_logged:
  "int n < 2 ^ 63 \<Longrightarrow>
    length (concat (map (\<lambda>d. logDrop kind (word_of_int (int d + 1))) [0..<n])) = (n + 99) div 100"
proof (induction n)
  case 0
  then show ?case by simp
next
  case (Suc n)
  have "Suc (n + 99) mod 100 = n mod 100" by simp
  then have step: "(Suc n + 99) div 100 = (n + 99) div 100 + (if n mod 100 = 0 then 1 else 0)"
    unfolding add_Suc div_Suc by simp
  have n: "int n < 2 ^ 63" and n1: "int n + 1 < 2 ^ 63" using Suc.prems by linarith+
  have "length (concat (map (\<lambda>d. logDrop kind (word_of_int (int d + 1))) [0..<Suc n]))
    = length (concat (map (\<lambda>d. logDrop kind (word_of_int (int d + 1))) [0..<n]))
      + length (logDrop kind (word_of_int (int n + 1)))" by simp
  then show ?case unfolding Suc.IH [OF n] logDrop_count [OF n1] step .
qed

end
