(* ===== verification/Utf8.thy ===== *)
theory Utf8
  imports Codec
begin

text \<open>
  UTF-8 encoding (\<open>utf8.EncodeRune\<close>), as the inverse of the decoding of Codec, and what becomes of a
  byte string that passes through its runes: every invalid byte is U+FFFD afterwards.
\<close>

definition utf8 :: "nat \<Rightarrow> nat list" where
  "utf8 r = (if r < 128 then [r]
     else if r < 2048 then [192 + r div 64, 128 + r mod 64]
     else if r < 65536 then [224 + r div 4096, 128 + r div 64 mod 64, 128 + r mod 64]
     else [240 + r div 262144, 128 + r div 4096 mod 64, 128 + r div 64 mod 64, 128 + r mod 64])"

lemma utf8_bytes: "valid_rune r \<Longrightarrow> list_all (\<lambda>b. b < 256) (utf8 r)"
  by (auto simp: utf8_def valid_rune_def)

lemma utf8_nonempty [simp]: "utf8 r \<noteq> []"
  by (simp add: utf8_def)

lemma join64: "(n::nat) div 64 * 64 + n mod 64 = n"
  by simp

lemma second_ok_three: "2048 \<le> r \<Longrightarrow> r < 65536 \<Longrightarrow> valid_rune r \<Longrightarrow> second_ok (224 + r div 4096) (128 + r div 64 mod 64)"
proof -
  assume r: "2048 \<le> r" "r < 65536" "valid_rune r"
  define q where "q = r div 64"
  have q: "32 \<le> q" "q < 1024" "\<not> (864 \<le> q \<and> q < 896)" and d: "r div 4096 = q div 64"
    using r by (auto simp: q_def valid_rune_def div_mult2_eq [symmetric])
  have "q div 64 = 0 \<longrightarrow> 32 \<le> q mod 64" using q(1) by (auto simp: div_eq_0_iff)
  moreover have "q div 64 = 13 \<longrightarrow> q mod 64 \<le> 31" using q(2,3) join64 [of q] by (intro impI) linarith
  moreover have "q mod 64 \<le> 63" "q div 64 < 16" using q(2) mod_less_divisor [of 64 q] by auto
  ultimately show ?thesis by (simp add: second_ok_def cont_def d flip: q_def)
qed

lemma second_ok_four: "65536 \<le> r \<Longrightarrow> valid_rune r \<Longrightarrow> second_ok (240 + r div 262144) (128 + r div 4096 mod 64)"
proof -
  assume r: "65536 \<le> r" "valid_rune r"
  define q where "q = r div 4096"
  have q: "16 \<le> q" "q < 272" and d: "r div 262144 = q div 64"
    using r by (auto simp: q_def valid_rune_def div_mult2_eq [symmetric])
  have "q div 64 = 0 \<longrightarrow> 16 \<le> q mod 64" using q(1) by (auto simp: div_eq_0_iff)
  moreover have "q div 64 = 4 \<longrightarrow> q mod 64 \<le> 15" using q(2) join64 [of q] by (intro impI) linarith
  moreover have "q mod 64 \<le> 63" "q div 64 \<le> 4" using q(2) mod_less_divisor [of 64 q] by auto
  ultimately show ?thesis by (simp add: second_ok_def cont_def d flip: q_def)
qed

lemma cont_mod [simp]: "cont (128 + n mod 64)"
  using mod_less_divisor [of 64 n] by (simp add: cont_def)

lemma decode_utf8:
  assumes "valid_rune r"
  shows "decode_rune (utf8 r @ more) = (r, length (utf8 r))"
proof -
  consider "r < 128" | "128 \<le> r" "r < 2048" | "2048 \<le> r" "r < 65536" | "65536 \<le> r" by linarith
  then show ?thesis
  proof cases
    case 2
    then have d: "r div 64 < 32" "2 \<le> r div 64" by auto
    then have "(192 + r div 64) mod 32 * 64 + (128 + r mod 64) mod 64 = r" by simp
    with 2 d show ?thesis by (simp add: utf8_def)
  next
    case 3
    then have d: "r div 4096 < 16" by auto
    have "r div 4096 * 4096 + r div 64 mod 64 * 64 + r mod 64 = r"
    proof -
      have "r div 4096 = r div 64 div 64" by (simp add: div_mult2_eq [symmetric])
      then have "r div 4096 * 64 + r div 64 mod 64 = r div 64" by simp
      then show ?thesis using join64 [of r] by linarith
    qed
    with d have v: "(224 + r div 4096) mod 16 * 4096 + (128 + r div 64 mod 64) mod 64 * 64 + (128 + r mod 64) mod 64 = r"
      by simp
    with 3 d second_ok_three [OF 3 assms] show ?thesis by (simp add: utf8_def)
  next
    case 4
    then have d: "r div 262144 \<le> 4" using assms by (auto simp: valid_rune_def)
    have "r div 262144 * 262144 + r div 4096 mod 64 * 4096 + r div 64 mod 64 * 64 + r mod 64 = r"
    proof -
      have "r div 4096 = r div 64 div 64" "r div 262144 = r div 64 div 64 div 64" by (simp_all add: div_mult2_eq [symmetric])
      then have "r div 262144 * 64 + r div 4096 mod 64 = r div 4096" "r div 4096 * 64 + r div 64 mod 64 = r div 64"
        by simp_all
      then show ?thesis using join64 [of r] by linarith
    qed
    with d have v: "(240 + r div 262144) mod 8 * 262144 + (128 + r div 4096 mod 64) mod 64 * 4096
        + (128 + r div 64 mod 64) mod 64 * 64 + (128 + r mod 64) mod 64 = r" by simp
    with 4 d second_ok_four [OF 4 assms] show ?thesis by (simp add: utf8_def)
  qed (simp add: utf8_def)
qed

text \<open>What decodes without an error is the encoding of its rune.\<close>

lemma utf8_decode:
  assumes "decode_rune bs = (r, n)" "bs \<noteq> []" "\<not> (r = 65533 \<and> n = 1)"
  shows "n \<le> length bs \<and> take n bs = utf8 r"
proof -
  obtain b0 bs' where bs: "bs = b0 # bs'" using assms(2) by (cases bs) auto
  have split: "\<And>d. d < 64 \<Longrightarrow> (x * 64 + d) div 64 = x" "\<And>d. d < 64 \<Longrightarrow> (x * 64 + d) mod 64 = d" for x :: nat
    by simp_all
  consider "b0 < 128" | "194 \<le> b0" "b0 \<le> 223" | "224 \<le> b0" "b0 \<le> 239" | "240 \<le> b0" "b0 \<le> 244"
    | "\<not> b0 < 128" "\<not> (194 \<le> b0 \<and> b0 \<le> 223)" "\<not> (224 \<le> b0 \<and> b0 \<le> 239)" "\<not> (240 \<le> b0 \<and> b0 \<le> 244)" by linarith
  then show ?thesis
  proof cases
    case 1
    with assms(1) show ?thesis by (auto simp: bs utf8_def)
  next
    case 2
    with assms(1,3) obtain b1 more where m: "bs' = b1 # more" "cont b1" "n = 2" "r = b0 mod 32 * 64 + b1 mod 64"
      by (auto simp: bs split: list.splits if_splits)
    obtain d0 where d0: "b0 = 192 + d0" "2 \<le> d0" "d0 < 32" using 2 le_Suc_ex [of 192 b0] by auto
    obtain d1 where d1: "b1 = 128 + d1" "d1 < 64" using m(2) le_Suc_ex [of 128 b1] by (auto simp: cont_def)
    have "r = d0 * 64 + d1" using d0 d1 by (simp add: m(4))
    with d0 d1 split [of d1 d0] show ?thesis by (simp add: bs m(1,3) utf8_def)
  next
    case 3
    with assms(1,3) obtain b1 b2 more where m: "bs' = b1 # b2 # more" "second_ok b0 b1" "cont b2" "n = 3"
      "r = b0 mod 16 * 4096 + b1 mod 64 * 64 + b2 mod 64"
      by (auto simp: bs split: list.splits if_splits)
    obtain d0 where d0: "b0 = 224 + d0" "d0 < 16" using 3 le_Suc_ex [of 224 b0] by auto
    obtain d1 where d1: "b1 = 128 + d1" "d1 < 64" "d0 = 0 \<longrightarrow> 32 \<le> d1" using m(2) d0 le_Suc_ex [of 128 b1]
      by (auto simp: second_ok_def cont_def)
    obtain d2 where d2: "b2 = 128 + d2" "d2 < 64" using m(3) le_Suc_ex [of 128 b2] by (auto simp: cont_def)
    have r: "r = (d0 * 64 + d1) * 64 + d2" using d0 d1 d2 by (simp add: m(5))
    have q: "r div 64 = d0 * 64 + d1" "r mod 64 = d2" "r div 4096 = d0"
      unfolding r using split [of d2 "d0 * 64 + d1"] split [of d1 d0] d1 d2
      by (simp_all add: div_mult2_eq [of _ 64 64, simplified])
    have "2048 \<le> r" "r < 65536" using d0 d1 d2 by (auto simp: r)
    with d0(1) d1 d2(1) q split(2) [of d1 d0] show ?thesis by (simp add: bs m(1,4) utf8_def)
  next
    case 4
    with assms(1,3) obtain b1 b2 b3 more where m: "bs' = b1 # b2 # b3 # more" "second_ok b0 b1" "cont b2" "cont b3" "n = 4"
      "r = b0 mod 8 * 262144 + b1 mod 64 * 4096 + b2 mod 64 * 64 + b3 mod 64"
      by (auto simp: bs split: list.splits if_splits)
    obtain d0 where d0: "b0 = 240 + d0" "d0 < 8" using 4 le_Suc_ex [of 240 b0] by auto
    obtain d1 where d1: "b1 = 128 + d1" "d1 < 64" "d0 = 0 \<longrightarrow> 16 \<le> d1" using m(2) d0 le_Suc_ex [of 128 b1]
      by (auto simp: second_ok_def cont_def)
    obtain d2 where d2: "b2 = 128 + d2" "d2 < 64" using m(3) le_Suc_ex [of 128 b2] by (auto simp: cont_def)
    obtain d3 where d3: "b3 = 128 + d3" "d3 < 64" using m(4) le_Suc_ex [of 128 b3] by (auto simp: cont_def)
    have r: "r = ((d0 * 64 + d1) * 64 + d2) * 64 + d3" using d0 d1 d2 d3 by (simp add: m(6))
    have q: "r div 64 = (d0 * 64 + d1) * 64 + d2" "r mod 64 = d3"
      unfolding r using split [of d3 "(d0 * 64 + d1) * 64 + d2"] d3 by simp_all
    have q2: "r div 4096 = d0 * 64 + d1" "r div 64 mod 64 = d2"
      using split [of d2 "d0 * 64 + d1"] d2 q(1) by (simp_all add: div_mult2_eq [of r 64 64, simplified])
    have q3: "r div 262144 = d0" "r div 4096 mod 64 = d1"
      using split [of d1 d0] d1 q2(1) by (simp_all add: div_mult2_eq [of r 4096 64, simplified])
    have "65536 \<le> r" using d1 by (auto simp: r)
    with d0(1) d1 d2(1) d3(1) q(2) q2 q3 show ?thesis by (simp add: bs m(1,5) utf8_def)
  next
    case 5
    with assms(1,3) show ?thesis by (auto simp: bs)
  qed
qed

lemma decode_rune_more:
  assumes "decode_rune bs = (r, n)" "bs \<noteq> []" "\<not> (r = 65533 \<and> n = 1)"
  shows "decode_rune (take n bs @ more) = (r, n)"
proof -
  have "valid_rune r" using decode_rune_valid [of bs] assms(1) by simp
  from decode_utf8 [OF this, of more] utf8_decode [OF assms] show ?thesis by (metis length_take min_absorb2)
qed

section \<open>Through the runes and back\<close>

definition clean :: "gostring \<Rightarrow> gostring" where
  "clean s = map char_of (concat (map utf8 (runes s)))"

definition valid_utf8 :: "gostring \<Rightarrow> bool" where
  "valid_utf8 s \<longleftrightarrow> clean s = s"

lemma runes_of_utf8: "valid_rune r \<Longrightarrow> runes_of (utf8 r @ more) = r # runes_of more"
  using decode_utf8 [of r more] by (subst runes_of.simps) simp

lemma runes_of_utf8s: "list_all valid_rune rs \<Longrightarrow> runes_of (concat (map utf8 rs)) = rs"
proof (induction rs)
  case Nil
  show ?case by (simp add: runes_of.simps)
qed (simp add: runes_of_utf8)

lemma code_char_of: "list_all (\<lambda>b. b < 256) bs \<Longrightarrow> map code (map char_of bs :: gostring) = bs"
  by (induction bs) simp_all

lemma runes_char_of: "list_all valid_rune rs \<Longrightarrow> runes (map char_of (concat (map utf8 rs))) = rs"
proof -
  assume v: "list_all valid_rune rs"
  then have "list_all (\<lambda>b. b < 256) (concat (map utf8 rs))" using utf8_bytes by (auto simp: list_all_iff)
  then show ?thesis using runes_of_utf8s [OF v] by (simp only: runes_def code_char_of)
qed

lemma runes_clean [simp]: "runes (clean s) = runes s"
  unfolding clean_def by (rule runes_char_of) (simp add: runes_def runes_of_valid)

lemma clean_idem [simp]: "clean (clean s) = clean s"
  by (simp add: clean_def [of "clean s"]) (simp add: clean_def)

lemma clean_valid [simp]: "valid_utf8 (clean s)"
  by (simp add: valid_utf8_def)

lemma utf8s_ascii: "list_all (\<lambda>b. b < 128) bs \<Longrightarrow> concat (map utf8 bs) = bs"
  by (induction bs) (simp_all add: utf8_def)

lemma clean_ascii: "list_all (\<lambda>c. code c < 128) s \<Longrightarrow> valid_utf8 s"
proof -
  assume "list_all (\<lambda>c. code c < 128) s"
  then have a: "list_all (\<lambda>b. b < 128) (map code s)" by (simp add: list_all_iff)
  have "clean s = map char_of (map code s)" unfolding clean_def runes_def runes_of_ascii [OF a] utf8s_ascii [OF a] ..
  also have "\<dots> = s" by (simp add: comp_def)
  finally show ?thesis by (simp add: valid_utf8_def)
qed

end
