(* ===== verification/Json.thy ===== *)
theory Json
  imports Encryption Utf8
begin

text \<open>
  JSON texts: the reader of encoding/json (into \<open>any\<close>, numbers kept as their text, as \<open>UseNumber\<close> does),
  its writer, and that the reader gets back what a writer wrote. Both writers of the program are
  instances: encoding/json, and the canonical text of encryption.go. The limit of encoding/json on
  the nesting (10000 levels) is left out.
\<close>

section \<open>Documents\<close>

datatype ('s, 'n) document =
    JsNull
  | JsBool bool
  | JsNum 'n
  | JsStr 's
  | JsArr "('s, 'n) document list"
  | JsObj "('s \<times> ('s, 'n) document) list"

type_synonym json = "(gostring, gostring) document"

section \<open>Reading\<close>

definition skip_ws :: "gostring \<Rightarrow> gostring" where
  "skip_ws = dropWhile (\<lambda>c. code c \<in> {32, 9, 10, 13})"

text \<open>A \<open>\u\<close> escape: the rune and how much of the rest it takes. Half of a surrogate pair is U+FFFD.\<close>

definition pair_rune :: "nat \<Rightarrow> gostring \<Rightarrow> nat \<times> nat" where
  "pair_rune u t = (if u < 55296 \<or> 57343 < u then (u, 0)
     else case t of a # b # t' \<Rightarrow>
       (case read_hex4 t' of
          Some l \<Rightarrow> if a = CHR 0x5C \<and> b = CHR ''u'' \<and> u < 56320 \<and> 56320 \<le> l \<and> l \<le> 57343
            then (65536 + (u - 55296) * 1024 + (l - 56320), 6) else (65533, 0)
        | None \<Rightarrow> (65533, 0))
     | _ \<Rightarrow> (65533, 0))"

abbreviation emit_bytes :: "nat list \<Rightarrow> (gostring \<times> gostring) option \<Rightarrow> (gostring \<times> gostring) option" where
  "emit_bytes bs \<equiv> map_option (\<lambda>(x, rest). (map char_of bs @ x, rest))"

text \<open>A string after its opening quote: its bytes, valid UTF-8 in any case, and what follows it.\<close>

function read_string :: "gostring \<Rightarrow> (gostring \<times> gostring) option" where
  "read_string s = (case s of [] \<Rightarrow> None | c # t \<Rightarrow>
     if c = CHR 0x22 then Some ([], t)
     else if c = CHR 0x5C then (case t of [] \<Rightarrow> None | e # t' \<Rightarrow>
       if e = CHR ''u'' then (case read_hex4 t' of None \<Rightarrow> None | Some u \<Rightarrow>
         (case pair_rune u (drop 4 t') of (r, n) \<Rightarrow> emit_bytes (utf8 r) (read_string (drop n (drop 4 t')))))
       else (case short_escape e of None \<Rightarrow> None | Some u \<Rightarrow> emit_bytes [u] (read_string t')))
     else if code c < 32 then None
     else (case decode_rune (map code s) of (r, n) \<Rightarrow> emit_bytes (utf8 r) (read_string (drop n s))))"
  by pat_completeness auto
termination
proof (relation "measure length", goal_cases)
  case (4 s c t r n)
  then have "n = snd (decode_rune (map code s))" "s \<noteq> []" by (metis snd_conv, simp)
  then have "1 \<le> n" "0 < length s" using decode_rune_size [of "map code s"] by auto
  then show ?case by simp
qed auto

declare read_string.simps [simp del]

definition num_char :: "char \<Rightarrow> bool" where
  "num_char c \<longleftrightarrow> is_digit c \<or> List.member ''+-.eE'' c"

definition exponent_ok :: "gostring \<Rightarrow> bool" where
  "exponent_ok r \<longleftrightarrow> r = [] \<or> (hd r = CHR ''e'' \<or> hd r = CHR ''E'')
     \<and> (let t = (if tl r \<noteq> [] \<and> (hd (tl r) = CHR ''+'' \<or> hd (tl r) = CHR ''-'') then tl (tl r) else tl r) in
        t \<noteq> [] \<and> list_all is_digit t)"

definition unsigned_number :: "gostring \<Rightarrow> bool" where
  "unsigned_number t \<longleftrightarrow>
     (let whole = takeWhile is_digit t; r = dropWhile is_digit t in
      whole \<noteq> [] \<and> (hd whole = CHR ''0'' \<longrightarrow> length whole = 1)
      \<and> (if r \<noteq> [] \<and> hd r = CHR ''.'' then takeWhile is_digit (tl r) \<noteq> [] \<and> exponent_ok (dropWhile is_digit (tl r))
         else exponent_ok r))"

definition valid_number :: "gostring \<Rightarrow> bool" where
  "valid_number s \<longleftrightarrow> unsigned_number (if s \<noteq> [] \<and> hd s = CHR ''-'' then tl s else s)"

definition read_literal :: "gostring \<Rightarrow> (json \<times> gostring) option" where
  "read_literal s = (if take 4 s = ''null'' then Some (JsNull, drop 4 s)
     else if take 4 s = ''true'' then Some (JsBool True, drop 4 s)
     else if take 5 s = ''false'' then Some (JsBool False, drop 5 s)
     else if valid_number (takeWhile num_char s) then Some (JsNum (takeWhile num_char s), dropWhile num_char s)
     else None)"

text \<open>The fuel is spent by one for each value, element and member; twice the length of the text is always enough
  (\<open>fuel_enough\<close>).\<close>

fun read_value :: "nat \<Rightarrow> gostring \<Rightarrow> (json \<times> gostring) option"
  and read_elems :: "nat \<Rightarrow> gostring \<Rightarrow> (json list \<times> gostring) option"
  and read_members :: "nat \<Rightarrow> gostring \<Rightarrow> ((gostring \<times> json) list \<times> gostring) option" where
  "read_value 0 s = None"
| "read_value (Suc n) s = (case skip_ws s of [] \<Rightarrow> None | c # t \<Rightarrow>
     if c = CHR 0x22 then map_option (\<lambda>(x, r). (JsStr x, r)) (read_string t)
     else if c = CHR ''['' then
       (if skip_ws t \<noteq> [] \<and> hd (skip_ws t) = CHR '']'' then Some (JsArr [], tl (skip_ws t))
        else map_option (\<lambda>(xs, r). (JsArr xs, r)) (read_elems n t))
     else if c = CHR ''{'' then
       (if skip_ws t \<noteq> [] \<and> hd (skip_ws t) = CHR ''}'' then Some (JsObj [], tl (skip_ws t))
        else map_option (\<lambda>(ms, r). (JsObj ms, r)) (read_members n t))
     else read_literal (c # t))"
| "read_elems 0 s = None"
| "read_elems (Suc n) s = (case read_value n s of None \<Rightarrow> None | Some (x, r) \<Rightarrow>
     (case skip_ws r of [] \<Rightarrow> None | c # r' \<Rightarrow>
        if c = CHR '','' then map_option (\<lambda>(xs, q). (x # xs, q)) (read_elems n r')
        else if c = CHR '']'' then Some ([x], r') else None))"
| "read_members 0 s = None"
| "read_members (Suc n) s = (case skip_ws s of [] \<Rightarrow> None | q # t \<Rightarrow>
     if q \<noteq> CHR 0x22 then None else
     (case read_string t of None \<Rightarrow> None | Some (k, r) \<Rightarrow>
       (case skip_ws r of [] \<Rightarrow> None | c # r' \<Rightarrow>
         if c \<noteq> CHR '':'' then None else
         (case read_value n r' of None \<Rightarrow> None | Some (x, r2) \<Rightarrow>
           (case skip_ws r2 of [] \<Rightarrow> None | d # r3 \<Rightarrow>
              if d = CHR '','' then map_option (\<lambda>(ms, p). ((k, x) # ms, p)) (read_members n r3)
              else if d = CHR ''}'' then Some ([(k, x)], r3) else None)))))"

text \<open>The first document of a text (\<open>Decoder.Decode\<close>), and a text that is one document (\<open>Unmarshal\<close>).\<close>

definition decode_first :: "gostring \<Rightarrow> json option" where
  "decode_first s = map_option fst (read_value (2 * length s) s)"

definition read_json :: "gostring \<Rightarrow> json option" where
  "read_json s = (case read_value (2 * length s) s of None \<Rightarrow> None
     | Some (j, r) \<Rightarrow> if skip_ws r = [] then Some j else None)"

subsection \<open>The fuel\<close>

lemma skip_ws_length: "length (skip_ws s) \<le> length s"
  by (simp add: skip_ws_def length_dropWhile_le)

lemma skip_ws_shorter: "skip_ws s = c # t \<Longrightarrow> length t < length s"
  using skip_ws_length [of s] by simp

lemma read_string_shorter: "read_string s = Some (x, r) \<Longrightarrow> length r < length s"
proof (induction s arbitrary: x r rule: read_string.induct)
  case (1 s)
  obtain c t where s: "s = c # t" using "1.prems" by (cases s) (auto simp: read_string.simps)
  note step = "1.prems" [unfolded read_string.simps [of s]]
  show ?case
  proof (cases "c = CHR 0x22")
    case True
    with step s show ?thesis by simp
  next
    case q: False
    show ?thesis
    proof (cases "c = CHR 0x5C")
      case True
      with step s q obtain e t' where t: "t = e # t'" by (cases t) auto
      show ?thesis
      proof (cases "e = CHR ''u''")
        case u: True
        with step s q True t obtain h rn n y where h: "read_hex4 t' = Some h" "pair_rune h (drop 4 t') = (rn, n)"
          "read_string (drop n (drop 4 t')) = Some (y, r)" by (auto split: option.splits prod.splits)
        from "1.IH"(1) [OF s q True t u h(1) h(2) [symmetric] h(3)] s t show ?thesis by simp
      next
        case u: False
        with step s q True t obtain h y where h: "short_escape e = Some h" "read_string t' = Some (y, r)"
          by (auto split: option.splits)
        from "1.IH"(2) [OF s q True t u h] s t show ?thesis by simp
      qed
    next
      case b: False
      obtain rn n where d: "decode_rune (map code s) = (rn, n)" by (metis prod.collapse)
      with step s q b obtain y where y: "\<not> code c < 32" "read_string (drop n s) = Some (y, r)"
        by (auto split: if_splits)
      from "1.IH"(3) [OF s q b y(1) d [symmetric] y(2)] s show ?thesis by simp
    qed
  qed
qed

lemma read_literal_shorter: "read_literal (c # t) = Some (j, r) \<Longrightarrow> length r < length (c # t)"
proof -
  have "length (dropWhile num_char s) < length s" if "valid_number (takeWhile num_char s)" for s
  proof -
    have "takeWhile num_char s \<noteq> []" using that by (auto simp: valid_number_def unsigned_number_def)
    then show ?thesis using length_append [of "takeWhile num_char s" "dropWhile num_char s"] by simp
  qed
  from this [of "c # t"] show "read_literal (c # t) = Some (j, r) \<Longrightarrow> length r < length (c # t)"
    by (auto simp: read_literal_def split: if_splits)
qed

lemma read_shorter:
  "read_value n s = Some (j, r) \<Longrightarrow> length r < length s"
  "read_elems n s = Some (xs, r) \<Longrightarrow> length r < length s"
  "read_members n s = Some (ms, r) \<Longrightarrow> length r < length s"
proof (induction n s and n s and n s arbitrary: j r and xs r and ms r rule: read_value_read_elems_read_members.induct)
  case (2 n s)
  obtain c t where w: "skip_ws s = c # t" using "2.prems" by (cases "skip_ws s") auto
  note l = skip_ws_shorter [OF w]
  have "length r \<le> length t"
    using "2.prems" "2.IH" w read_string_shorter [of t] read_literal_shorter [of c t j r] skip_ws_length [of t]
    by (fastforce split: if_splits)
  with l show ?case by simp
next
  case (4 n s)
  then obtain x r1 c r2 where v: "read_value n s = Some (x, r1)" and w: "skip_ws r1 = c # r2"
    by (auto split: option.splits list.splits)
  have "length r1 < length s" by (rule "4.IH"(1) [OF v])
  moreover have "length r \<le> length r2" using "4.prems" v w "4.IH"(2) [OF v refl w] by (fastforce split: if_splits)
  ultimately show ?case using skip_ws_shorter [OF w] by simp
next
  case (6 n s)
  then obtain q t k r1 c r2 where a: "skip_ws s = q # t" "\<not> q \<noteq> CHR 0x22" "read_string t = Some (k, r1)" "skip_ws r1 = c # r2" "\<not> c \<noteq> CHR '':''"
    by (auto split: option.splits list.splits if_splits)
  with "6.prems" obtain x r3 d r4 where b: "read_value n r2 = Some (x, r3)" "skip_ws r3 = d # r4"
    by (auto split: option.splits list.splits)
  have "length r3 < length r2" by (rule "6.IH"(1) [OF a(1,2,3) refl a(4,5) b(1)])
  moreover have "length r \<le> length r4" using "6.prems" a b "6.IH"(2) [OF a(1,2,3) refl a(4,5) b(1) refl b(2)] by (fastforce split: if_splits)
  ultimately show ?case using skip_ws_shorter [OF a(1)] skip_ws_shorter [OF a(4)] skip_ws_shorter [OF b(2)] read_string_shorter [OF a(3)]
    by simp
qed simp_all

lemma fuel_more:
  "2 * length s \<le> n \<Longrightarrow> read_value (Suc n) s = read_value n s"
  "2 * length s < n \<Longrightarrow> read_elems (Suc n) s = read_elems n s"
  "2 * length s < n \<Longrightarrow> read_members (Suc n) s = read_members n s"
proof (induction n arbitrary: s)
  case 0
  { case 1 then show ?case by (simp add: skip_ws_def) }
  { case 2 then show ?case by simp }
  { case 3 then show ?case by simp }
next
  case (Suc n)
  { case 1
    have e: "read_elems (Suc n) t = read_elems n t" "read_members (Suc n) t = read_members n t" if "skip_ws s = c # t" for c t
      using skip_ws_shorter [OF that] 1 by (intro Suc.IH(2,3), simp)+
    show ?case
      by (simp only: read_value.simps(2) [of "Suc n"] read_value.simps(2) [of n] e cong: list.case_cong) }
  { case 2
    have v: "read_value (Suc n) s = read_value n s" using 2 by (intro Suc.IH(1)) simp
    have e: "read_elems (Suc n) r' = read_elems n r'" if "read_value n s = Some (x, r)" "skip_ws r = c # r'" for x r c r'
      using read_shorter(1) [OF that(1)] skip_ws_shorter [OF that(2)] 2 by (intro Suc.IH(2)) simp
    show ?case unfolding read_elems.simps(2) [of "Suc n" s] read_elems.simps(2) [of n s] v
      by (auto simp del: read_elems.simps read_value.simps simp: e split: option.split list.split) }
  { case 3
    have v: "read_value (Suc n) r' = read_value n r'"
      if "skip_ws s = q # t" "read_string t = Some (k, r)" "skip_ws r = c # r'" for q t k r c r'
      using skip_ws_shorter [OF that(1)] read_string_shorter [OF that(2)] skip_ws_shorter [OF that(3)] 3 by (intro Suc.IH(1)) simp
    have e: "read_members (Suc n) r3 = read_members n r3" if "skip_ws s = q # t" "read_string t = Some (k, r)" "skip_ws r = c # r'"
      "read_value n r' = Some (x, r2)" "skip_ws r2 = d # r3" for q t k r c r' x r2 d r3
      using skip_ws_shorter [OF that(1)] read_string_shorter [OF that(2)] skip_ws_shorter [OF that(3)]
        read_shorter(1) [OF that(4)] skip_ws_shorter [OF that(5)] 3 by (intro Suc.IH(3)) simp
    show ?case unfolding read_members.simps(2) [of "Suc n" s] read_members.simps(2) [of n s]
      by (auto simp del: read_members.simps read_value.simps simp: v e split: option.split list.split) }
qed

lemma fuel_enough: "2 * length s \<le> n \<Longrightarrow> read_value n s = read_value (2 * length s) s"
  by (induction n rule: dec_induct) (simp_all add: fuel_more(1) del: read_value.simps)

section \<open>Writing\<close>

fun write_json :: "(gostring \<Rightarrow> gostring) \<Rightarrow> json \<Rightarrow> gostring"
  and write_elems :: "(gostring \<Rightarrow> gostring) \<Rightarrow> json list \<Rightarrow> gostring"
  and write_members :: "(gostring \<Rightarrow> gostring) \<Rightarrow> (gostring \<times> json) list \<Rightarrow> gostring" where
  "write_json q JsNull = ''null''"
| "write_json q (JsBool b) = (if b then ''true'' else ''false'')"
| "write_json q (JsNum t) = t"
| "write_json q (JsStr s) = q s"
| "write_json q (JsArr xs) = CHR ''['' # write_elems q xs"
| "write_json q (JsObj ms) = CHR ''{'' # write_members q ms"
| "write_elems q [] = '']''"
| "write_elems q [x] = write_json q x @ '']''"
| "write_elems q (x # y # ys) = write_json q x @ CHR '','' # write_elems q (y # ys)"
| "write_members q [] = ''}''"
| "write_members q [(k, x)] = q k @ CHR '':'' # write_json q x @ ''}''"
| "write_members q ((k, x) # m # ms) = q k @ CHR '':'' # write_json q x @ CHR '','' # write_members q (m # ms)"

text \<open>
  The strings of encoding/json (with \<open>EscapeHTML\<close>): valid UTF-8 is copied, apart from quotes, backslashes,
  controls, the HTML characters and the line separators; an invalid byte is written as U+FFFD.
\<close>

function chunks_of :: "nat list \<Rightarrow> (nat \<times> nat list) list" where
  "chunks_of bs = (if bs = [] then [] else
     (fst (decode_rune bs), take (snd (decode_rune bs)) bs) # chunks_of (drop (snd (decode_rune bs)) bs))"
  by pat_completeness auto
termination
  using decode_rune_size by (relation "measure length") (auto simp: Suc_le_eq)

declare chunks_of.simps [simp del]

definition json_rune :: "nat \<times> nat list \<Rightarrow> gostring" where
  "json_rune p = (case p of (r, bs) \<Rightarrow>
     if r = 65533 \<and> length bs = 1 then unit_escape 65533
     else if r = 34 \<or> r = 92 then [CHR 0x5C, char_of r]
     else if r = 8 then [CHR 0x5C, CHR ''b'']
     else if r = 12 then [CHR 0x5C, CHR ''f'']
     else if r = 10 then [CHR 0x5C, CHR ''n'']
     else if r = 13 then [CHR 0x5C, CHR ''r'']
     else if r = 9 then [CHR 0x5C, CHR ''t'']
     else if r < 32 \<or> r \<in> {60, 62, 38, 8232, 8233} then unit_escape r
     else map char_of bs)"

definition go_string :: "gostring \<Rightarrow> gostring" where
  "go_string s = [CHR 0x22] @ concat (map json_rune (chunks_of (map code s))) @ [CHR 0x22]"

section \<open>A string reads back\<close>

lemma hex4_drop [simp]: "drop 4 (hex4 u) = []" "length (hex4 u) = 4"
  by (simp_all add: hex4_def)

lemma pair_rune_single: "valid_rune u \<Longrightarrow> pair_rune u t = (u, 0)"
  by (auto simp: pair_rune_def valid_rune_def)

lemma read_escape: "short_escape e = Some u \<Longrightarrow> e \<noteq> CHR ''u''
  \<Longrightarrow> read_string (CHR 0x5C # e # rest) = emit_bytes [u] (read_string rest)"
  by (subst read_string.simps) simp

lemma read_unit: "u < 65536 \<Longrightarrow> valid_rune u \<Longrightarrow> read_string (unit_escape u @ rest) = emit_bytes (utf8 u) (read_string rest)"
  by (subst read_string.simps) (simp add: unit_escape_def read_hex4_hex4 pair_rune_single)

lemma read_pair:
  assumes "55296 \<le> h" "h < 56320" "56320 \<le> l" "l \<le> 57343"
  shows "read_string (unit_escape h @ unit_escape l @ rest)
    = emit_bytes (utf8 (65536 + (h - 55296) * 1024 + (l - 56320))) (read_string rest)"
proof -
  have "pair_rune h (unit_escape l @ rest) = (65536 + (h - 55296) * 1024 + (l - 56320), 6)"
    using assms by (simp add: pair_rune_def unit_escape_def read_hex4_hex4)
  then show ?thesis
    using assms by (subst read_string.simps) (simp add: unit_escape_def read_hex4_hex4)
qed

lemma read_plain:
  assumes "valid_rune r" "32 \<le> r" "r \<noteq> 34" "r \<noteq> 92"
  shows "read_string (map char_of (utf8 r) @ rest) = emit_bytes (utf8 r) (read_string rest)"
proof -
  let ?s = "map char_of (utf8 r) @ rest :: gostring"
  have d: "decode_rune (map code ?s) = (r, length (utf8 r))"
    using decode_utf8 [OF assms(1), of "map code rest"] code_char_of [OF utf8_bytes [OF assms(1)]] by simp
  obtain b bs where u: "utf8 r = b # bs" by (cases "utf8 r") auto
  have b: "b = r \<and> r < 128 \<or> 192 \<le> b \<and> b < 256" using u assms(1) by (auto simp: utf8_def valid_rune_def split: if_splits)
  have "code (char_of b) = b" using b by auto
  moreover have "char_of b \<noteq> CHR 0x22" "char_of b \<noteq> CHR 0x5C"
  proof -
    have "code (CHR 0x22) = 34" "code (CHR 0x5C) = 92" "b \<noteq> 34" "b \<noteq> 92" using b assms(3,4) by auto
    with \<open>code (char_of b) = b\<close> show "char_of b \<noteq> CHR 0x22" "char_of b \<noteq> CHR 0x5C" by metis+
  qed
  ultimately have "read_string ?s = (case decode_rune (map code ?s) of (r, n) \<Rightarrow> emit_bytes (utf8 r) (read_string (drop n ?s)))"
    using b assms(2) by (subst read_string.simps) (auto simp: u simp del: decode_rune.simps)
  then show ?thesis unfolding d by simp
qed

text \<open>Each rune of the canonical text, and each of encoding/json, reads back as its UTF-8 bytes.\<close>

lemma read_canonical_rune:
  assumes "valid_rune r"
  shows "read_string (writeRune r @ rest) = emit_bytes (utf8 r) (read_string rest)"
proof -
  consider "r \<in> {34, 92, 8, 12, 10, 13, 9}"
    | "r \<notin> {34, 92, 8, 12, 10, 13, 9}" "r < 0x20 \<or> r > 0x7E" "r \<le> 65535"
    | "65535 < r"
    | "r \<notin> {34, 92, 8, 12, 10, 13, 9}" "32 \<le> r" "r \<le> 126" by fastforce
  then show ?thesis
  proof cases
    case 1
    then show ?thesis
      by (elim insertE emptyE) (simp_all add: writeRune_def read_escape short_escape_def utf8_def)
  next
    case 2
    then have "writeRune r = unit_escape r" by (auto simp: writeRune_def utf16_def)
    with 2 read_unit [OF _ assms, of rest] show ?thesis by simp
  next
    case 3
    let ?q = "r - 65536"
    have w: "writeRune r = unit_escape (55296 + ?q div 1024) @ unit_escape (56320 + ?q mod 1024)"
      using 3 by (simp add: writeRune_def utf16_def)
    have "?q div 1024 < 1024" using assms by (auto simp: valid_rune_def)
    moreover have "65536 + (?q div 1024 * 1024 + ?q mod 1024) = r" using 3 by simp
    ultimately show ?thesis using read_pair [of "55296 + ?q div 1024" "56320 + ?q mod 1024" rest]
        mod_less_divisor [of 1024 ?q] by (simp add: w less_imp_le add.assoc)
  next
    case 4
    then have "writeRune r = map char_of (utf8 r)" by (simp add: writeRune_def utf8_def)
    with 4 read_plain [OF assms, of rest] show ?thesis by simp
  qed
qed

lemma chunk_ok:
  "p \<in> set (chunks_of bs) \<Longrightarrow> valid_rune (fst p) \<and> (fst p = 65533 \<and> length (snd p) = 1 \<or> snd p = utf8 (fst p))"
proof (induction bs rule: chunks_of.induct)
  case (1 bs)
  obtain r n where d: "decode_rune bs = (r, n)" by (metis prod.collapse)
  have ne: "bs \<noteq> []" using "1.prems" by (auto simp: chunks_of.simps)
  have "valid_rune r" using decode_rune_valid [of bs] d by simp
  moreover have "r = 65533 \<and> length (take n bs) = 1 \<or> take n bs = utf8 r"
    using utf8_decode [OF d ne] ne by (cases "r = 65533 \<and> n = 1"; cases bs) auto
  moreover have "p = (r, take n bs) \<or> p \<in> set (chunks_of (drop n bs))"
    using "1.prems" ne d by (subst (asm) chunks_of.simps) auto
  ultimately show ?case using "1.IH" [OF ne] d by auto
qed

lemma chunks_runes: "map fst (chunks_of bs) = runes_of bs"
proof (induction bs rule: chunks_of.induct)
  case (1 bs)
  then show ?case by (subst chunks_of.simps, subst runes_of.simps) simp
qed

lemma char_of_quotes: "char_of (34::nat) = CHR 0x22" "char_of (92::nat) = CHR 0x5C"
  by code_simp+

lemma read_go_rune:
  assumes "valid_rune (fst p)" "fst p = 65533 \<and> length (snd p) = 1 \<or> snd p = utf8 (fst p)"
  shows "read_string (json_rune p @ rest) = emit_bytes (utf8 (fst p)) (read_string rest)"
proof -
  obtain r bs where p: "p = (r, bs)" by (metis prod.collapse)
  consider "r = 65533" "length bs = 1" | "\<not> (r = 65533 \<and> length bs = 1)" "r \<in> {34, 92, 8, 12, 10, 13, 9}"
    | "\<not> (r = 65533 \<and> length bs = 1)" "r \<notin> {34, 92, 8, 12, 10, 13, 9}" "r < 32 \<or> r \<in> {60, 62, 38, 8232, 8233}"
    | "\<not> (r = 65533 \<and> length bs = 1)" "r \<notin> {34, 92, 8, 12, 10, 13, 9}" "\<not> (r < 32 \<or> r \<in> {60, 62, 38, 8232, 8233})"
    by blast
  then show ?thesis
  proof cases
    case 1
    then show ?thesis using read_unit [of 65533 rest] assms(1) by (simp add: p json_rune_def)
  next
    case 2
    then show ?thesis
      by (elim insertE emptyE) (simp_all add: p json_rune_def read_escape short_escape_def utf8_def char_of_quotes)
  next
    case 3
    then have "json_rune p = unit_escape r" "r < 65536" by (auto simp: p json_rune_def)
    then show ?thesis using read_unit [of r rest] assms(1) by (simp add: p)
  next
    case 4
    then have "json_rune p = map char_of (utf8 r)" using assms(2) by (auto simp: p json_rune_def)
    then show ?thesis using 4 read_plain [of r rest] assms(1) by (simp add: p)
  qed
qed

lemma read_runes:
  assumes "\<And>p rest. p \<in> set ps \<Longrightarrow> read_string (w p @ rest) = emit_bytes (utf8 (f p)) (read_string rest)"
  shows "read_string (concat (map w ps) @ CHR 0x22 # rest) = Some (map char_of (concat (map (\<lambda>p. utf8 (f p)) ps)), rest)"
  using assms
proof (induction ps)
  case Nil
  show ?case by (subst read_string.simps) simp
qed simp

section \<open>A document reads back\<close>

lemma exponent_chars: "exponent_ok r \<Longrightarrow> list_all num_char r"
proof (cases r)
  case (Cons e t)
  assume x: "exponent_ok r"
  then have "num_char e" by (auto simp: Cons exponent_ok_def num_char_def)
  moreover have "list_all num_char t"
  proof (cases t)
    case (Cons sg t')
    with x show ?thesis by (auto simp: \<open>r = e # t\<close> exponent_ok_def num_char_def list_all_iff split: if_splits)
  qed simp
  ultimately show ?thesis by (simp add: Cons)
qed simp

lemma digits_chars: "list_all num_char (takeWhile is_digit t)"
  by (auto simp: list_all_iff num_char_def dest: set_takeWhileD)

lemma number_chars:
  assumes "valid_number s"
  shows "list_all num_char s" and "s \<noteq> []" and "is_digit (hd s) \<or> hd s = CHR ''-''"
proof -
  define t where "t = (if s \<noteq> [] \<and> hd s = CHR ''-'' then tl s else s)"
  let ?r = "dropWhile is_digit t"
  have v: "takeWhile is_digit t \<noteq> []"
    and r: "if ?r \<noteq> [] \<and> hd ?r = CHR ''.'' then exponent_ok (dropWhile is_digit (tl ?r)) else exponent_ok ?r"
    using assms by (auto simp: valid_number_def unsigned_number_def Let_def t_def split: if_splits)
  have "list_all num_char ?r"
  proof (cases "?r \<noteq> [] \<and> hd ?r = CHR ''.''")
    case True
    then obtain u where u: "?r = CHR ''.'' # u" by (cases ?r) auto
    with r exponent_chars have "list_all num_char (dropWhile is_digit u)" by simp
    then have "list_all num_char u" using digits_chars [of u] by (metis list_all_append takeWhile_dropWhile_id)
    moreover have "num_char (CHR ''.'')" by code_simp
    ultimately show ?thesis unfolding u by simp
  qed (use r exponent_chars in simp)
  then have t: "list_all num_char t" using digits_chars [of t] by (metis list_all_append takeWhile_dropWhile_id)
  have "t \<noteq> []" and h: "is_digit (hd t)" using v by (auto simp: takeWhile_eq_Nil_iff)
  then show ne: "s \<noteq> []" by (auto simp: t_def split: if_splits)
  show "is_digit (hd s) \<or> hd s = CHR ''-''" using h by (auto simp: t_def split: if_splits)
  have "num_char (CHR ''-'')" by code_simp
  with t ne show "list_all num_char s" by (cases s) (auto simp: t_def split: if_splits)
qed

text \<open>What may follow a number.\<close>

definition ends :: "gostring \<Rightarrow> bool" where
  "ends rest \<longleftrightarrow> rest = [] \<or> \<not> num_char (hd rest)"

lemma ends_simps [simp]: "ends []" "ends (CHR '','' # r)" "ends (CHR '']'' # r)" "ends (CHR ''}'' # r)"
  by (simp_all add: ends_def) code_simp+

lemma read_number:
  assumes "valid_number s" "ends rest"
  shows "read_literal (s @ rest) = Some (JsNum s, rest)"
proof -
  note n = number_chars [OF assms(1)]
  have "takeWhile num_char (s @ rest) = s" "dropWhile num_char (s @ rest) = rest"
    using n(1) assms(2) by (auto simp: list_all_iff ends_def takeWhile_append2 dropWhile_append2 takeWhile_eq_Nil_iff dropWhile_eq_self_iff)
  moreover obtain c t where s: "s = c # t" "is_digit c \<or> c = CHR ''-''" using n(2,3) by (cases s) auto
  moreover have "c \<notin> {CHR ''n'', CHR ''t'', CHR ''f''}" using s(2) by (auto simp: is_digit_def byte_in_def)
  ultimately show ?thesis using assms(1) by (simp add: read_literal_def)
qed

lemma skip_ws_solid: "code c \<notin> {32, 9, 10, 13} \<Longrightarrow> skip_ws (c # t) = c # t"
  by (simp add: skip_ws_def)

abbreviation json_ok :: "json \<Rightarrow> bool" where
  "json_ok \<equiv> pred_document (\<lambda>_. True) valid_number"

abbreviation clean_json :: "json \<Rightarrow> json" where
  "clean_json \<equiv> map_document clean (\<lambda>t. t)"

text \<open>What the writers of strings have in common, and what follows for the documents they write.\<close>

locale json_writer =
  fixes str :: "gostring \<Rightarrow> gostring"
  assumes str_reads: "\<exists>body. str s = CHR 0x22 # body \<and> (\<forall>rest. read_string (body @ rest) = Some (clean s, rest))"
begin

lemma first_char:
  assumes "json_ok j"
  obtains c t where "write_json str j = c # t" "code c \<notin> {32, 9, 10, 13}" "c \<noteq> CHR '']''"
proof (cases j)
  case (JsNum t)
  with assms have v: "valid_number t" by simp
  obtain c u where t: "t = c # u" "is_digit c \<or> c = CHR ''-''" using number_chars(2,3) [OF v] by (cases t) auto
  then show thesis by (intro that [of c u]) (auto simp: JsNum is_digit_def byte_in_def)
next
  case (JsStr s)
  then show thesis using str_reads [of s] that by auto
next
  case (JsBool b)
  then show thesis by (cases b) (auto intro: that)
qed (auto intro: that)

lemma write_read:
  "q = str \<Longrightarrow> json_ok j \<Longrightarrow> ends rest \<Longrightarrow> length (write_json q j) \<le> n \<Longrightarrow>
    read_value n (write_json q j @ rest) = Some (clean_json j, rest)"
  "q = str \<Longrightarrow> list_all json_ok xs \<Longrightarrow> xs \<noteq> [] \<Longrightarrow> length (write_elems q xs) \<le> n \<Longrightarrow>
    read_elems n (write_elems q xs @ rest) = Some (map clean_json xs, rest)"
  "q = str \<Longrightarrow> list_all (pred_prod (\<lambda>_. True) json_ok) ms \<Longrightarrow> ms \<noteq> [] \<Longrightarrow> length (write_members q ms) \<le> n \<Longrightarrow>
    read_members n (write_members q ms @ rest) = Some (map (map_prod clean clean_json) ms, rest)"
proof (induction q j and q xs and q ms arbitrary: n rest and n rest and n rest rule: write_json_write_elems_write_members.induct)
  case (1 q)
  then show ?case by (cases n) (simp_all add: skip_ws_def read_literal_def)
next
  case (2 q b)
  then show ?case by (cases n; cases b) (simp_all add: skip_ws_def read_literal_def)
next
  case (3 q t)
  have "json_ok (JsNum t)" using 3(2) .
  then obtain c u where "write_json str (JsNum t) = c # u" and w: "code c \<notin> {32, 9, 10, 13}" by (rule first_char)
  then have t: "t = c # u" "code c \<notin> {32, 9, 10, 13}" by simp_all
  have "c \<noteq> CHR 0x22" "c \<noteq> CHR ''[''" "c \<noteq> CHR ''{''"
    using number_chars(3) [of t] 3 t(1) by (auto simp: is_digit_def byte_in_def)
  with 3 t read_number [of t rest] show ?case by (cases n) (simp_all add: skip_ws_solid)
next
  case (4 q s)
  then obtain body where "str s = CHR 0x22 # body" "\<And>rest. read_string (body @ rest) = Some (clean s, rest)"
    using str_reads by blast
  with 4 show ?case by (cases n) (simp_all add: skip_ws_solid)
next
  case (5 q xs)
  then obtain m where n: "n = Suc m" by (cases n) auto
  show ?case
  proof (cases xs)
    case Nil
    then show ?thesis by (simp add: n skip_ws_solid)
  next
    case (Cons x ys)
    with 5 have "json_ok x" by simp
    then obtain c t where "write_json str x = c # t" "code c \<notin> {32, 9, 10, 13}" "c \<noteq> CHR '']''" by (rule first_char)
    then have "\<exists>t. write_elems q xs = c # t" "code c \<notin> {32, 9, 10, 13}" "c \<noteq> CHR '']''" using 5(2) Cons by (cases ys; simp)+
    with 5 show ?thesis by (auto simp: n Cons skip_ws_solid list_all_iff)
  qed
next
  case (6 q ms)
  then obtain m where n: "n = Suc m" by (cases n) auto
  show ?case
  proof (cases ms)
    case Nil
    then show ?thesis by (simp add: n skip_ws_solid)
  next
    case (Cons kx ys)
    obtain body where "str (fst kx) = CHR 0x22 # body" using str_reads by blast
    then have "\<exists>t. write_members q ms = CHR 0x22 # t" using 6(2) Cons by (cases kx; cases ys; simp)
    with 6 show ?thesis by (auto simp: n Cons skip_ws_solid list_all_iff)
  qed
next
  case (8 q x)
  then obtain m where n: "n = Suc m" by (cases n) auto
  with 8 have "read_value m (write_json q x @ CHR '']'' # rest) = Some (clean_json x, CHR '']'' # rest)" by simp
  then show ?case by (simp add: n skip_ws_solid)
next
  case (9 q x y ys)
  then obtain m where n: "n = Suc m" by (cases n) auto
  let ?r = "write_elems q (y # ys) @ rest"
  from 9 n have "read_value m (write_json q x @ CHR '','' # ?r) = Some (clean_json x, CHR '','' # ?r)"
    "read_elems m ?r = Some (map clean_json (y # ys), rest)" by simp_all
  then show ?case by (simp add: n skip_ws_solid)
next
  case (11 q k x)
  then obtain m where n: "n = Suc m" by (cases n) auto
  obtain body where s: "str k = CHR 0x22 # body" "\<And>rest. read_string (body @ rest) = Some (clean k, rest)"
    using str_reads by blast
  with 11 n have "read_value m (write_json q x @ CHR ''}'' # rest) = Some (clean_json x, CHR ''}'' # rest)" by simp
  with 11(2) s show ?case by (simp add: n skip_ws_solid)
next
  case (12 q k x y ys)
  then obtain m where n: "n = Suc m" by (cases n) auto
  obtain body where s: "str k = CHR 0x22 # body" "\<And>rest. read_string (body @ rest) = Some (clean k, rest)"
    using str_reads by blast
  let ?r = "write_members q (y # ys) @ rest"
  from 12 n s(1) have "read_value m (write_json q x @ CHR '','' # ?r) = Some (clean_json x, CHR '','' # ?r)"
    "read_members m ?r = Some (map (map_prod clean clean_json) (y # ys), rest)" by simp_all
  with 12(3) s show ?case by (simp add: n skip_ws_solid)
qed simp_all

lemma read_written:
  assumes "json_ok j"
  shows "read_json (write_json str j) = Some (clean_json j)" and "decode_first (write_json str j) = Some (clean_json j)"
  using write_read(1) [OF refl assms, of "[]" "2 * length (write_json str j)"]
  by (simp_all add: read_json_def decode_first_def skip_ws_def)

end

interpretation go_writer: json_writer go_string
proof
  fix s
  let ?body = "concat (map json_rune (chunks_of (map code s))) @ [CHR 0x22]"
  have u: "map (\<lambda>p. utf8 (fst p)) (chunks_of (map code s)) = map utf8 (runes s)"
    unfolding runes_def chunks_runes [symmetric] by simp
  have c: "p \<in> set (chunks_of (map code s)) \<Longrightarrow> read_string (json_rune p @ rest) = emit_bytes (utf8 (fst p)) (read_string rest)" for p rest
    using chunk_ok [of p "map code s"] read_go_rune [of p rest] by simp
  have "read_string (?body @ rest) = Some (clean s, rest)" for rest
    using read_runes [where w = json_rune and f = fst and ps = "chunks_of (map code s)" and rest = rest, OF c]
    by (simp only: u clean_def append.assoc append_Cons append_Nil)
  then show "\<exists>body. go_string s = CHR 0x22 # body \<and> (\<forall>rest. read_string (body @ rest) = Some (clean s, rest))"
    by (intro exI [of _ ?body]) (simp add: go_string_def)
qed

interpretation canonical_writer: json_writer writeCanonicalString
proof
  fix s
  let ?body = "concat (map writeRune (runes s)) @ [CHR 0x22]"
  have v: "r \<in> set (runes s) \<Longrightarrow> valid_rune r" for r using runes_of_valid [of "map code s"] by (auto simp: runes_def list_all_iff)
  have "read_string (?body @ rest) = Some (clean s, rest)" for rest
    using read_runes [where w = writeRune and f = id and ps = "runes s"] read_canonical_rune v by (simp add: clean_def)
  then show "\<exists>body. writeCanonicalString s = CHR 0x22 # body \<and> (\<forall>rest. read_string (body @ rest) = Some (clean s, rest))"
    by (intro exI [of _ ?body]) (simp add: writeCanonicalString_def)
qed

end
