(* ===== verification/Canonical.thy ===== *)
theory Canonical
  imports Json
begin

text \<open>
  The canonical text of encryption.go as JSON: it is the text of a document, with the keys of every map
  sorted, and every JSON reader gets that document back. So nothing of an encrypted payload is lost or
  confused on its way, and \<open>Decrypt\<close> inverts \<open>Encrypt\<close>.
\<close>

section \<open>The document of a payload\<close>

text \<open>The values \<open>decodeGenericJSON\<close> yields, which is what \<open>canonicalItemsJSON\<close> puts into a payload, and
  the integers; floats and the types that go through \<open>json.Marshal\<close> are left out.\<close>

function doc_of :: "goval \<Rightarrow> json" where
  "doc_of v = (case v of
     GBool b \<Rightarrow> JsBool b
   | GInt i \<Rightarrow> JsNum (Itoa i)
   | GUint n \<Rightarrow> JsNum (show_nat n)
   | GString s \<Rightarrow> JsStr s
   | GNumber s \<Rightarrow> JsNum s
   | GSlice items \<Rightarrow> JsArr (map doc_of items)
   | GMap m \<Rightarrow> JsObj (map (\<lambda>(k, item). (k, doc_of item)) (sort_key fst m))
   | _ \<Rightarrow> JsNull)"
  by pat_completeness auto
termination
  by (relation "measure size") (auto simp: less_Suc_eq_le intro: size_list_estimation' dest: size_map_entry)

declare doc_of.simps [simp del]

fun plain :: "goval \<Rightarrow> bool" where
  "plain GNil = True"
| "plain (GBool b) = True"
| "plain (GInt i) = True"
| "plain (GUint n) = True"
| "plain (GString s) = True"
| "plain (GNumber s) = valid_number s"
| "plain (GSlice items) = list_all plain items"
| "plain (GMap m) = list_all (\<lambda>e. plain (snd e)) m"
| "plain _ = False"

section \<open>The canonical text is the text of the document\<close>

lemma show_nat_no_zero: "n \<noteq> 0 \<Longrightarrow> hd (show_nat n) \<noteq> CHR ''0''"
proof (induction n rule: show_nat.induct)
  case (1 n)
  have z: "char_of (48 + d) \<noteq> CHR ''0''" if "d \<noteq> 0" "d < 10" for d :: nat
  proof -
    have "code (char_of (48 + d)) \<noteq> code (CHR ''0'')" using that by simp
    then show ?thesis by metis
  qed
  show ?case
  proof (cases "n < 10")
    case True
    with 1(2) z show ?thesis by (simp add: show_nat.simps [of n])
  next
    case False
    have "show_nat (n div 10) \<noteq> []" using show_nat_digits by blast
    with 1(1) [OF False] False show ?thesis by (simp add: show_nat.simps [of n])
  qed
qed

lemma unsigned_digits:
  "s \<noteq> [] \<Longrightarrow> list_all is_digit s \<Longrightarrow> hd s = CHR ''0'' \<longrightarrow> length s = 1 \<Longrightarrow> unsigned_number s"
proof -
  assume a: "s \<noteq> []" "list_all is_digit s" "hd s = CHR ''0'' \<longrightarrow> length s = 1"
  then have w: "takeWhile is_digit s = s" "dropWhile is_digit s = []" by (simp_all add: list_all_iff takeWhile_eq_all_conv)
  from a(1,3) show "unsigned_number s" unfolding unsigned_number_def Let_def w by (simp add: exponent_ok_def)
qed

lemma unsigned_show_nat: "unsigned_number (show_nat n)"
  using show_nat_digits [of n] show_nat_no_zero [of n]
  by (intro unsigned_digits) (cases "n = 0"; simp add: show_nat.simps [of 0])+

lemma valid_unsigned: "unsigned_number s \<Longrightarrow> hd s \<noteq> CHR ''-'' \<Longrightarrow> valid_number s" "unsigned_number s \<Longrightarrow> valid_number (CHR ''-'' # s)"
  by (simp_all add: valid_number_def)

lemma valid_show_nat: "valid_number (show_nat n)"
  using hd_show_nat [of n] by (intro valid_unsigned(1) unsigned_show_nat) (auto simp: is_digit_def byte_in_def)

lemma valid_Itoa: "valid_number (Itoa i)"
  by (simp add: Itoa_def valid_show_nat valid_unsigned(2) unsigned_show_nat)

lemma doc_of_ok: "plain v \<Longrightarrow> json_ok (doc_of v)"
proof (induction v rule: plain.induct)
  case (8 m)
  then have "\<And>e. e \<in> set m \<Longrightarrow> json_ok (doc_of (snd e))" by (simp add: list_all_iff)
  then show ?case by (auto simp: doc_of.simps [of "GMap m"] list_all_iff)
qed (auto simp: doc_of.simps list_all_iff valid_Itoa valid_show_nat)

lemma write_elems_join: "write_elems q xs = join_with '','' (map (write_json q) xs) @ '']''"
  by (induction xs rule: induct_list012) simp_all

lemma write_members_join: "write_members q ms = join_with '','' (map (\<lambda>(k, x). q k @ '':'' @ write_json q x) ms) @ ''}''"
  by (induction ms rule: induct_list012) (auto split: prod.split)

lemma canonical_text: "plain v \<Longrightarrow> writeCanonicalJSON E v = write_json writeCanonicalString (doc_of v)"
proof (induction v rule: plain.induct)
  case (7 items)
  then have e: "map (writeCanonicalJSON E) items = map (write_json writeCanonicalString) (map doc_of items)"
    by (simp add: list_all_iff)
  show ?case by (simp add: e del: map_map add: doc_of.simps [of "GSlice items"] writeCanonicalJSON.simps [of E "GSlice items"] write_elems_join)
next
  case (8 m)
  then have "\<And>e. e \<in> set m \<Longrightarrow> writeCanonicalJSON E (snd e) = write_json writeCanonicalString (doc_of (snd e))"
    by (simp add: list_all_iff)
  then have "map (\<lambda>(k, x). writeCanonicalString k @ '':'' @ writeCanonicalJSON E x) (sort_key fst m)
    = map (\<lambda>(k, x). writeCanonicalString k @ '':'' @ write_json writeCanonicalString x) (map (\<lambda>(k, x). (k, doc_of x)) (sort_key fst m))"
    by auto
  then show ?case
    by (simp only: doc_of.simps [of "GMap m"] writeCanonicalJSON.simps [of E "GMap m"] write_members_join goval.case write_json.simps append_Cons append_Nil)
qed (simp_all add: doc_of.simps writeCanonicalJSON.simps)

text \<open>The text of a payload, read by any JSON reader, is its document: the keys of each map in
  order, numbers as they were written, strings as the bytes of their runes.\<close>

theorem canonical_reads_back:
  assumes "plain v"
  shows "read_json (writeCanonicalJSON E v) = Some (clean_json (doc_of v))"
  unfolding canonical_text [OF assms] by (rule canonical_writer.read_written(1) [OF doc_of_ok [OF assms]])

end
