(* ===== verification/Decimal.thy ===== *)
theory Decimal
  imports Canonical
begin

text \<open>
  The decimal text of a float64 (\<open>strconv.FormatFloat\<close> with precision -1): the fewest digits that round
  back to the number, and of those the nearest; the two layouts encoding/json chooses between; and
  that ParseFloat gets the number back.
\<close>

section \<open>The shortest digits\<close>

text \<open>
  The search goes down from a power of ten above the number. At each scale only the two neighbours of the
  number can be nearest; the first scale at which one of them rounds back has the fewest digits. It ends
  at \<open>10 powi -1074\<close> at the latest, where every float64 is exact.
\<close>

definition rounds_to :: "rat \<Rightarrow> int \<Rightarrow> int \<Rightarrow> bool" where
  "rounds_to x s c \<longleftrightarrow> rnd64 (of_int c * 10 powi s) = Fin x"

fun descend :: "nat \<Rightarrow> rat \<Rightarrow> int \<Rightarrow> int \<times> int" where
  "descend n x s =
    (let lo = \<lfloor>x / 10 powi s\<rfloor>; hi = lo + 1 in
     if rounds_to x s lo
     then (if rounds_to x s hi \<and> of_int hi * 10 powi s - x < x - of_int lo * 10 powi s then (hi, s) else (lo, s))
     else if rounds_to x s hi then (hi, s)
     else (case n of 0 \<Rightarrow> (lo, s) | Suc m \<Rightarrow> descend m x (s - 1)))"

declare descend.simps [simp del]

text \<open>The scale at which every float64 is a whole number.\<close>

definition min_scale :: int where
  "min_scale = - 1074"

definition scale_above :: "rat \<Rightarrow> int" where
  "scale_above x = (case quotient_of x of (p, q) \<Rightarrow>
     int (length (show_nat (nat p))) - int (length (show_nat (nat q))) + 1)"

definition shortest :: "rat \<Rightarrow> int \<times> int" where
  "shortest x = (let s = max (scale_above x) min_scale in descend (nat (s - min_scale)) x s)"

text \<open>A number a float64 can have.\<close>

definition float64 :: "rat \<Rightarrow> bool" where
  "float64 x \<longleftrightarrow> rnd64 x = Fin x"

lemma scaled:
  assumes "x = of_int z * 2 powi e" "- int k \<le> e"
  shows "\<exists>z'::int. (x::rat) / 10 powi (- int k) = of_int z'"
proof -
  have "(10::rat) ^ k = 2 ^ k * 5 ^ k" by (simp flip: power_mult_distrib)
  then have "x / 10 powi (- int k) = of_int z * (2 powi e * 2 ^ k) * 5 ^ k"
    by (simp add: assms(1) power_int_minus divide_inverse)
  also have "(2::rat) powi e * 2 ^ k = 2 powi (e + int k)" by (simp add: power_int_add)
  also have "\<dots> = 2 ^ nat (e + int k)" using assms(2) by (simp add: power_int_def)
  finally have "x / 10 powi (- int k) = of_int (z * 2 ^ nat (e + int k) * 5 ^ k)" by simp
  then show ?thesis ..
qed

lemma float64_value: "float64 x \<Longrightarrow> x = of_int (if x = 0 then 0 else rhe (x / 2 powi ulp_exp x)) * 2 powi ulp_exp x"
  unfolding float64_def rnd64_def Let_def by (cases "x = 0") (simp_all only: if_True if_False f64.inject f64.distinct split: if_splits, simp_all)

lemma float64_scaled: "float64 x \<Longrightarrow> \<exists>z::int. x / 10 powi min_scale = of_int z"
  using scaled [OF float64_value, of x 1074] by (simp only: min_scale_def ulp_exp_def of_nat_numeral)

lemma descend_rounds:
  assumes "float64 x" "s = int n + min_scale" "descend n x s = (c, t)"
  shows "rounds_to x t c"
  using assms(2,3)
proof (induction n arbitrary: s)
  case 0
  then obtain z where z: "x / 10 powi s = of_int z" using float64_scaled [OF assms(1)] by auto
  then have "of_int \<lfloor>x / 10 powi s\<rfloor> * 10 powi s = x" by (simp add: nonzero_divide_eq_eq)
  then have "rounds_to x s \<lfloor>x / 10 powi s\<rfloor>" using assms(1) by (simp add: rounds_to_def float64_def)
  with 0 show ?case by (auto simp: descend.simps Let_def split: if_splits)
next
  case (Suc n)
  from Suc.prems(2) show ?case
    using Suc.IH [of "s - 1"] Suc.prems(1) by (subst (asm) descend.simps) (auto simp: Let_def split: if_splits)
qed

lemma shortest_rounds:
  assumes "float64 x" "shortest x = (c, s)"
  shows "rnd64 (of_int c * 10 powi s) = Fin x"
proof -
  let ?s = "max (scale_above x) min_scale"
  have "?s = int (nat (?s - min_scale)) + min_scale" by simp
  from descend_rounds [OF assms(1) this] assms(2) show ?thesis by (simp add: shortest_def Let_def rounds_to_def)
qed

lemma descend_nonneg: "0 \<le> x \<Longrightarrow> descend n x s = (c, t) \<Longrightarrow> 0 \<le> c"
proof (induction n x s rule: descend.induct)
  case (1 n x s)
  have l: "0 \<le> \<lfloor>x / 10 powi s\<rfloor>" using 1(2) by simp
  note d = "1.prems"(2) [unfolded descend.simps [of n x s] Let_def]
  show ?case
  proof (cases "rounds_to x s \<lfloor>x / 10 powi s\<rfloor> \<or> rounds_to x s (\<lfloor>x / 10 powi s\<rfloor> + 1) \<or> n = 0")
    case True
    with d l show ?thesis by (auto split: if_splits)
  next
    case False
    then obtain m where "n = Suc m" by (cases n) auto
    with False d show ?thesis using "1.IH" [OF refl refl, of m] "1.prems"(1) by simp
  qed
qed

lemma shortest_pos:
  assumes "0 < x" "float64 x" "shortest x = (c, s)"
  shows "0 < c"
proof -
  have "0 \<le> c" by (rule descend_nonneg [OF less_imp_le [OF assms(1)] assms(3) [unfolded shortest_def Let_def]])
  moreover have "c \<noteq> 0" using shortest_rounds [OF assms(2,3)] assms(1) by (auto simp: rnd64_def)
  ultimately show ?thesis by simp
qed

section \<open>The texts\<close>

text \<open>The digits and the position of the decimal point in them, plain and with an exponent.\<close>

definition format_f :: "gostring \<Rightarrow> int \<Rightarrow> gostring" where
  "format_f ds dp = (if dp \<le> 0 then ''0.'' @ replicate (nat (- dp)) (CHR ''0'') @ ds
     else if int (length ds) \<le> dp then ds @ replicate (nat dp - length ds) (CHR ''0'')
     else take (nat dp) ds @ ''.'' @ drop (nat dp) ds)"

definition format_e :: "gostring \<Rightarrow> int \<Rightarrow> gostring" where
  "format_e ds dp = [hd ds] @ (if 1 < length ds then ''.'' @ tl ds else [])
     @ ''e'' @ (if dp \<le> 0 then ''-'' else ''+'') @ show_nat (nat \<bar>dp - 1\<bar>)"

text \<open>The layout of encoding/json: with an exponent, not padded, below 1e-6 and from 1e21 on.\<close>

definition json_float :: "rat \<Rightarrow> gostring" where
  "json_float x = (if x = 0 then ''0'' else (if x < 0 then ''-'' else []) @
     (case shortest \<bar>x\<bar> of (c, s) \<Rightarrow>
        let ds = show_nat (nat c); dp = int (length ds) + s in
        if Fin \<bar>x\<bar> < rnd64 (1 / 1000000) \<or> 1000000000000000000000 \<le> \<bar>x\<bar> then format_e ds dp else format_f ds dp))"

section \<open>ParseFloat reads them\<close>

lemma digits_val_append: "digits_val (xs @ ys) = digits_val xs * 10 ^ length ys + digits_val ys"
proof (induction ys rule: rev_induct)
  case (snoc y ys)
  then show ?case using digits_val_snoc [of "xs @ ys" y] digits_val_snoc [of ys y] by (simp add: algebra_simps)
qed (simp add: digits_val_def)

lemma digits_val_zeros [simp]: "digits_val (replicate n (CHR ''0'')) = 0"
  by (induction n) (simp_all add: digits_val_def digit_val_def replicate_append_same [symmetric])

lemma scan_digits:
  "list_all is_digit ds \<Longrightarrow> scan_mant False dot v fr sd us (ds @ rest)
    = scan_mant False dot (v * 10 ^ length ds + digits_val ds) (if dot then fr + length ds else fr) (sd \<or> ds \<noteq> []) us rest"
proof (induction ds arbitrary: v fr sd)
  case (Cons d ds)
  then have d: "is_digit d" "d \<noteq> CHR ''_''" "d \<noteq> CHR ''.''" by (auto simp: is_digit_def byte_in_def)
  have "digits_val (d # ds) = digit_val d * 10 ^ length ds + digits_val ds"
    using digits_val_append [of "[d]" ds] by (simp add: digits_val_def)
  with Cons d show ?case by (simp add: algebra_simps)
qed (simp add: digits_val_def)

lemma scan_exp_digits:
  "list_all is_digit ds \<Longrightarrow> e * 10 ^ length ds + digits_val ds < 10000 \<Longrightarrow> scan_exp e us ds = (e * 10 ^ length ds + digits_val ds, us, [])"
proof (induction ds arbitrary: e)
  case (Cons d ds)
  then have d: "is_digit d" "d \<noteq> CHR ''_''" by (auto simp: is_digit_def byte_in_def)
  have v: "digits_val (d # ds) = digit_val d * 10 ^ length ds + digits_val ds"
    using digits_val_append [of "[d]" ds] by (simp add: digits_val_def)
  have "e \<le> e * 10 ^ length (d # ds)" by simp
  then have "e < 10000" using Cons.prems(2) by linarith
  with d v Cons.prems Cons.IH [of "e * 10 + digit_val d"] show ?case by (simp add: algebra_simps)
qed (simp add: digits_val_def)

text \<open>Digits, a point with more digits, an exponent.\<close>

definition decimal_text :: "gostring \<Rightarrow> gostring \<Rightarrow> int option \<Rightarrow> gostring" where
  "decimal_text a b k = a @ (if b = [] then [] else CHR ''.'' # b)
     @ (case k of None \<Rightarrow> [] | Some e \<Rightarrow> CHR ''e'' # (if e < 0 then CHR ''-'' else CHR ''+'') # show_nat (nat \<bar>e\<bar>))"

lemma parse_decimal:
  assumes "list_all is_digit a" "a \<noteq> []" "list_all is_digit b" "\<And>e. k = Some e \<Longrightarrow> \<bar>e\<bar> < 10000"
  shows "parse_number (decimal_text a b k)
    = Some (of_nat (digits_val (a @ b)) * 10 powi ((case k of None \<Rightarrow> 0 | Some e \<Rightarrow> e) - int (length b)))"
proof -
  let ?ex = "case k of None \<Rightarrow> [] | Some e \<Rightarrow> CHR ''e'' # (if e < 0 then CHR ''-'' else CHR ''+'') # show_nat (nat \<bar>e\<bar>)"
  let ?t = "decimal_text a b k"
  obtain d a' where a: "a = d # a'" "is_digit d" using assms(1,2) by (cases a) auto
  then have d: "d \<noteq> CHR ''-''" "d \<noteq> CHR ''+''" by (auto simp: is_digit_def byte_in_def)
  have ss: "strip_sign ?t = (1, ?t)" using d by (simp add: decimal_text_def a(1) strip_sign_def)
  have "lower_ascii (?t ! 1) \<noteq> CHR ''x''" if "2 < length ?t"
  proof -
    have "?t ! 1 \<in> set ''.e'' \<or> is_digit (?t ! 1)" using that assms(1)
      by (cases a'; cases b; cases k) (auto simp: decimal_text_def a(1))
    then show ?thesis by (auto simp: lower_ascii_def is_digit_def byte_in_def)
  qed
  then have hx: "hex_prefix ?t = False" by (auto simp: hex_prefix_def)
  have e: "scan_mant False dot v fr sd us ?ex = (v, fr, sd, us, ?ex)" for dot v fr sd us
    by (cases k) (simp_all add: is_digit_def byte_in_def)
  have m: "scan_mant False False 0 0 False False ?t = (digits_val (a @ b), length b, True, False, ?ex)"
  proof (cases "b = []")
    case True
    then show ?thesis using assms(2) by (simp add: decimal_text_def scan_digits [OF assms(1)] e)
  next
    case False
    have "scan_mant False False 0 0 False False ?t = scan_mant False True (digits_val a) 0 True False (b @ ?ex)"
      using False assms(2) by (simp add: decimal_text_def scan_digits [OF assms(1)])
    with False show ?thesis by (simp add: scan_digits [OF assms(3)] e digits_val_append)
  qed
  note p = parse_number_def [of ?t, unfolded ss Let_def prod.case hx simp_thms if_True if_False m]
  show ?thesis
  proof (cases k)
    case None
    then show ?thesis unfolding p by simp
  next
    case (Some x)
    let ?n = "nat \<bar>x\<bar>"
    have sd: "list_all is_digit (show_nat ?n)" "show_nat ?n \<noteq> []" "is_digit (hd (show_nat ?n))"
      using show_nat_digits hd_show_nat by auto
    have "scan_exp 0 us (show_nat ?n) = (?n, us, [])" for us
      using scan_exp_digits [OF sd(1), of 0 us] assms(4) [OF Some] by simp
    moreover have "lower_ascii (CHR ''e'') = CHR ''e''" by code_simp
    ultimately show ?thesis unfolding p using sd by (cases "x < 0") (simp_all add: Some strip_sign_def)
  qed
qed

lemma replicate_digits: "list_all is_digit (replicate n (CHR ''0''))"
  by (induction n) (simp_all add: is_digit_def byte_in_def)

lemma digit_zero: "is_digit (CHR ''0'')"
  by code_simp

lemma format_f_text:
  assumes "ds \<noteq> []" "list_all is_digit ds"
  shows "\<exists>a b. format_f ds dp = decimal_text a b None \<and> list_all is_digit a \<and> a \<noteq> [] \<and> list_all is_digit b
    \<and> (hd ds \<noteq> CHR ''0'' \<longrightarrow> hd a = CHR ''0'' \<longrightarrow> length a = 1)
    \<and> rat_of_nat (digits_val (a @ b)) * 10 powi (- int (length b)) = of_nat (digits_val ds) * 10 powi (dp - int (length ds))"
proof -
  consider "dp \<le> 0" | "0 < dp" "int (length ds) \<le> dp" | "0 < dp" "dp < int (length ds)" by linarith
  then show ?thesis
  proof cases
    case 1
    let ?b = "replicate (nat (- dp)) (CHR ''0'') @ ds"
    have "''0'' @ ?b = replicate (Suc (nat (- dp))) (CHR ''0'') @ ds" by simp
    then have "digits_val (''0'' @ ?b) = digits_val ds" by (simp only: digits_val_append digits_val_zeros mult_zero_left add_0)
    with 1 assms show ?thesis
      by (intro exI [of _ "''0''"] exI [of _ ?b])
        (simp add: format_f_def decimal_text_def replicate_digits digit_zero)
  next
    case 2
    obtain m where m: "dp = int (length ds) + int m" using 2(2) by (metis zle_iff_zadd)
    let ?a = "ds @ replicate m (CHR ''0'')"
    have "digits_val ?a = digits_val ds * 10 ^ m" by (simp add: digits_val_append)
    moreover have "format_f ds dp = ?a" using 2(1) by (simp add: format_f_def m nat_add_distrib)
    ultimately show ?thesis using assms
      by (intro exI [of _ ?a] exI [of _ "[]"]) (simp add: decimal_text_def replicate_digits m)
  next
    case 3
    then obtain m where m: "dp = int m" "0 < m" "m < length ds" by (cases dp) auto
    have "list_all is_digit (take m ds)" "list_all is_digit (drop m ds)"
      using assms(2) by (auto simp: list_all_iff dest: in_set_takeD in_set_dropD)
    with 3 m assms show ?thesis
      by (intro exI [of _ "take m ds"] exI [of _ "drop m ds"]) (simp add: format_f_def decimal_text_def hd_take)
  qed
qed

lemma format_e_text:
  assumes "ds \<noteq> []" "list_all is_digit ds"
  shows "\<exists>a b. format_e ds dp = decimal_text a b (Some (dp - 1)) \<and> list_all is_digit a \<and> a \<noteq> [] \<and> list_all is_digit b
    \<and> length a = 1
    \<and> rat_of_nat (digits_val (a @ b)) * 10 powi (dp - 1 - int (length b)) = of_nat (digits_val ds) * 10 powi (dp - int (length ds))"
proof -
  obtain d t where ds: "ds = d # t" using assms(1) by (cases ds) auto
  with assms(2) show ?thesis
    by (intro exI [of _ "[d]"] exI [of _ t]) (simp add: format_e_def decimal_text_def algebra_simps)
qed

lemma unsigned_decimal:
  assumes "list_all is_digit a" "a \<noteq> []" "hd a = CHR ''0'' \<longrightarrow> length a = 1" "list_all is_digit b"
  shows "unsigned_number (decimal_text a b k)" and "is_digit (hd (decimal_text a b k))"
proof -
  define ex where "ex = (case k of None \<Rightarrow> [] | Some e \<Rightarrow> CHR ''e'' # (if e < 0 then CHR ''-'' else CHR ''+'') # show_nat (nat \<bar>e\<bar>))"
  have x: "exponent_ok ex" "ex = [] \<or> \<not> is_digit (hd ex)" "ex = [] \<or> hd ex \<noteq> CHR ''.''"
    using show_nat_digits by (auto simp: ex_def exponent_ok_def is_digit_def byte_in_def split: option.split)
  have span: "takeWhile is_digit (ds @ r) = ds \<and> dropWhile is_digit (ds @ r) = r"
    if "list_all is_digit ds" "r = [] \<or> \<not> is_digit (hd r)" for ds r
    using that by (cases r) (auto simp: list_all_iff takeWhile_append2 dropWhile_append2)
  show "is_digit (hd (decimal_text a b k))" using assms(1,2) by (cases a) (simp_all add: decimal_text_def)
  show "unsigned_number (decimal_text a b k)"
  proof (cases "b = []")
    case True
    from span [OF assms(1), of ex] x have s: "takeWhile is_digit (a @ ex) = a" "dropWhile is_digit (a @ ex) = ex" by blast+
    have e: "decimal_text a b k = a @ ex" using True by (simp add: decimal_text_def ex_def)
    show ?thesis unfolding unsigned_number_def e Let_def s using x assms(2,3) by auto
  next
    case False
    have d: "\<not> is_digit (CHR ''.'')" by code_simp
    from span [OF assms(1), of "CHR ''.'' # b @ ex"] d
    have s: "takeWhile is_digit (a @ CHR ''.'' # b @ ex) = a" "dropWhile is_digit (a @ CHR ''.'' # b @ ex) = CHR ''.'' # b @ ex" by simp_all
    from span [OF assms(4), of ex] x have t: "takeWhile is_digit (b @ ex) = b" "dropWhile is_digit (b @ ex) = ex" by blast+
    have e: "decimal_text a b k = a @ CHR ''.'' # b @ ex" using False by (simp add: decimal_text_def ex_def)
    show ?thesis unfolding unsigned_number_def e Let_def s list.sel t using x(1) assms(2,3) False by simp
  qed
qed

section \<open>A float reads back\<close>

lemma rhe_minus: "rhe (- x) = - rhe x"
proof (cases "x \<in> \<int>")
  case True
  then obtain n where "x = of_int n" by (rule Ints_cases)
  then show ?thesis by (metis of_int_minus rhe_of_int)
next
  case False
  define f where "f = \<lfloor>x\<rfloor>"
  have b: "of_int f < x" "x < of_int f + 1" using False floor_correct [of x] by (auto simp: f_def less_le)
  have m: "\<lfloor>- x\<rfloor> = - f - 1" using b by (intro floor_unique) auto
  show ?thesis unfolding rhe_def Let_def m f_def [symmetric] by auto
qed

lemma rnd64_minus: "rnd64 r = Fin x \<Longrightarrow> rnd64 (- r) = Fin (- x)"
  by (auto simp: rnd64_def Let_def ulp_exp_def rhe_minus split: if_splits)

lemma show_nat_least: "0 < n \<Longrightarrow> 10 ^ (length (show_nat n) - 1) \<le> n"
proof (induction n rule: show_nat.induct)
  case (1 n)
  show ?case
  proof (cases "n < 10")
    case True
    with 1(2) show ?thesis by (simp add: show_nat.simps [of n])
  next
    case False
    have "10 ^ (length (show_nat (n div 10)) - 1) \<le> n div 10" using False by (intro 1(1)) auto
    moreover have "length (show_nat n) - 1 = Suc (length (show_nat (n div 10)) - 1)"
      using False show_nat_digits [of "n div 10"] by (cases "show_nat (n div 10)") (simp_all add: show_nat.simps [of n])
    ultimately show ?thesis by simp
  qed
qed

lemma descend_scale: "descend n x s = (c, t) \<Longrightarrow> s - int n \<le> t"
proof (induction n arbitrary: s)
  case 0
  then show ?case by (auto simp: descend.simps Let_def split: if_splits)
next
  case (Suc n)
  from Suc.prems show ?case
    using Suc.IH [of "s - 1"] by (subst (asm) descend.simps) (auto simp: Let_def split: if_splits)
qed

lemma power_bound:
  assumes "(10::rat) ^ m * 10 powi s \<le> v" "v < 2 ^ k"
  shows "int m + s < int k"
proof (rule ccontr)
  assume "\<not> int m + s < int k"
  then have "(10::rat) powi int k \<le> 10 powi (int m + s)" by (intro power_int_increasing) auto
  also have "\<dots> = 10 ^ m * 10 powi s" by (simp add: power_int_add)
  also have "\<dots> < 2 ^ k" using assms by simp
  also have "(2::rat) ^ k \<le> 10 ^ k" by (rule power_mono) simp_all
  finally show False by simp
qed

lemma shortest_scale: "shortest x = (c, s) \<Longrightarrow> min_scale \<le> s"
  using descend_scale [of "nat (max (scale_above x) min_scale - min_scale)" x "max (scale_above x) min_scale" c s]
  by (simp add: shortest_def Let_def)

lemma rnd64_overflow: "2 ^ 1024 \<le> r \<Longrightarrow> rnd64 r = PInf"
proof -
  assume r: "2 ^ 1024 \<le> r"
  have z: "(0::rat) < 2 ^ 1024" by (rule zero_less_power) simp
  have "representable (2 ^ 1024)" by (rule representableI [of _ 1 1024]) (simp_all add: power_int_def del: power_numeral)
  from rnd64_value_ge [OF this less_le_trans [OF z r] r] less_le_trans [OF z r] show ?thesis
    unfolding rnd64_def Let_def by (simp del: power_numeral)
qed

lemma shortest_position:
  assumes "0 < x" "float64 x" "shortest x = (c, s)"
  shows "\<bar>int (length (show_nat (nat c))) + s - 1\<bar> < 10000"
proof -
  let ?n = "length (show_nat (nat c))"
  have c: "0 < c" by (rule shortest_pos [OF assms])
  have n: "1 \<le> ?n" using show_nat_digits [of "nat c"] by (cases "show_nat (nat c)") auto
  have lo: "- 1074 \<le> s" using shortest_scale [OF assms(3)] by (simp add: min_scale_def)
  have "of_int c * 10 powi s < (2::rat) ^ 1024"
  proof (rule ccontr)
    assume "\<not> of_int c * 10 powi s < (2::rat) ^ 1024"
    then have "rnd64 (of_int c * 10 powi s) = PInf" by (intro rnd64_overflow) (simp only: not_less)
    then show False using shortest_rounds [OF assms(2,3)] by simp
  qed
  moreover have "(10::rat) ^ (?n - 1) \<le> of_int c"
  proof -
    have "int (10 ^ (?n - 1)) \<le> c" using show_nat_least [of "nat c"] c by linarith
    then have "rat_of_int (int (10 ^ (?n - 1))) \<le> of_int c" by (simp only: of_int_le_iff)
    then show ?thesis by simp
  qed
  then have "(10::rat) ^ (?n - 1) * 10 powi s \<le> of_int c * 10 powi s" by (rule mult_right_mono) simp
  ultimately have "int (?n - 1) + s < int 1024" by (intro power_bound)
  with n lo show ?thesis by simp
qed

lemma json_float_cases:
  assumes "float64 x" "x \<noteq> 0"
  obtains a b k where "json_float x = (if x < 0 then ''-'' else []) @ decimal_text a b k"
    "list_all is_digit a" "a \<noteq> []" "hd a = CHR ''0'' \<longrightarrow> length a = 1" "list_all is_digit b" "\<And>e. k = Some e \<Longrightarrow> \<bar>e\<bar> < 10000"
    "rnd64 (of_nat (digits_val (a @ b)) * 10 powi ((case k of None \<Rightarrow> 0 | Some e \<Rightarrow> e) - int (length b))) = Fin \<bar>x\<bar>"
proof -
  obtain c s where cs: "shortest \<bar>x\<bar> = (c, s)" by (metis prod.collapse)
  have f: "float64 \<bar>x\<bar>" using assms(1) rnd64_minus [of x x] by (auto simp: float64_def abs_if)
  have c: "0 < c" using shortest_pos [OF _ f cs] assms(2) by simp
  let ?ds = "show_nat (nat c)"
  have d: "?ds \<noteq> []" "list_all is_digit ?ds" "hd ?ds \<noteq> CHR ''0''" and v: "digits_val ?ds = nat c"
    using show_nat_digits show_nat_no_zero [of "nat c"] c by auto
  let ?dp = "int (length ?ds) + s"
  have r: "rnd64 (of_nat (nat c) * 10 powi s) = Fin \<bar>x\<bar>" using shortest_rounds [OF f cs] c by simp
  show thesis
  proof (cases "Fin \<bar>x\<bar> < rnd64 (1 / 1000000) \<or> 1000000000000000000000 \<le> \<bar>x\<bar>")
    case True
    have k: "\<bar>?dp - 1\<bar> < 10000" using shortest_position [OF _ f cs] assms(2) by simp
    from format_e_text [OF d(1,2), of ?dp] obtain a b where t: "format_e ?ds ?dp = decimal_text a b (Some (?dp - 1))"
      "list_all is_digit a" "a \<noteq> []" "list_all is_digit b" "length a = 1"
      "rat_of_nat (digits_val (a @ b)) * 10 powi (?dp - 1 - int (length b)) = of_nat (digits_val ?ds) * 10 powi (?dp - int (length ?ds))"
      by blast
    show thesis
      by (rule that [of a b "Some (?dp - 1)"]) (use True t k assms(2) cs r v in \<open>simp_all add: json_float_def Let_def\<close>)
  next
    case False
    from format_f_text [OF d(1,2), of ?dp] d(3) obtain a b where t: "format_f ?ds ?dp = decimal_text a b None"
      "list_all is_digit a" "a \<noteq> []" "list_all is_digit b" "hd a = CHR ''0'' \<longrightarrow> length a = 1"
      "rat_of_nat (digits_val (a @ b)) * 10 powi (- int (length b)) = of_nat (digits_val ?ds) * 10 powi (?dp - int (length ?ds))"
      by blast
    show thesis
      by (rule that [of a b None]) (use False t assms(2) cs r v in \<open>simp_all add: json_float_def Let_def\<close>)
  qed
qed

lemma strip_sign_digit: "s \<noteq> [] \<Longrightarrow> is_digit (hd s) \<Longrightarrow> strip_sign s = (1, s)"
  by (cases s) (auto simp: strip_sign_def is_digit_def byte_in_def)

lemma parse_number_minus:
  assumes "s \<noteq> []" "is_digit (hd s)"
  shows "parse_number (CHR ''-'' # s) = map_option uminus (parse_number s)"
proof -
  have "strip_sign (CHR ''-'' # s) = (-1, s)" by (simp add: strip_sign_def)
  then show ?thesis unfolding parse_number_def strip_sign_digit [OF assms]
    by (simp only: prod.case Let_def if_distrib [of "map_option uminus"] prod.case_distrib [of "map_option uminus"] option.map
        of_int_1 of_int_minus mult_minus_left mult_1_left cong: if_cong prod.case_cong)
qed

lemma parse_special_digit:
  assumes "s \<noteq> []" "is_digit (hd s)"
  shows "parse_special s = None" and "parse_special (CHR ''-'' # s) = None"
proof -
  obtain d t where s: "s = d # t" using assms(1) by (cases s) auto
  then have "lower_ascii d \<noteq> CHR ''i''" "lower_ascii d \<noteq> CHR ''n''" "lower_ascii (CHR ''-'') \<noteq> CHR ''n''"
    using assms(2) by (auto simp: lower_ascii_def is_digit_def byte_in_def)
  then show "parse_special s = None" "parse_special (CHR ''-'' # s) = None"
    unfolding parse_special_def strip_sign_digit [OF assms] by (auto simp: s Let_def strip_sign_def)
qed

lemma json_float_digits: "float64 x \<Longrightarrow> \<exists>s. json_float x = (if x < 0 then ''-'' else []) @ s \<and> unsigned_number s
    \<and> s \<noteq> [] \<and> is_digit (hd s) \<and> (\<exists>r. parse_number s = Some r \<and> rnd64 r = Fin \<bar>x\<bar>)"
proof (cases "x = 0")
  case True
  have d: "list_all is_digit ''0''" by (simp add: digit_zero)
  have t: "decimal_text ''0'' [] None = ''0''" by (simp add: decimal_text_def)
  have "parse_number ''0'' = Some 0"
    using parse_decimal [OF d, of "[]" None] by (simp add: t) (simp add: digits_val_def digit_val_def)
  with True unsigned_decimal [OF d, of "[]" None] show ?thesis
    by (intro exI [of _ "''0''"]) (simp add: json_float_def t rnd64_def)
next
  case False
  assume "float64 x"
  from json_float_cases [OF this False] obtain a b k where j: "json_float x = (if x < 0 then ''-'' else []) @ decimal_text a b k"
    and w: "list_all is_digit a" "a \<noteq> []" "hd a = CHR ''0'' \<longrightarrow> length a = 1" "list_all is_digit b"
    and e: "\<And>e. k = Some e \<Longrightarrow> \<bar>e\<bar> < 10000"
    and r: "rnd64 (of_nat (digits_val (a @ b)) * 10 powi ((case k of None \<Rightarrow> 0 | Some e \<Rightarrow> e) - int (length b))) = Fin \<bar>x\<bar>"
    by metis
  note p = parse_decimal [OF w(1,2,4) e]
  have "decimal_text a b k \<noteq> []" using w(2) by (simp add: decimal_text_def)
  with j p r unsigned_decimal [OF w] show ?thesis by (intro exI [of _ "decimal_text a b k"]) simp
qed

text \<open>What encoding/json writes for a finite float64 is a number literal, and its decoder gets the
  same float64 back (\<open>-0\<close> apart, which this model does not tell from 0).\<close>

theorem json_float_reads_back:
  assumes "float64 x"
  shows "valid_number (json_float x)" and "ParseFloat (json_float x) = Some (Fin x)"
proof -
  obtain s r where j: "json_float x = (if x < 0 then ''-'' else []) @ s" and u: "unsigned_number s"
    and s: "s \<noteq> []" "is_digit (hd s)" and p: "parse_number s = Some r" "rnd64 r = Fin \<bar>x\<bar>"
    using json_float_digits [OF assms] by blast
  have "hd s \<noteq> CHR ''-''" using s(2) by (auto simp: is_digit_def byte_in_def)
  with u show "valid_number (json_float x)" by (simp add: j valid_unsigned)
  note f = parse_special_digit [OF s] parse_number_minus [OF s] p
  show "ParseFloat (json_float x) = Some (Fin x)"
    using rnd64_minus [OF p(2)] by (cases "x < 0") (simp_all add: ParseFloat_def j f)
qed

end
