(* ===== verification/Timestamp.thy ===== *)
theory Timestamp
  imports Decimal Status
begin

text \<open>
  The JSON form of a \<open>time.Time\<close> (RFC 3339 with the nanoseconds as a fraction, years 0 to 9999) and its
  parser. An instant carries no zone here: times are written in UTC, and an offset is subtracted when
  one is read.
\<close>

section \<open>The calendar\<close>

text \<open>The days before January 1 of a year, counted from year 1, and those of a date.\<close>

definition days_before_year :: "int \<Rightarrow> int" where
  "days_before_year y = (let n = y - 1 in 365 * n + n div 4 - n div 100 + n div 400)"

definition days_of :: "int \<Rightarrow> int \<Rightarrow> int \<Rightarrow> int" where
  "days_of y m d = days_before_year y + sum_list (take (nat (m - 1)) (month_lengths y)) + d - 1"

lemma civil_year_split:
  fixes days :: int
  obtains a b c d r where "civil_year days = (400 * a + 100 * b + 4 * c + d + 1, r)"
    "days = 146097 * a + 36524 * b + 1461 * c + 365 * d + r"
    "0 \<le> b" "b \<le> 3" "0 \<le> c" "c \<le> 24" "0 \<le> d" "d \<le> 3" "0 \<le> r" "r \<le> 365"
    "r = 365 \<longrightarrow> d = 3 \<and> (c = 24 \<longrightarrow> b = 3)"
proof -
  define a where "a = days div 146097"
  define q where "q = days mod 146097"
  define b where "b = min 3 (q div 36524)"
  define q1 where "q1 = q - 36524 * b"
  define c where "c = q1 div 1461"
  define q2 where "q2 = q1 mod 1461"
  define d where "d = min 3 (q2 div 365)"
  have q: "0 \<le> q" "q < 146097" "days = 146097 * a + q" by (simp_all add: q_def a_def)
  have b: "0 \<le> b" "b \<le> 3" using q(1) by (auto simp: b_def pos_imp_zdiv_nonneg_iff)
  have q1: "0 \<le> q1" "q1 \<le> 36524" "q1 = 36524 \<longrightarrow> b = 3"
  proof -
    have "36524 * (q div 36524) + q mod 36524 = q" "0 \<le> q mod 36524" "q mod 36524 < 36524" by simp_all
    then have "36524 * (q div 36524) \<le> q" "q < 36524 * (q div 36524) + 36524" by linarith+
    with q(2) show "0 \<le> q1" "q1 \<le> 36524" "q1 = 36524 \<longrightarrow> b = 3"
      by (auto simp: q1_def b_def min_def)
  qed
  have q2: "0 \<le> q2" "q2 < 1461" "q1 = 1461 * c + q2" by (simp_all add: q2_def c_def)
  have c: "0 \<le> c" "c \<le> 24" using q1(1,2) q2 by linarith+
  have e: "365 * (q2 div 365) \<le> q2" "q2 < 365 * (q2 div 365) + 365"
  proof -
    have "365 * (q2 div 365) + q2 mod 365 = q2" "0 \<le> q2 mod 365" "q2 mod 365 < 365" by simp_all
    then show "365 * (q2 div 365) \<le> q2" "q2 < 365 * (q2 div 365) + 365" by linarith+
  qed
  have d: "0 \<le> d" "d \<le> 3" "0 \<le> q2 - 365 * d" "q2 - 365 * d \<le> 365" "q2 - 365 * d = 365 \<longrightarrow> d = 3"
    using e q2(1,2) by (auto simp: d_def min_def pos_imp_zdiv_nonneg_iff)
  have "civil_year days = (400 * a + 100 * b + 4 * c + d + 1, q2 - 365 * d)"
    unfolding civil_year_def Let_def a_def b_def c_def d_def q_def q1_def q2_def ..
  moreover have "c = 24 \<longrightarrow> b = 3" if "q2 - 365 * d = 365" using that d q1(3) q2(3) q1(2) by auto
  moreover have "days = 146097 * a + 36524 * b + 1461 * c + 365 * d + (q2 - 365 * d)"
    using q(3) q2(3) by (simp add: q1_def)
  ultimately show thesis using that b c d by blast
qed

lemma div_small: "0 \<le> r \<Longrightarrow> r < m \<Longrightarrow> (m * x + r) div m = (x::int)"
  by simp

theorem civil_year_days:
  assumes "civil_year days = (y, yday)"
  shows "days_before_year y + yday = days" and "0 \<le> yday" and "yday < (if leap_year y then 366 else 365)"
proof -
  obtain a b c d r where s: "civil_year days = (400 * a + 100 * b + 4 * c + d + 1, r)"
    "days = 146097 * a + 36524 * b + 1461 * c + 365 * d + r"
    "0 \<le> b" "b \<le> 3" "0 \<le> c" "c \<le> 24" "0 \<le> d" "d \<le> 3" "0 \<le> r" "r \<le> 365"
    "r = 365 \<longrightarrow> d = 3 \<and> (c = 24 \<longrightarrow> b = 3)" by (rule civil_year_split [of days])
  with assms have y: "y = 400 * a + 100 * b + 4 * c + d + 1" and r: "yday = r" by simp_all
  let ?n = "400 * a + 100 * b + 4 * c + d"
  have "?n div 4 = 100 * a + 25 * b + c" using div_small [of d 4 "100 * a + 25 * b + c"] s by (simp add: algebra_simps)
  moreover have "?n div 100 = 4 * a + b" using div_small [of "4 * c + d" 100 "4 * a + b"] s by (simp add: algebra_simps)
  moreover have "?n div 400 = a" using div_small [of "100 * b + 4 * c + d" 400 a] s by (simp add: algebra_simps)
  ultimately show "days_before_year y + yday = days" by (simp add: days_before_year_def Let_def y r s(2))
  show "0 \<le> yday" using s r by simp
  have "leap_year y" if "r = 365"
  proof -
    from s(11) that have d: "d = 3" and c: "c = 24 \<longrightarrow> b = 3" by simp_all
    have y4: "y = 4 * (100 * a + 25 * b + c + 1)" by (simp add: y d)
    show ?thesis
    proof (cases "c = 24")
      case True
      with c have "y = 400 * (a + 1)" by (simp add: y d)
      then show ?thesis unfolding leap_year_def by simp
    next
      case False
      have "y mod 100 = 4 * c + 4" using mod_mult_self2 [of "4 * c + 4" 100 "4 * a + b"] False s(5,6)
        by (simp add: y d algebra_simps)
      then show ?thesis unfolding leap_year_def y4 using s(5) by simp
    qed
  qed
  then show "yday < (if leap_year y then 366 else 365)" using s(9,10) r by (cases "r = 365") auto
qed

lemma month_day_split:
  "0 \<le> d \<Longrightarrow> d < sum_list ns \<Longrightarrow> \<exists>k < length ns. month_day ns m d = (m + int k, d - sum_list (take k ns) + 1)
    \<and> 0 \<le> d - sum_list (take k ns) \<and> d - sum_list (take k ns) < ns ! k"
proof (induction ns arbitrary: m d)
  case (Cons n ns)
  show ?case
  proof (cases "d < n")
    case True
    with Cons.prems show ?thesis by (intro exI [of _ 0]) simp
  next
    case False
    with Cons.prems have "0 \<le> d - n" "d - n < sum_list ns" by auto
    from Cons.IH [OF this, of "m + 1"] obtain k where "k < length ns"
      "month_day ns (m + 1) (d - n) = (m + 1 + int k, d - n - sum_list (take k ns) + 1)"
      "0 \<le> d - n - sum_list (take k ns)" "d - n - sum_list (take k ns) < ns ! k" by blast
    with False show ?thesis by (intro exI [of _ "Suc k"]) (simp add: algebra_simps)
  qed
qed simp

theorem civil_date:
  assumes "civil_year days = (y, yday)" "month_day (month_lengths y) 1 yday = (m, d)"
  shows "days_of y m d = days" and "1 \<le> m" and "m \<le> 12" and "1 \<le> d" and "d \<le> month_lengths y ! nat (m - 1)"
proof -
  note c = civil_year_days [OF assms(1)]
  have "sum_list (month_lengths y) = (if leap_year y then 366 else 365)" by (simp add: month_lengths_def)
  with c month_day_split [of yday "month_lengths y" 1] assms(2) obtain k where k: "k < length (month_lengths y)"
    "m = 1 + int k" "d = yday - sum_list (take k (month_lengths y)) + 1"
    "0 \<le> yday - sum_list (take k (month_lengths y))" "yday - sum_list (take k (month_lengths y)) < month_lengths y ! k" by auto
  then show "days_of y m d = days" "1 \<le> d" "d \<le> month_lengths y ! nat (m - 1)" using c(1) by (auto simp: days_of_def)
  show "1 \<le> m" "m \<le> 12" using k(1,2) by (simp_all add: month_lengths_def)
qed

section \<open>Writing and reading an instant\<close>

definition fraction :: "int \<Rightarrow> gostring" where
  "fraction nanos = (if nanos = 0 then [] else CHR ''.'' # TrimRight (pad 9 nanos) (CHR ''0''))"

text \<open>None where \<open>MarshalJSON\<close> reports a year outside 0 to 9999.\<close>

definition json_time :: "gotime \<Rightarrow> gostring option" where
  "json_time t = (let y = fst (civil_year (t div Second div 86400)) in
     if 0 \<le> y \<and> y \<le> 9999 then Some (butlast (format_RFC3339 t) @ fraction (t mod Second) @ ''Z'') else None)"

definition num_at :: "nat \<Rightarrow> nat \<Rightarrow> gostring \<Rightarrow> int option" where
  "num_at i n s = (let ds = take n (drop i s) in
     if length ds = n \<and> list_all is_digit ds then Some (int (digits_val ds)) else None)"

definition read_fraction :: "gostring \<Rightarrow> (int \<times> gostring) option" where
  "read_fraction s = (if s \<noteq> [] \<and> hd s = CHR ''.'' then
       (let ds = takeWhile is_digit (tl s) in
        if ds = [] then None
        else Some (int (digits_val (take 9 (ds @ replicate 9 (CHR ''0'')))), dropWhile is_digit (tl s)))
     else Some (0, s))"

definition read_zone :: "gostring \<Rightarrow> int option" where
  "read_zone s = (if s = ''Z'' then Some 0
     else case (num_at 1 2 s, num_at 4 2 s) of
       (Some h, Some m) \<Rightarrow>
         if length s = 6 \<and> (hd s = CHR ''+'' \<or> hd s = CHR ''-'') \<and> s ! 3 = CHR '':'' \<and> h < 24 \<and> m < 60
         then Some ((if hd s = CHR ''-'' then -1 else 1) * (h * 3600 + m * 60)) else None
     | _ \<Rightarrow> None)"

definition read_time :: "gostring \<Rightarrow> gotime option" where
  "read_time s = (case (num_at 0 4 s, num_at 5 2 s, num_at 8 2 s, num_at 11 2 s, num_at 14 2 s, num_at 17 2 s) of
     (Some y, Some mo, Some d, Some h, Some mi, Some sec) \<Rightarrow>
       if s ! 4 = CHR ''-'' \<and> s ! 7 = CHR ''-'' \<and> s ! 10 = CHR ''T'' \<and> s ! 13 = CHR '':'' \<and> s ! 16 = CHR '':''
         \<and> 1 \<le> mo \<and> mo \<le> 12 \<and> 1 \<le> d \<and> d \<le> month_lengths y ! nat (mo - 1) \<and> h < 24 \<and> mi < 60 \<and> sec < 60
       then Option.bind (read_fraction (drop 19 s)) (\<lambda>(ns, rest).
         map_option (\<lambda>off. (days_of y mo d * 86400 + h * 3600 + mi * 60 + sec - off) * Second + ns) (read_zone rest))
       else None
   | _ \<Rightarrow> None)"

lemma pad_digits:
  assumes "0 \<le> k" "k < 10 ^ n" "0 < n"
  shows "length (pad n k) = n" and "list_all is_digit (pad n k)" and "int (digits_val (pad n k)) = k"
proof -
  have "length (show_nat (nat k)) \<le> n"
  proof (cases "k = 0")
    case False
    with assms(1) have "10 ^ (length (show_nat (nat k)) - 1) \<le> nat k" by (intro show_nat_least) simp
    also have "nat k < 10 ^ n" using assms(1,2) by (simp add: nat_less_iff)
    finally have "length (show_nat (nat k)) - 1 < n" by simp
    then show ?thesis by simp
  qed (use assms(3) in \<open>simp add: show_nat.simps\<close>)
  moreover have "pad n k = replicate (n - length (show_nat (nat k))) (CHR ''0'') @ show_nat (nat k)"
    using assms(1) by (simp add: pad_def Itoa_def Let_def)
  ultimately show "length (pad n k) = n" "list_all is_digit (pad n k)" "int (digits_val (pad n k)) = k"
    using show_nat_digits assms(1) by (simp_all add: replicate_digits digits_val_append)
qed

lemma read_fraction_back:
  assumes "0 \<le> n" "n < Second"
  shows "read_fraction (fraction n @ ''Z'') = Some (n, ''Z'')"
proof (cases "n = 0")
  case False
  let ?p = "pad 9 n" and ?t = "TrimRight (pad 9 n) (CHR ''0'')"
  have p: "length ?p = 9" "list_all is_digit ?p" "int (digits_val ?p) = n" using pad_digits [of n 9] assms by simp_all
  obtain k where k: "?p = ?t @ replicate k (CHR ''0'')" using TrimRight_append by blast
  have t: "list_all is_digit ?t" using p(2) by (subst (asm) k) simp
  have l: "length ?t + k = 9" using p(1) by (subst (asm) k) simp
  have "?t \<noteq> []"
  proof
    assume "?t = []"
    then have "digits_val ?p = 0" by (subst k) simp
    with p(3) False show False by simp
  qed
  moreover have "take 9 (?t @ replicate 9 (CHR ''0'')) = ?p"
  proof -
    have "take 9 (?t @ replicate 9 (CHR ''0'')) = ?t @ replicate (9 - length ?t) (CHR ''0'')" using l by simp
    with l k show ?thesis by (metis add_diff_cancel_left')
  qed
  moreover have "\<not> is_digit (CHR ''Z'')" by code_simp
  then have "takeWhile is_digit (?t @ ''Z'') = ?t" "dropWhile is_digit (?t @ ''Z'') = ''Z''"
    using t by (simp_all add: list_all_iff takeWhile_append2 dropWhile_append2)
  ultimately show ?thesis using False p(3) by (simp add: read_fraction_def fraction_def)
qed (simp add: read_fraction_def fraction_def)

lemma date_fields:
  assumes "length a = 4" "length b = 2" "length c = 2" "length d = 2" "length e = 2" "length f = 2"
    and "s = a @ ''-'' @ b @ ''-'' @ c @ ''T'' @ d @ '':'' @ e @ '':'' @ f @ r"
  shows "take 4 (drop 0 s) = a" "take 2 (drop 5 s) = b" "take 2 (drop 8 s) = c" "take 2 (drop 11 s) = d"
    "take 2 (drop 14 s) = e" "take 2 (drop 17 s) = f" "drop 19 s = r"
    "s ! 4 = CHR ''-''" "s ! 7 = CHR ''-''" "s ! 10 = CHR ''T''" "s ! 13 = CHR '':''" "s ! 16 = CHR '':''"
  unfolding assms(7) using assms(1-6) by (simp_all add: nth_append)

lemma num_at_pad: "take n (drop i s) = pad n k \<Longrightarrow> 0 \<le> k \<Longrightarrow> k < 10 ^ n \<Longrightarrow> 0 < n \<Longrightarrow> num_at i n s = Some k"
  using pad_digits [of k n] by (simp add: num_at_def)

text \<open>The decoder reads the instant that was written.\<close>

theorem time_reads_back:
  assumes "json_time t = Some s"
  shows "read_time s = Some t"
proof -
  let ?secs = "t div Second"
  let ?days = "?secs div 86400" and ?s = "?secs mod 86400"
  obtain y yday where y: "civil_year ?days = (y, yday)" by (metis prod.collapse)
  obtain m d where md: "month_day (month_lengths y) 1 yday = (m, d)" by (metis prod.collapse)
  note c = civil_date [OF y md]
  have yr: "0 \<le> y" "y \<le> 9999" using assms y by (auto simp: json_time_def Let_def split: if_splits)
  have "month_lengths y ! nat (m - 1) \<le> 31"
  proof -
    have "list_all (\<lambda>n. n \<le> 31) (month_lengths y)" "nat (m - 1) < length (month_lengths y)"
      using c(2,3) by (simp_all add: month_lengths_def)
    then show ?thesis by (simp add: list_all_length)
  qed
  with c have rng: "0 \<le> m" "m < 100" "0 \<le> d" "d < 100" by auto
  have hm: "0 \<le> ?s div 3600" "?s div 3600 < 24" "0 \<le> ?s div 60 mod 60" "?s div 60 mod 60 < 60" "0 \<le> ?s mod 60" "?s mod 60 < 60"
    by (auto simp: div_less_iff_less_mult pos_imp_zdiv_nonneg_iff)
  have st: "s = pad 4 y @ ''-'' @ pad 2 m @ ''-'' @ pad 2 d @ ''T'' @ pad 2 (?s div 3600) @ '':''
      @ pad 2 (?s div 60 mod 60) @ '':'' @ pad 2 (?s mod 60) @ fraction (t mod Second) @ ''Z''"
    using assms y md yr by (auto simp: json_time_def format_RFC3339_def Let_def butlast_append split: if_splits)
  define fr where "fr = fraction (t mod Second) @ ''Z''"
  define hh where "hh = ?s div 3600"
  define mi where "mi = ?s div 60 mod 60"
  define sec where "sec = ?s mod 60"
  note st = st [folded fr_def hh_def mi_def sec_def]
  note hm = hm [folded hh_def mi_def sec_def]
  have b: "hh < 100" "mi < 100" "sec < 100" using hm by linarith+
  have l: "length (pad 4 y) = 4" "length (pad 2 m) = 2" "length (pad 2 d) = 2" "length (pad 2 hh) = 2"
    "length (pad 2 mi) = 2" "length (pad 2 sec) = 2"
    by (rule pad_digits(1); use yr rng hm b in simp)+
  note fs = date_fields [OF l st]
  have n: "num_at 0 4 s = Some y" "num_at 5 2 s = Some m" "num_at 8 2 s = Some d" "num_at 11 2 s = Some hh"
    "num_at 14 2 s = Some mi" "num_at 17 2 s = Some sec"
    by (rule num_at_pad [OF fs(1)] num_at_pad [OF fs(2)] num_at_pad [OF fs(3)] num_at_pad [OF fs(4)] num_at_pad [OF fs(5)]
        num_at_pad [OF fs(6)]; use yr rng hm b in simp)+
  have f: "read_fraction fr = Some (t mod Second, ''Z'')" unfolding fr_def by (rule read_fraction_back) simp_all
  have "days_of y m d * 86400 + hh * 3600 + mi * 60 + sec = ?secs"
    unfolding hh_def mi_def sec_def
  proof -
    have "?s div 3600 = ?s div 60 div 60" by (simp only: zdiv_zmult2_eq [of 60 ?s 60, simplified])
    moreover have "?s div 60 div 60 * 60 + ?s div 60 mod 60 = ?s div 60" by (rule div_mult_mod_eq)
    moreover have "?s div 60 * 60 + ?s mod 60 = ?s" by (rule div_mult_mod_eq)
    moreover have "?days * 86400 + ?s = ?secs" by (rule div_mult_mod_eq)
    ultimately show "days_of y m d * 86400 + ?s div 3600 * 3600 + ?s div 60 mod 60 * 60 + ?s mod 60 = ?secs"
      unfolding c(1) by linarith
  qed
  moreover have "?secs * Second + t mod Second = t" by (rule div_mult_mod_eq)
  ultimately have v: "(days_of y m d * 86400 + hh * 3600 + mi * 60 + sec - 0) * Second + t mod Second = t" by simp
  have z: "read_zone ''Z'' = Some 0" by (simp add: read_zone_def)
  have "s ! 4 = CHR ''-'' \<and> s ! 7 = CHR ''-'' \<and> s ! 10 = CHR ''T'' \<and> s ! 13 = CHR '':'' \<and> s ! 16 = CHR '':''
      \<and> 1 \<le> m \<and> m \<le> 12 \<and> 1 \<le> d \<and> d \<le> month_lengths y ! nat (m - 1) \<and> hh < 24 \<and> mi < 60 \<and> sec < 60"
    using fs(8-12) c(2-5) hm by simp
  then show ?thesis unfolding read_time_def n fs(7) f prod.case option.case by (simp only: simp_thms if_True bind.simps prod.case z option.map v)
qed

end
