(* ===== verification/Wire.thy ===== *)
theory Wire
  imports Timestamp
begin

text \<open>
  encoding/json on the types of the program: the documents of models.go and transport.go by their
  struct tags, the values of type \<open>any\<close>, and the decoders of what is read back. \<open>with_json\<close> puts them
  into an environment in place of its answers about JSON. Left open are the texts of the errors and, as
  \<open>other\<close>, the text of the values the program never builds itself (float32, bytes, raw messages, other types).
\<close>

section \<open>Encoding values\<close>

definition float_doc :: "f64 \<Rightarrow> json option" where
  "float_doc x = (case x of Fin r \<Rightarrow> Some (JsNum (json_float r)) | _ \<Rightarrow> None)"

definition time_doc :: "gotime \<Rightarrow> json option" where
  "time_doc t = map_option JsStr (json_time t)"

definition int_doc :: "int \<Rightarrow> json" where
  "int_doc i = JsNum (Itoa i)"

definition string_map_doc :: "(gostring \<times> gostring) list \<Rightarrow> json" where
  "string_map_doc m = JsObj (map (\<lambda>(k, s). (k, JsStr s)) (sort_key fst m))"

function value_doc :: "(goval \<Rightarrow> gostring option) \<Rightarrow> goval \<Rightarrow> json option" where
  "value_doc other v = (case v of
     GNil \<Rightarrow> Some JsNull
   | GBool b \<Rightarrow> Some (JsBool b)
   | GInt i \<Rightarrow> Some (int_doc i)
   | GUint n \<Rightarrow> Some (JsNum (show_nat n))
   | GFloat64 x \<Rightarrow> float_doc x
   | GString s \<Rightarrow> Some (JsStr s)
   | GTime t \<Rightarrow> time_doc t
   | GDuration d \<Rightarrow> Some (int_doc d)
   | GNumber s \<Rightarrow> if s = [] then Some (JsNum ''0'') else if valid_number s then Some (JsNum s) else None
   | GSlice vs \<Rightarrow> map_option JsArr (those (map (\<lambda>v. value_doc other v) vs))
   | GMap m \<Rightarrow> map_option JsObj
       (those (map (\<lambda>(k, v). map_option (Pair k) (value_doc other v)) (sort_key fst m)))
   | GStrSlice ss \<Rightarrow> Some (JsArr (map JsStr ss))
   | GStrMap m \<Rightarrow> Some (string_map_doc m)
   | _ \<Rightarrow> Option.bind (other v) read_json)"
  by pat_completeness auto
termination
  by (relation "measure (\<lambda>(other, v). size v)")
     (auto simp: less_Suc_eq_le intro: size_list_estimation' dest: size_map_entry)

declare value_doc.simps [simp del]

section \<open>Encoding structs\<close>

text \<open>A struct is the members of its fields in order; a field tagged \<open>omitempty\<close> has none when it is empty.\<close>

type_synonym members = "(gostring \<times> json) list"

definition object :: "members option list \<Rightarrow> json option" where
  "object parts = map_option (\<lambda>ms. JsObj (concat ms)) (those parts)"

definition always :: "gostring \<Rightarrow> json option \<Rightarrow> members option" where
  "always name d = map_option (\<lambda>j. [(name, j)]) d"

definition omitempty :: "gostring \<Rightarrow> ('a \<Rightarrow> json option) \<Rightarrow> 'a option \<Rightarrow> members option" where
  "omitempty name f x = (case x of None \<Rightarrow> Some [] | Some a \<Rightarrow> always name (f a))"

definition nonempty :: "'a list \<Rightarrow> 'a list option" where
  "nonempty xs = (if xs = [] then None else Some xs)"

abbreviation text_field :: "gostring \<Rightarrow> gostring \<Rightarrow> members option" where
  "text_field name s \<equiv> omitempty name (\<lambda>x. Some (JsStr x)) (nonempty s)"

abbreviation array_of :: "('a \<Rightarrow> json option) \<Rightarrow> 'a list \<Rightarrow> json option" where
  "array_of f xs \<equiv> map_option JsArr (those (map f xs))"

definition event_doc :: "(goval \<Rightarrow> gostring option) \<Rightarrow> SecurityEvent \<Rightarrow> json option" where
  "event_doc other ev = object
    [always ''timestamp'' (time_doc (ev_Timestamp ev)),
     always ''event_type'' (Some (JsStr (ev_EventType ev))),
     text_field ''idempotency_key'' (ev_IdempotencyKey ev),
     text_field ''ip_address'' (ev_IPAddress ev),
     text_field ''country'' (ev_Country ev),
     text_field ''user_agent'' (ev_UserAgent ev),
     text_field ''action_taken'' (ev_ActionTaken ev),
     text_field ''reason'' (ev_Reason ev),
     text_field ''endpoint'' (ev_Endpoint ev),
     text_field ''method'' (ev_Method ev),
     omitempty ''status_code'' (\<lambda>i. Some (int_doc i)) (ev_StatusCode ev),
     omitempty ''response_time'' float_doc (ev_ResponseTime ev),
     text_field ''decorator_type'' (ev_DecoratorType ev),
     text_field ''rule_type'' (ev_RuleType ev),
     text_field ''pattern_matched'' (ev_PatternMatched ev),
     text_field ''handler_name'' (ev_HandlerName ev),
     omitempty ''metadata'' (\<lambda>m. value_doc other (GMap m)) (Option.bind (ev_Metadata ev) nonempty)]"

definition metric_doc :: "SecurityMetric \<Rightarrow> json option" where
  "metric_doc m = object
    [always ''timestamp'' (time_doc (m_Timestamp m)),
     always ''metric_type'' (Some (JsStr (m_MetricType m))),
     always ''value'' (float_doc (m_Value m)),
     text_field ''endpoint'' (m_Endpoint m),
     omitempty ''tags'' (\<lambda>t. Some (string_map_doc t)) (Option.bind (m_Tags m) nonempty)]"

definition batch_doc :: "(goval \<Rightarrow> gostring option) \<Rightarrow> eventBatch \<Rightarrow> json option" where
  "batch_doc other b = object
    [always ''project_id'' (Some (JsStr (b_ProjectID b))),
     omitempty ''events'' (array_of (event_doc other)) (nonempty (b_Events b)),
     omitempty ''metrics'' (array_of metric_doc) (nonempty (b_Metrics b)),
     always ''batch_id'' (Some (JsStr (b_BatchID b))),
     always ''created_at'' (time_doc (b_CreatedAt b)),
     always ''compressed'' (Some (JsBool (b_Compressed b))),
     always ''agent_version'' (Some (JsStr (b_AgentVersion b))),
     text_field ''guard_version'' (b_GuardVersion b),
     text_field ''guard_core_version'' (b_GuardCoreVersion b)]"

definition status_doc :: "agentStatusPayload \<Rightarrow> json option" where
  "status_doc p = object
    [always ''timestamp'' (time_doc (s_Timestamp p)),
     always ''status'' (Some (JsStr (s_Status p))),
     always ''uptime'' (float_doc (s_Uptime p)),
     always ''events_sent'' (Some (int_doc (sint (s_EventsSent p)))),
     always ''events_failed'' (Some (int_doc (sint (s_EventsFailed p)))),
     always ''buffer_size'' (Some (int_doc (s_BufferSize p))),
     omitempty ''last_flush'' time_doc (s_LastFlush p),
     omitempty ''errors'' (array_of (\<lambda>s. Some (JsStr s))) (nonempty (s_Errors p))]"

definition envelope_doc :: "encryptedEnvelope \<Rightarrow> json option" where
  "envelope_doc e = object
    [always ''encrypted_payload'' (Some (JsStr (e_EncryptedPayload e))),
     always ''batch_id'' (Some (JsStr (e_BatchID e))),
     always ''agent_version'' (Some (JsStr (e_AgentVersion e))),
     text_field ''guard_version'' (e_GuardVersion e),
     text_field ''guard_core_version'' (e_GuardCoreVersion e)]"

definition marshal_doc :: "(goval \<Rightarrow> gostring option) \<Rightarrow> json_arg \<Rightarrow> json option" where
  "marshal_doc other x = (case x of
     JBatch b \<Rightarrow> batch_doc other b
   | JStatus p \<Rightarrow> status_doc p
   | JEnvelope e \<Rightarrow> envelope_doc e
   | JEvents evs \<Rightarrow> array_of (event_doc other) evs
   | JMetrics ms \<Rightarrow> array_of metric_doc ms
   | JEvent ev \<Rightarrow> event_doc other ev
   | JMetric m \<Rightarrow> metric_doc m
   | JAny v \<Rightarrow> value_doc other v)"

section \<open>Decoding values\<close>

text \<open>A Go map that is built by the decoder is listed in the order of its keys; a key that comes again
  replaces the earlier entry.\<close>

fun map_put :: "gostring \<times> 'a \<Rightarrow> (gostring \<times> 'a) list \<Rightarrow> (gostring \<times> 'a) list" where
  "map_put e [] = [e]"
| "map_put e (x # m) = (if fst e < fst x then e # x # m else if fst e = fst x then e # m else x # map_put e m)"

abbreviation map_puts :: "(gostring \<times> 'a) list \<Rightarrow> (gostring \<times> 'a) list \<Rightarrow> (gostring \<times> 'a) list" where
  "map_puts es m \<equiv> foldl (\<lambda>m e. map_put e m) m es"

text \<open>Into \<open>any\<close>: a number is a float64, or keeps its text (\<open>num\<close> tells which).\<close>

function any_of :: "(gostring \<Rightarrow> goval option) \<Rightarrow> json \<Rightarrow> goval option" where
  "any_of num j = (case j of
     JsNull \<Rightarrow> Some GNil
   | JsBool b \<Rightarrow> Some (GBool b)
   | JsNum t \<Rightarrow> num t
   | JsStr s \<Rightarrow> Some (GString s)
   | JsArr xs \<Rightarrow> map_option GSlice (those (map (\<lambda>x. any_of num x) xs))
   | JsObj ms \<Rightarrow> map_option (\<lambda>es. GMap (map_puts es []))
       (those (map (\<lambda>(k, x). map_option (Pair k) (any_of num x)) ms)))"
  by pat_completeness auto

lemma size_member: "(k, x) \<in> set ms \<Longrightarrow> size x < Suc (size_list (size_prod (\<lambda>x. 0) size) ms)"
  by (induction ms) auto

termination any_of
  by (relation "measure (\<lambda>(num, j). size j)")
     (auto simp: less_Suc_eq_le intro: size_list_estimation' dest: size_member)

declare any_of.simps [simp del]

definition float_number :: "gostring \<Rightarrow> goval option" where
  "float_number t = map_option GFloat64 (ParseFloat t)"

definition text_number :: "gostring \<Rightarrow> goval option" where
  "text_number t = Some (GNumber t)"

text \<open>The decoders of the field types: None is a value of another type, or out of range.\<close>

definition str_of :: "json \<Rightarrow> gostring option" where
  "str_of j = (case j of JsStr s \<Rightarrow> Some s | _ \<Rightarrow> None)"

definition bool_of :: "json \<Rightarrow> bool option" where
  "bool_of j = (case j of JsBool b \<Rightarrow> Some b | _ \<Rightarrow> None)"

definition int_of :: "json \<Rightarrow> int option" where
  "int_of j = (case j of JsNum t \<Rightarrow> Atoi t | _ \<Rightarrow> None)"

definition float_of :: "json \<Rightarrow> f64 option" where
  "float_of j = (case j of JsNum t \<Rightarrow> ParseFloat t | _ \<Rightarrow> None)"

definition time_of :: "json \<Rightarrow> gotime option" where
  "time_of j = (case j of JsStr s \<Rightarrow> read_time s | _ \<Rightarrow> None)"

text \<open>Inside an array or a map, null stands for the zero value.\<close>

definition or_zero :: "'a \<Rightarrow> (json \<Rightarrow> 'a option) \<Rightarrow> json \<Rightarrow> 'a option" where
  "or_zero z f j = (case j of JsNull \<Rightarrow> Some z | _ \<Rightarrow> f j)"

definition list_of :: "(json \<Rightarrow> 'a option) \<Rightarrow> json \<Rightarrow> 'a list option" where
  "list_of f j = (case j of JsArr xs \<Rightarrow> those (map f xs) | _ \<Rightarrow> None)"

definition entries_of :: "(json \<Rightarrow> 'a option) \<Rightarrow> json \<Rightarrow> (gostring \<times> 'a) list option" where
  "entries_of f j = (case j of JsObj ms \<Rightarrow> those (map (\<lambda>(k, x). map_option (Pair k) (f x)) ms) | _ \<Rightarrow> None)"

text \<open>A \<open>[2]int\<close>: more elements are dropped, missing ones are zero.\<close>

definition pair_of :: "json \<Rightarrow> (int \<times> int) option" where
  "pair_of j = (case j of
     JsArr xs \<Rightarrow> map_option (\<lambda>is. let z = is @ [0, 0] in (z ! 0, z ! 1)) (those (map (or_zero 0 int_of) (take 2 xs)))
   | _ \<Rightarrow> None)"

section \<open>Decoding structs\<close>

text \<open>A member goes to the field of its name, in any case (with the two letters outside ASCII that fold
  into it); members without a field are ignored, and of two members for one field the later one counts.
  A null leaves a value as it is, and makes a pointer, a slice or a map nil.\<close>

definition fold_rune :: "nat \<Rightarrow> nat" where
  "fold_rune r = (if 97 \<le> r \<and> r \<le> 122 then r - 32 else if r = 8490 then 75 else if r = 383 then 83 else r)"

definition fold_name :: "gostring \<Rightarrow> nat list" where
  "fold_name s = map fold_rune (runes s)"

type_synonym 'r setter = "json \<Rightarrow> 'r \<Rightarrow> 'r option"

definition pick :: "(gostring \<times> 'r setter) list \<Rightarrow> gostring \<Rightarrow> 'r setter" where
  "pick fs k j r = (case map_of (map (map_prod fold_name id) fs) (fold_name k) of None \<Rightarrow> Some r | Some f \<Rightarrow> f j r)"

fun set_members :: "(gostring \<Rightarrow> 'r setter) \<Rightarrow> members \<Rightarrow> 'r \<Rightarrow> 'r option" where
  "set_members p [] r = Some r"
| "set_members p ((k, j) # ms) r = Option.bind (p k j r) (set_members p ms)"

definition decode_struct :: "(gostring \<times> 'r setter) list \<Rightarrow> 'r \<Rightarrow> json \<Rightarrow> 'r option" where
  "decode_struct fs zero j = (case j of
     JsNull \<Rightarrow> Some zero | JsObj ms \<Rightarrow> set_members (pick fs) ms zero | _ \<Rightarrow> None)"

definition value_into :: "(('a \<Rightarrow> 'a) \<Rightarrow> 'r \<Rightarrow> 'r) \<Rightarrow> (json \<Rightarrow> 'a option) \<Rightarrow> 'r setter" where
  "value_into upd f j r = (if j = JsNull then Some r else map_option (\<lambda>x. upd (\<lambda>_. x) r) (f j))"

definition pointer_into :: "(('a option \<Rightarrow> 'a option) \<Rightarrow> 'r \<Rightarrow> 'r) \<Rightarrow> (json \<Rightarrow> 'a option) \<Rightarrow> 'r setter" where
  "pointer_into upd f j r = (if j = JsNull then Some (upd (\<lambda>_. None) r) else map_option (\<lambda>x. upd (\<lambda>_. Some x) r) (f j))"

definition map_into :: "(((gostring \<times> 'a) list option \<Rightarrow> (gostring \<times> 'a) list option) \<Rightarrow> 'r \<Rightarrow> 'r)
    \<Rightarrow> (json \<Rightarrow> 'a option) \<Rightarrow> 'r setter" where
  "map_into upd f j r = (if j = JsNull then Some (upd (\<lambda>_. None) r)
     else map_option (\<lambda>es. upd (\<lambda>m. Some (map_puts es (case m of None \<Rightarrow> [] | Some m0 \<Rightarrow> m0))) r) (entries_of f j))"

definition zero_event :: SecurityEvent where
  "zero_event = \<lparr>ev_Timestamp = 0, ev_EventType = [], ev_IdempotencyKey = [], ev_IPAddress = [],
     ev_Country = [], ev_UserAgent = [], ev_ActionTaken = [], ev_Reason = [], ev_Endpoint = [],
     ev_Method = [], ev_StatusCode = None, ev_ResponseTime = None, ev_DecoratorType = [],
     ev_RuleType = [], ev_PatternMatched = [], ev_HandlerName = [], ev_Metadata = None\<rparr>"

definition event_fields :: "(gostring \<times> SecurityEvent setter) list" where
  "event_fields =
    [(''timestamp'', value_into ev_Timestamp_update time_of),
     (''event_type'', value_into ev_EventType_update str_of),
     (''idempotency_key'', value_into ev_IdempotencyKey_update str_of),
     (''ip_address'', value_into ev_IPAddress_update str_of),
     (''country'', value_into ev_Country_update str_of),
     (''user_agent'', value_into ev_UserAgent_update str_of),
     (''action_taken'', value_into ev_ActionTaken_update str_of),
     (''reason'', value_into ev_Reason_update str_of),
     (''endpoint'', value_into ev_Endpoint_update str_of),
     (''method'', value_into ev_Method_update str_of),
     (''status_code'', pointer_into ev_StatusCode_update int_of),
     (''response_time'', pointer_into ev_ResponseTime_update float_of),
     (''decorator_type'', value_into ev_DecoratorType_update str_of),
     (''rule_type'', value_into ev_RuleType_update str_of),
     (''pattern_matched'', value_into ev_PatternMatched_update str_of),
     (''handler_name'', value_into ev_HandlerName_update str_of),
     (''metadata'', map_into ev_Metadata_update (any_of float_number))]"

definition zero_metric :: SecurityMetric where
  "zero_metric = \<lparr>m_Timestamp = 0, m_MetricType = [], m_Value = Fin 0, m_Endpoint = [], m_Tags = None\<rparr>"

definition metric_fields :: "(gostring \<times> SecurityMetric setter) list" where
  "metric_fields =
    [(''timestamp'', value_into m_Timestamp_update time_of),
     (''metric_type'', value_into m_MetricType_update str_of),
     (''value'', value_into m_Value_update float_of),
     (''endpoint'', value_into m_Endpoint_update str_of),
     (''tags'', map_into m_Tags_update (or_zero [] str_of))]"

definition response_fields :: "(gostring \<times> batchResponse setter) list" where
  "response_fields =
    [(''success'', value_into r_Success_update bool_of),
     (''errors'', \<lambda>j r. if j = JsNull then Some (r\<lparr>r_Errors := []\<rparr>)
        else value_into r_Errors_update (list_of (or_zero [] str_of)) j r)]"

definition zero_rules :: dynamicRulesWire where
  "zero_rules = \<lparr>w_RuleID = None, w_Version = None, w_Timestamp = None, w_ExpiresAt = None, w_TTL = None,
     w_IPBlacklist = None, w_IPWhitelist = None, w_IPBanDuration = None, w_BlockedCountries = None,
     w_WhitelistCountries = None, w_GlobalRateLimit = None, w_GlobalRateWindow = None,
     w_EndpointRateLimits = None, w_BlockedCloudProviders = None, w_BlockedUserAgents = None,
     w_SuspiciousPatterns = None, w_EnablePenetrationDetection = None, w_EnableIPBanning = None,
     w_EnableRateLimiting = None, w_AutoBanThreshold = None, w_AutoBanDuration = None,
     w_EnableRateLimitAutoBan = None, w_EmergencyMode = False, w_EmergencyWhitelist = None,
     w_EmergencyWhitelistOnly = False, w_Message = None\<rparr>"

abbreviation texts_of :: "json \<Rightarrow> gostring list option" where
  "texts_of \<equiv> list_of (or_zero [] str_of)"

definition rules_fields :: "(gostring \<times> dynamicRulesWire setter) list" where
  "rules_fields =
    [(''rule_id'', pointer_into w_RuleID_update str_of),
     (''version'', pointer_into w_Version_update int_of),
     (''timestamp'', pointer_into w_Timestamp_update time_of),
     (''expires_at'', pointer_into w_ExpiresAt_update time_of),
     (''ttl'', pointer_into w_TTL_update int_of),
     (''ip_blacklist'', pointer_into w_IPBlacklist_update texts_of),
     (''ip_whitelist'', pointer_into w_IPWhitelist_update texts_of),
     (''ip_ban_duration'', pointer_into w_IPBanDuration_update int_of),
     (''blocked_countries'', pointer_into w_BlockedCountries_update texts_of),
     (''whitelist_countries'', pointer_into w_WhitelistCountries_update texts_of),
     (''global_rate_limit'', pointer_into w_GlobalRateLimit_update int_of),
     (''global_rate_window'', pointer_into w_GlobalRateWindow_update int_of),
     (''endpoint_rate_limits'', map_into w_EndpointRateLimits_update (or_zero (0, 0) pair_of)),
     (''blocked_cloud_providers'', pointer_into w_BlockedCloudProviders_update texts_of),
     (''blocked_user_agents'', pointer_into w_BlockedUserAgents_update texts_of),
     (''suspicious_patterns'', pointer_into w_SuspiciousPatterns_update texts_of),
     (''enable_penetration_detection'', pointer_into w_EnablePenetrationDetection_update bool_of),
     (''enable_ip_banning'', pointer_into w_EnableIPBanning_update bool_of),
     (''enable_rate_limiting'', pointer_into w_EnableRateLimiting_update bool_of),
     (''auto_ban_threshold'', pointer_into w_AutoBanThreshold_update int_of),
     (''auto_ban_duration'', pointer_into w_AutoBanDuration_update int_of),
     (''enable_rate_limit_auto_ban'', pointer_into w_EnableRateLimitAutoBan_update bool_of),
     (''emergency_mode'', value_into w_EmergencyMode_update bool_of),
     (''emergency_whitelist'', pointer_into w_EmergencyWhitelist_update texts_of),
     (''emergency_whitelist_only'', value_into w_EmergencyWhitelistOnly_update bool_of),
     (''message'', pointer_into w_Message_update str_of)]"

section \<open>An environment with encoding/json\<close>

definition Marshal :: "(goval \<Rightarrow> gostring option) \<Rightarrow> json_arg \<Rightarrow> gostring option" where
  "Marshal other x = map_option (write_json go_string) (marshal_doc other x)"

definition Unmarshal :: "(json \<Rightarrow> 'a option) \<Rightarrow> gostring \<Rightarrow> 'a option" where
  "Unmarshal f s = Option.bind (read_json s) f"

text \<open>\<open>decodeGenericJSON\<close>: one document with \<open>UseNumber\<close>, whatever follows it.\<close>

abbreviation decode_generic :: "gostring \<Rightarrow> goval option" where
  "decode_generic s \<equiv> Option.bind (decode_first s) (any_of text_number)"

text \<open>The texts of the errors come as arguments.\<close>

definition or_err :: "gostring \<Rightarrow> 'a option \<Rightarrow> gostring + 'a" where
  "or_err e x = (case x of None \<Rightarrow> Inl e | Some a \<Rightarrow> Inr a)"

definition with_json :: "(json_arg \<Rightarrow> gostring) \<Rightarrow> (gostring \<Rightarrow> gostring) \<Rightarrow> env \<Rightarrow> env" where
  "with_json wr rd E = E\<lparr>
     jsonMarshal := (\<lambda>x. or_err (wr x) (Marshal (marshal_any E) x)),
     unmarshal_batchResponse := (\<lambda>s. or_err (rd s)
       (Unmarshal (decode_struct response_fields \<lparr>r_Success = False, r_Errors = []\<rparr>) s)),
     unmarshal_rules := (\<lambda>s. or_err (rd s) (Unmarshal (decode_struct rules_fields zero_rules) s)),
     unmarshal_event := (\<lambda>s. or_err (rd s) (Unmarshal (decode_struct event_fields zero_event) s)),
     unmarshal_metric := (\<lambda>s. or_err (rd s) (Unmarshal (decode_struct metric_fields zero_metric) s)),
     decodeGenericJSON := (\<lambda>s. or_err (rd s) (decode_generic s)),
     unmarshal_any := Unmarshal (any_of float_number),
     marshal_any := (\<lambda>v. Marshal (marshal_any E) (JAny v))\<rparr>"

end
