(* ===== verification/Roundtrip.thy ===== *)
theory Roundtrip
  imports Wire
begin

text \<open>
  What \<open>json.Marshal\<close> writes of an event or a metric, \<open>json.Unmarshal\<close> reads back unchanged, for every
  record that JSON can hold (\<open>storable\<close>): the record of a buffered item survives its stay in Redis.
\<close>

section \<open>Integers as numbers\<close>

lemma f64_of_int_finite:
  assumes "\<bar>i\<bar> < 18446744073709551616"
  obtains x where "f64_of_int i = Fin x"
proof (cases "i = 0")
  case False
  have pos: "\<exists>x. rnd64 r = Fin x" if "0 < r" "r \<le> 18446744073709551616" for r :: rat
  proof -
    have c: "representable 18446744073709551616" by (rule representableI [of _ 1 64]) (simp_all add: power_int_def)
    have "(18446744073709551616::rat) = 2 ^ 64" by simp
    also have "\<dots> < 2 ^ 1024" by (rule power_strict_increasing) simp_all
    finally have "rnd64 r \<le> Fin 18446744073709551616" using rnd64_le [OF c that] by blast
    with rnd64_nonneg [OF that(1)] show ?thesis
      by (cases "rnd64 r") (auto simp: less_eq_f64_def less_f64_def f64_eq_def)
  qed
  have "(of_int \<bar>i\<bar> :: rat) \<le> 18446744073709551616" using assms by linarith
  with False pos [of "of_int \<bar>i\<bar>"] obtain x where "rnd64 (of_int \<bar>i\<bar>) = Fin x" by auto
  with that show thesis unfolding f64_of_int_def using rnd64_minus [of "of_int \<bar>i\<bar>" x] by (cases "i < 0") auto
qed (use that in \<open>simp add: f64_of_int_def rnd64_def\<close>)

lemma ParseFloat_show_nat:
  assumes "rnd64 (of_nat n) = Fin x"
  shows "ParseFloat (show_nat n) = Some (Fin x)" and "ParseFloat (CHR ''-'' # show_nat n) = Some (Fin (- x))"
proof -
  have d: "show_nat n \<noteq> []" "list_all is_digit (show_nat n)" "is_digit (hd (show_nat n))"
    using show_nat_digits hd_show_nat by blast+
  have "decimal_text (show_nat n) [] None = show_nat n" by (simp add: decimal_text_def)
  with parse_decimal [OF d(2,1), of "[]" None] have p: "parse_number (show_nat n) = Some (of_nat n)" by simp
  note f = parse_special_digit [OF d(1,3)] parse_number_minus [OF d(1,3)] p
  show "ParseFloat (show_nat n) = Some (Fin x)" "ParseFloat (CHR ''-'' # show_nat n) = Some (Fin (- x))"
    using assms rnd64_minus [OF assms] by (simp_all add: ParseFloat_def f)
qed

lemma ParseFloat_Itoa:
  assumes "\<bar>i\<bar> < 18446744073709551616"
  shows "ParseFloat (Itoa i) = Some (f64_of_int i)"
proof -
  obtain x where x: "f64_of_int \<bar>i\<bar> = Fin x" using f64_of_int_finite [of "\<bar>i\<bar>"] assms by auto
  then have n: "rnd64 (of_nat (nat \<bar>i\<bar>)) = Fin x" by (simp add: f64_of_int_def)
  show ?thesis
  proof (cases "i < 0")
    case True
    with x have "f64_of_int i = Fin (- x)" using rnd64_minus [of "of_int \<bar>i\<bar>" x] by (simp add: f64_of_int_def)
    with True ParseFloat_show_nat(2) [OF n] show ?thesis by (simp add: Itoa_def)
  next
    case False
    with x ParseFloat_show_nat(1) [OF n] show ?thesis by (simp add: Itoa_def)
  qed
qed

section \<open>Documents that no text changes\<close>

text \<open>Texts of valid UTF-8, and numbers in the range of a float64.\<close>

abbreviation sound :: "json \<Rightarrow> bool" where
  "sound \<equiv> pred_document valid_utf8 (\<lambda>t. valid_number t \<and> ParseFloat t \<noteq> None)"

lemma sound_ok: "sound j \<Longrightarrow> json_ok j"
  by (erule document.pred_mono_strong) simp_all

lemma sound_clean: "sound j \<Longrightarrow> clean_json j = j"
  unfolding document.pred_set by (rule document.map_ident_strong) (auto simp: valid_utf8_def)

lemma read_marshal: "sound j \<Longrightarrow> read_json (write_json go_string j) = Some j"
  using go_writer.read_written(1) [OF sound_ok] sound_clean by simp

lemma Unmarshal_Marshal: "marshal_doc E x = Some j \<Longrightarrow> sound j \<Longrightarrow> Marshal E x = Some s \<Longrightarrow> Unmarshal f s = f j"
  by (auto simp: Marshal_def Unmarshal_def read_marshal)

lemma those_map: "(\<And>x. x \<in> set xs \<Longrightarrow> f x = Some (g x)) \<Longrightarrow> those (map f xs) = Some (map g xs)"
  by (induction xs) simp_all

section \<open>Values\<close>

text \<open>Maps in the order of their keys.\<close>

abbreviation ordered :: "(gostring \<times> 'a) list \<Rightarrow> bool" where
  "ordered m \<equiv> sorted_wrt (<) (map fst m)"

lemma map_put_last: "(\<And>x. x \<in> set m \<Longrightarrow> fst x < fst e) \<Longrightarrow> map_put e m = m @ [e]"
proof (induction m)
  case (Cons x m)
  from Cons.prems [of x] have "fst x < fst e" by simp
  moreover have "\<not> fst e < fst x" "fst e \<noteq> fst x" using \<open>fst x < fst e\<close> by (auto dest: less_not_sym)
  ultimately show ?case using Cons by simp
qed simp

lemma map_puts_append: "ordered (m @ es) \<Longrightarrow> map_puts es m = m @ es"
  by (induction es arbitrary: m) (auto simp: map_put_last sorted_wrt_append)

lemma map_puts_ordered: "ordered es \<Longrightarrow> map_puts es [] = es"
  using map_puts_append [of "[]" es] by simp

lemma sort_ordered: "ordered m \<Longrightarrow> sort_key fst m = m"
  by (intro sort_key_id_if_sorted) (simp add: strict_sorted_imp_sorted)

text \<open>The values that come out of a JSON decoder: floats for numbers, strings of valid UTF-8.\<close>

fun native :: "goval \<Rightarrow> bool" where
  "native GNil = True"
| "native (GBool b) = True"
| "native (GFloat64 x) = (case x of Fin r \<Rightarrow> float64 r | _ \<Rightarrow> False)"
| "native (GString s) = valid_utf8 s"
| "native (GSlice vs) = list_all native vs"
| "native (GMap m) = (ordered m \<and> list_all (\<lambda>e. valid_utf8 (fst e) \<and> native (snd e)) m)"
| "native _ = False"

lemma float_back: "float64 r \<Longrightarrow> float_doc (Fin r) = Some (JsNum (json_float r)) \<and> sound (JsNum (json_float r))
    \<and> float_of (JsNum (json_float r)) = Some (Fin r)"
  using json_float_reads_back [of r] by (simp add: float_doc_def float_of_def)

lemma map_doc_back:
  assumes "ordered m"
    and "\<And>k v. (k, v) \<in> set m \<Longrightarrow> valid_utf8 k \<and> (\<exists>j. value_doc E v = Some j \<and> sound j \<and> any_of float_number j = Some v)"
  shows "\<exists>j. value_doc E (GMap m) = Some j \<and> sound j \<and> j \<noteq> JsNull \<and> entries_of (any_of float_number) j = Some m
    \<and> any_of float_number j = Some (GMap m)"
proof -
  define d where "d v = the (value_doc E v)" for v
  have d: "valid_utf8 k" "value_doc E v = Some (d v)" "sound (d v)" "any_of float_number (d v) = Some v"
    if "(k, v) \<in> set m" for k v
    using assms(2) [OF that] by (auto simp: d_def)
  let ?ms = "map (\<lambda>(k, v). (k, d v)) m"
  have "those (map (\<lambda>(k, v). map_option (Pair k) (value_doc E v)) m) = Some ?ms"
    using d(2) by (intro those_map) auto
  then have "value_doc E (GMap m) = Some (JsObj ?ms)"
    by (simp add: value_doc.simps [of E "GMap m"] sort_ordered [OF assms(1)])
  moreover have e: "those (map (\<lambda>(k, x). map_option (Pair k) (any_of float_number x)) ?ms) = Some (map id m)"
    unfolding map_map using d(4) by (intro those_map) auto
  then have "any_of float_number (JsObj ?ms) = Some (GMap m)"
    by (simp only: any_of.simps [of _ "JsObj _"] document.case option.map list.map_id0 id_apply map_puts_ordered [OF assms(1)])
  moreover have "entries_of (any_of float_number) (JsObj ?ms) = Some m"
    using e by (simp only: entries_of_def document.case list.map_id0 id_apply)
  moreover have "sound (JsObj ?ms)" using d(1,3) by (auto simp: list_all_iff)
  ultimately show ?thesis by blast
qed

lemma value_back: "native v \<Longrightarrow> \<exists>j. value_doc E v = Some j \<and> sound j \<and> any_of float_number j = Some v"
proof (induction v rule: native.induct)
  case (3 x)
  then obtain r where r: "x = Fin r" "float64 r" by (cases x) auto
  from float_back [OF r(2)] show ?case
    by (intro exI [of _ "JsNum (json_float r)"])
      (simp add: r(1) value_doc.simps [of E "GFloat64 (Fin r)"] any_of.simps [of _ "JsNum _"] float_number_def float_of_def)
next
  case (5 vs)
  define d where "d v = the (value_doc E v)" for v
  have d: "value_doc E v = Some (d v)" "sound (d v)" "any_of float_number (d v) = Some v" if "v \<in> set vs" for v
    using 5(1) [OF that] 5(2) that by (auto simp: d_def list_all_iff)
  have "value_doc E (GSlice vs) = Some (JsArr (map d vs))"
    by (simp add: value_doc.simps [of E "GSlice vs"] those_map [of vs "value_doc E" d] d(1))
  moreover have "those (map (any_of float_number) (map d vs)) = Some (map id vs)"
    unfolding map_map using d(3) by (intro those_map) simp
  then have "any_of float_number (JsArr (map d vs)) = Some (GSlice vs)"
    by (simp only: any_of.simps [of _ "JsArr _"] document.case option.map list.map_id0 id_apply)
  ultimately show ?case using d(2) by (auto simp: list_all_iff)
next
  case (6 m)
  have "valid_utf8 k \<and> (\<exists>j. value_doc E v = Some j \<and> sound j \<and> any_of float_number j = Some v)" if "(k, v) \<in> set m" for k v
  proof -
    have "valid_utf8 k" "native v" using 6(2) that by (auto simp: list_all_iff)
    with 6(1) [OF that] show ?thesis by simp
  qed
  moreover have "ordered m" using 6(2) by simp
  ultimately show ?case using map_doc_back [of m E] by blast
qed (auto simp: value_doc.simps any_of.simps)

lemma any_map_back:
  assumes "native (GMap m)"
  shows "\<exists>j. value_doc E (GMap m) = Some j \<and> sound j \<and> j \<noteq> JsNull \<and> entries_of (any_of float_number) j = Some m"
proof -
  have "valid_utf8 k \<and> (\<exists>j. value_doc E v = Some j \<and> sound j \<and> any_of float_number j = Some v)" if "(k, v) \<in> set m" for k v
  proof -
    have "valid_utf8 k" "native v" using assms that by (auto simp: list_all_iff)
    with value_back [of v E] show ?thesis by blast
  qed
  moreover have "ordered m" using assms by simp
  ultimately show ?thesis using map_doc_back [of m E] by blast
qed

lemma string_map_back:
  assumes "ordered m" "list_all (\<lambda>e. valid_utf8 (fst e) \<and> valid_utf8 (snd e)) m"
  shows "sound (string_map_doc m) \<and> string_map_doc m \<noteq> JsNull \<and> entries_of (or_zero [] str_of) (string_map_doc m) = Some m"
proof -
  have "those (map (\<lambda>(k, x). map_option (Pair k) (or_zero [] str_of x)) (map (\<lambda>(k, s). (k, JsStr s)) m)) = Some (map id m)"
    unfolding map_map by (intro those_map) (auto simp: or_zero_def str_of_def)
  then have "entries_of (or_zero [] str_of) (string_map_doc m) = Some m"
    by (simp only: string_map_doc_def sort_ordered [OF assms(1)] entries_of_def document.case list.map_id0 id_apply)
  then show ?thesis using assms by (auto simp: string_map_doc_def sort_ordered list_all_iff)
qed

lemma Atoi_Itoa:
  assumes "min_int64 \<le> i" "i \<le> max_int64"
  shows "Atoi (Itoa i) = Some i"
proof (cases "i < 0")
  case True
  with assms show ?thesis using show_nat_digits [of "nat (- i)"] by (simp add: Itoa_def Atoi_def Let_def)
next
  case False
  with assms show ?thesis using Atoi_show_nat [of "nat i"] by (simp add: Itoa_def)
qed

lemma int_back:
  assumes "min_int64 \<le> i" "i \<le> max_int64"
  shows "sound (int_doc i) \<and> int_doc i \<noteq> JsNull \<and> int_of (int_doc i) = Some i"
proof -
  have "\<bar>i\<bar> < 18446744073709551616" using assms by linarith
  note p = ParseFloat_Itoa [OF this]
  show ?thesis using Atoi_Itoa [OF assms] by (simp add: int_doc_def int_of_def p valid_Itoa)
qed

section \<open>Structs\<close>

lemma set_members_append: "set_members p (xs @ ys) r = Option.bind (set_members p xs r) (set_members p ys)"
proof (induction p xs r rule: set_members.induct)
  case (2 p k j ms r)
  then show ?case by (cases "p k j r") simp_all
qed simp

text \<open>The decoder on the members of one field: it sets the field.\<close>

lemma text_part:
  assumes "pick fs name = value_into upd str_of" "upd (\<lambda>_. []) r = r"
  shows "set_members (pick fs) (the (text_field name s) @ rest) r = set_members (pick fs) rest (upd (\<lambda>_. s) r)"
  using assms by (simp add: omitempty_def nonempty_def always_def value_into_def str_of_def)

lemma value_part:
  assumes "pick fs name = value_into upd f" "d = Some j" "j \<noteq> JsNull" "f j = Some x"
  shows "set_members (pick fs) (the (always name d) @ rest) r = set_members (pick fs) rest (upd (\<lambda>_. x) r)"
  using assms by (simp add: always_def value_into_def)

lemma pointer_part:
  assumes "pick fs name = pointer_into upd f" "upd (\<lambda>_. None) r = r"
    and "\<And>x. p = Some x \<Longrightarrow> \<exists>j. g x = Some j \<and> j \<noteq> JsNull \<and> f j = Some x"
  shows "set_members (pick fs) (the (omitempty name g p) @ rest) r = set_members (pick fs) rest (upd (\<lambda>_. p) r)"
  using assms by (cases p) (auto simp: omitempty_def always_def pointer_into_def)

lemma map_part:
  assumes "pick fs name = map_into upd f" "upd (\<lambda>_. None) r = r" "p \<noteq> Some []"
    and "\<And>m. p = Some m \<Longrightarrow> \<exists>j. g m = Some j \<and> j \<noteq> JsNull \<and> entries_of f j = Some m \<and> ordered m"
    and "\<And>m. upd (\<lambda>x. Some (map_puts m (case x of None \<Rightarrow> [] | Some m0 \<Rightarrow> m0))) r = upd (\<lambda>_. Some (map_puts m [])) r"
  shows "set_members (pick fs) (the (omitempty name g (Option.bind p nonempty)) @ rest) r
    = set_members (pick fs) rest (upd (\<lambda>_. p) r)"
proof (cases p)
  case (Some m)
  with assms(3,4) obtain j where j: "m \<noteq> []" "g m = Some j" "j \<noteq> JsNull" "entries_of f j = Some m" "ordered m" by auto
  then show ?thesis using assms(1,5) Some
    by (simp add: omitempty_def always_def nonempty_def map_into_def map_puts_ordered)
qed (simp add: omitempty_def assms(2))

text \<open>The document of a struct whose parts can all be written.\<close>

abbreviation sound_part :: "members option \<Rightarrow> bool" where
  "sound_part p \<equiv> (case p of None \<Rightarrow> False | Some ms \<Rightarrow> list_all (\<lambda>e. valid_utf8 (fst e) \<and> sound (snd e)) ms)"

lemma object_parts:
  assumes "list_all sound_part ps"
  shows "object ps = Some (JsObj (concat (map the ps))) \<and> sound (JsObj (concat (map the ps)))"
proof -
  from assms have "those (map id ps) = Some (map the ps)"
    by (intro those_map) (auto simp: list_all_iff split: option.splits)
  moreover have "list_all (\<lambda>e. valid_utf8 (fst e) \<and> sound (snd e)) (concat (map the ps))"
    using assms by (induction ps) (auto split: option.splits)
  then have "sound (JsObj (concat (map the ps)))"
    by (simp add: list_all_iff pred_prod_beta)
  ultimately show ?thesis by (simp add: object_def)
qed

lemma part_sound:
  "valid_utf8 name \<Longrightarrow> d = Some j \<Longrightarrow> sound j \<Longrightarrow> sound_part (always name d)"
  "valid_utf8 name \<Longrightarrow> valid_utf8 s \<Longrightarrow> sound_part (text_field name s)"
  "valid_utf8 name \<Longrightarrow> (\<And>x. p = Some x \<Longrightarrow> \<exists>j. g x = Some j \<and> sound j) \<Longrightarrow> sound_part (omitempty name g p)"
  by (auto simp: always_def omitempty_def nonempty_def split: option.splits)

section \<open>Events and metrics\<close>

definition finite64 :: "f64 \<Rightarrow> bool" where
  "finite64 x \<longleftrightarrow> (case x of Fin r \<Rightarrow> float64 r | _ \<Rightarrow> False)"

lemma finite64_back: "finite64 x \<Longrightarrow> \<exists>j. float_doc x = Some j \<and> sound j \<and> j \<noteq> JsNull \<and> float_of j = Some x"
  using float_back by (cases x) (auto simp: finite64_def)

text \<open>What JSON can hold of an event: an instant in the years 0 to 9999, texts of valid UTF-8, numbers of
  their type, and metadata, if there are any, as a decoder would give them.\<close>

definition storable_event :: "SecurityEvent \<Rightarrow> bool" where
  "storable_event ev \<longleftrightarrow> json_time (ev_Timestamp ev) \<noteq> None
     \<and> list_all valid_utf8 [ev_EventType ev, ev_IdempotencyKey ev, ev_IPAddress ev, ev_Country ev,
         ev_UserAgent ev, ev_ActionTaken ev, ev_Reason ev, ev_Endpoint ev, ev_Method ev,
         ev_DecoratorType ev, ev_RuleType ev, ev_PatternMatched ev, ev_HandlerName ev]
     \<and> pred_option (\<lambda>i. min_int64 \<le> i \<and> i \<le> max_int64) (ev_StatusCode ev)
     \<and> pred_option finite64 (ev_ResponseTime ev)
     \<and> pred_option (\<lambda>m. m \<noteq> [] \<and> native (GMap m)) (ev_Metadata ev)"

definition storable_metric :: "SecurityMetric \<Rightarrow> bool" where
  "storable_metric m \<longleftrightarrow> json_time (m_Timestamp m) \<noteq> None \<and> valid_utf8 (m_MetricType m) \<and> finite64 (m_Value m)
     \<and> valid_utf8 (m_Endpoint m)
     \<and> pred_option (\<lambda>t. t \<noteq> [] \<and> ordered t \<and> list_all (\<lambda>e. valid_utf8 (fst e) \<and> valid_utf8 (snd e)) t) (m_Tags m)"

abbreviation ascii :: "gostring \<Rightarrow> bool" where
  "ascii \<equiv> list_all (\<lambda>c. code c < 128)"

lemma ascii_digits: "list_all is_digit s \<Longrightarrow> ascii s"
  by (auto simp: list_all_iff is_digit_def byte_in_def)

lemma ascii_pad: "ascii (pad n k)"
proof -
  have "ascii (show_nat m)" for m using show_nat_digits ascii_digits by blast
  then show ?thesis by (auto simp: pad_def Itoa_def Let_def list_all_iff)
qed

lemma ascii_TrimRight: "ascii s \<Longrightarrow> ascii (TrimRight s c)"
  using TrimRight_append [of s c] by (metis list_all_append)

lemma ascii_json_time: "json_time t = Some s \<Longrightarrow> ascii s"
proof -
  have "ascii (format_RFC3339 t)" by (simp add: format_RFC3339_def Let_def ascii_pad split: prod.split)
  then have "ascii (butlast (format_RFC3339 t))" by (auto simp: list_all_iff dest: in_set_butlastD)
  then show "json_time t = Some s \<Longrightarrow> ascii s"
    by (auto simp: json_time_def Let_def fraction_def ascii_pad ascii_TrimRight split: if_splits)
qed

lemma time_back:
  assumes "json_time t \<noteq> None"
  shows "\<exists>j. time_doc t = Some j \<and> sound j \<and> j \<noteq> JsNull \<and> time_of j = Some t"
proof -
  obtain s where s: "json_time t = Some s" using assms by auto
  have "valid_utf8 s" by (rule clean_ascii [OF ascii_json_time [OF s]])
  with s show ?thesis using time_reads_back [OF s] by (auto simp: time_doc_def time_of_def)
qed

text \<open>The names of the fields differ, in any case.\<close>

lemma pick_field: "distinct (map fold_name (map fst fs)) \<Longrightarrow> (name, f) \<in> set fs \<Longrightarrow> pick fs name = f"
proof -
  assume "distinct (map fold_name (map fst fs))" "(name, f) \<in> set fs"
  then have "map_of (map (map_prod fold_name id) fs) (fold_name name) = Some f"
    by (intro map_of_is_SomeI) (auto simp: comp_def map_prod_def case_prod_beta intro!: rev_image_eqI [of "(name, f)"])
  then show ?thesis by (simp add: pick_def fun_eq_iff)
qed

abbreviation lower_name :: "gostring \<Rightarrow> bool" where
  "lower_name \<equiv> list_all (\<lambda>c. code c = 95 \<or> 97 \<le> code c \<and> code c \<le> 122)"

lemma fold_lower: "lower_name s \<Longrightarrow> fold_name s = map (\<lambda>c. if code c = 95 then 95 else code c - 32) s"
proof -
  assume s: "lower_name s"
  then have "list_all (\<lambda>b. b < 128) (map code s)" by (auto simp: list_all_iff)
  from runes_of_ascii [OF this] s show ?thesis by (auto simp: fold_name_def runes_def fold_rune_def list_all_iff)
qed

lemma upper_inj: "x = 95 \<or> 97 \<le> x \<and> x \<le> 122 \<Longrightarrow> y = 95 \<or> 97 \<le> y \<and> y \<le> 122
    \<Longrightarrow> (if x = 95 then 95 else x - 32) = (if y = 95 then 95 else y - 32) \<Longrightarrow> x = (y::nat)"
  by (auto split: if_splits)

lemma fold_lower_inj: "lower_name s \<Longrightarrow> lower_name t \<Longrightarrow> fold_name s = fold_name t \<Longrightarrow> s = t"
proof -
  assume l: "lower_name s" "lower_name t" and "fold_name s = fold_name t"
  then have "map (\<lambda>c. if code c = 95 then 95 else code c - 32) s = map (\<lambda>c. if code c = 95 then 95 else code c - 32) t"
    by (simp only: fold_lower)
  moreover have "inj_on (\<lambda>c. if code c = 95 then 95 else code c - 32) (set s \<union> set t)"
  proof (rule inj_onI)
    fix c d
    assume cd: "c \<in> set s \<union> set t" "d \<in> set s \<union> set t"
      and u: "(if code c = 95 then 95 else code c - 32) = (if code d = 95 then 95 else code d - 32)"
    from cd l have "code c = 95 \<or> 97 \<le> code c \<and> code c \<le> 122" "code d = 95 \<or> 97 \<le> code d \<and> code d \<le> 122"
      by (auto simp: list_all_iff)
    from this u have "code c = (code d :: nat)" by (rule upper_inj)
    then show "c = d" by simp
  qed
  ultimately show "s = t" using map_inj_on by blast
qed

lemma lower_names: "list_all lower_name (map fst event_fields)" "list_all lower_name (map fst metric_fields)"
  by (simp_all add: event_fields_def metric_fields_def)

lemma distinct_folded: "list_all lower_name ns \<Longrightarrow> distinct ns \<Longrightarrow> distinct (map fold_name ns)"
proof -
  assume "list_all lower_name ns" "distinct ns"
  then have "inj_on fold_name (set ns)" by (intro inj_onI fold_lower_inj) (auto simp: list_all_iff)
  with \<open>distinct ns\<close> show ?thesis by (simp add: distinct_map)
qed

lemma event_names: "distinct (map fold_name (map fst event_fields))"
  by (rule distinct_folded [OF lower_names(1)]) (simp add: event_fields_def)

lemma metric_names: "distinct (map fold_name (map fst metric_fields))"
  by (rule distinct_folded [OF lower_names(2)]) (simp add: metric_fields_def)

lemma event_picks:
  "pick event_fields ''timestamp'' = value_into ev_Timestamp_update time_of"
  "pick event_fields ''event_type'' = value_into ev_EventType_update str_of"
  "pick event_fields ''idempotency_key'' = value_into ev_IdempotencyKey_update str_of"
  "pick event_fields ''ip_address'' = value_into ev_IPAddress_update str_of"
  "pick event_fields ''country'' = value_into ev_Country_update str_of"
  "pick event_fields ''user_agent'' = value_into ev_UserAgent_update str_of"
  "pick event_fields ''action_taken'' = value_into ev_ActionTaken_update str_of"
  "pick event_fields ''reason'' = value_into ev_Reason_update str_of"
  "pick event_fields ''endpoint'' = value_into ev_Endpoint_update str_of"
  "pick event_fields ''method'' = value_into ev_Method_update str_of"
  "pick event_fields ''status_code'' = pointer_into ev_StatusCode_update int_of"
  "pick event_fields ''response_time'' = pointer_into ev_ResponseTime_update float_of"
  "pick event_fields ''decorator_type'' = value_into ev_DecoratorType_update str_of"
  "pick event_fields ''rule_type'' = value_into ev_RuleType_update str_of"
  "pick event_fields ''pattern_matched'' = value_into ev_PatternMatched_update str_of"
  "pick event_fields ''handler_name'' = value_into ev_HandlerName_update str_of"
  "pick event_fields ''metadata'' = map_into ev_Metadata_update (any_of float_number)"
  by (rule pick_field [OF event_names], simp add: event_fields_def)+

lemma metric_picks:
  "pick metric_fields ''timestamp'' = value_into m_Timestamp_update time_of"
  "pick metric_fields ''metric_type'' = value_into m_MetricType_update str_of"
  "pick metric_fields ''value'' = value_into m_Value_update float_of"
  "pick metric_fields ''endpoint'' = value_into m_Endpoint_update str_of"
  "pick metric_fields ''tags'' = map_into m_Tags_update (or_zero [] str_of)"
  by (rule pick_field [OF metric_names], simp add: metric_fields_def)+

lemma field_names:
  "valid_utf8 ''timestamp''" "valid_utf8 ''event_type''" "valid_utf8 ''idempotency_key''" "valid_utf8
     ''ip_address''" "valid_utf8 ''country''" "valid_utf8 ''user_agent''" "valid_utf8 ''action_taken''"
     "valid_utf8 ''reason''" "valid_utf8 ''endpoint''" "valid_utf8 ''method''" "valid_utf8
     ''status_code''" "valid_utf8 ''response_time''" "valid_utf8 ''decorator_type''" "valid_utf8
     ''rule_type''" "valid_utf8 ''pattern_matched''" "valid_utf8 ''handler_name''" "valid_utf8
     ''metadata''" "valid_utf8 ''metric_type''" "valid_utf8 ''value''" "valid_utf8 ''tags''"
  by (rule clean_ascii, simp)+

lemma event_round:
  assumes "storable_event ev"
  shows "\<exists>j. event_doc E ev = Some j \<and> sound j \<and> decode_struct event_fields zero_event j = Some ev"
proof -
  obtain jt where t: "time_doc (ev_Timestamp ev) = Some jt" "sound jt" "jt \<noteq> JsNull" "time_of jt = Some (ev_Timestamp ev)"
    using assms time_back by (auto simp: storable_event_def)
  have str: "str_of (JsStr s) = Some s" "JsStr s \<noteq> JsNull" for s by (simp_all add: str_of_def)
  have st: "\<exists>j. Some (int_doc i) = Some j \<and> j \<noteq> JsNull \<and> int_of j = Some i" "sound (int_doc i)" if "ev_StatusCode ev = Some i" for i
    using assms int_back [of i] that by (auto simp: storable_event_def)
  have rt: "\<exists>j. float_doc x = Some j \<and> j \<noteq> JsNull \<and> float_of j = Some x" "\<exists>j. float_doc x = Some j \<and> sound j"
    if "ev_ResponseTime ev = Some x" for x
    using assms finite64_back [of x] that by (auto simp: storable_event_def)
  have md: "ev_Metadata ev \<noteq> Some []" using assms by (auto simp: storable_event_def)
  have mb: "\<exists>j. value_doc E (GMap m) = Some j \<and> j \<noteq> JsNull \<and> entries_of (any_of float_number) j = Some m \<and> ordered m"
    "\<exists>j. value_doc E (GMap m) = Some j \<and> sound j" if "ev_Metadata ev = Some m" for m
    using assms any_map_back [of m E] that by (auto simp: storable_event_def)
  define ps where "ps = [always ''timestamp'' (time_doc (ev_Timestamp ev)),
     always ''event_type'' (Some (JsStr (ev_EventType ev))),
     text_field ''idempotency_key'' (ev_IdempotencyKey ev),
     text_field ''ip_address'' (ev_IPAddress ev),
     text_field ''country'' (ev_Country ev),
     text_field ''user_agent'' (ev_UserAgent ev),
     text_field ''action_taken'' (ev_ActionTaken ev),
     text_field ''reason'' (ev_Reason ev),
     text_field ''endpoint'' (ev_Endpoint ev),
     text_field ''method'' (ev_Method ev),
     omitempty ''status_code'' (\<lambda>i. Some (int_doc i)) (ev_StatusCode ev),
     omitempty ''response_time'' float_doc (ev_ResponseTime ev),
     text_field ''decorator_type'' (ev_DecoratorType ev),
     text_field ''rule_type'' (ev_RuleType ev),
     text_field ''pattern_matched'' (ev_PatternMatched ev),
     text_field ''handler_name'' (ev_HandlerName ev),
     omitempty ''metadata'' (\<lambda>m. value_doc E (GMap m)) (Option.bind (ev_Metadata ev) nonempty)]"
  have "list_all valid_utf8 [ev_EventType ev, ev_IdempotencyKey ev, ev_IPAddress ev, ev_Country ev,
      ev_UserAgent ev, ev_ActionTaken ev, ev_Reason ev, ev_Endpoint ev, ev_Method ev,
      ev_DecoratorType ev, ev_RuleType ev, ev_PatternMatched ev, ev_HandlerName ev]"
    using assms unfolding storable_event_def by blast
  note texts = this [simplified list.pred_inject simp_thms]
  have s: "sound (JsStr (ev_EventType ev))" using texts by simp
  have m: "\<exists>j. value_doc E (GMap m) = Some j \<and> sound j" if "Option.bind (ev_Metadata ev) nonempty = Some m" for m
    using that mb(2) by (auto simp: nonempty_def bind_eq_Some_conv split: if_splits)
  have i: "\<exists>j. Some (int_doc i) = Some j \<and> sound j" if "ev_StatusCode ev = Some i" for i using st(2) [OF that] by blast
  have "list_all sound_part ps"
    unfolding ps_def list.pred_inject
    by (intro conjI; ((rule list.pred_inject(1)) | (rule part_sound(1), rule field_names, rule t(1), rule t(2))
      | (rule part_sound(1), rule field_names, rule refl, rule s)
      | (rule part_sound(2), rule field_names, simp only: texts)
      | (rule part_sound(3), rule field_names, erule i rt(2) m)))
  then have d: "event_doc E ev = Some (JsObj (concat (map the ps)))" "sound (JsObj (concat (map the ps)))"
    using object_parts [of ps] by (simp_all add: event_doc_def ps_def)
  have "set_members (pick event_fields) (concat (map the ps)) zero_event = Some ev"
    unfolding ps_def list.map concat.simps zero_event_def
    by (simp add: value_part [OF event_picks(1) t(1,3,4)] value_part [OF event_picks(2) refl str(2,1)]
      event_picks(3-10,13-16) [THEN text_part] pointer_part [OF event_picks(11) _ st(1)] pointer_part [OF event_picks(12) _ rt(1)]
      map_part [OF event_picks(17) _ md mb(1)] del: append_Nil2)
  with d show ?thesis by (auto simp: decode_struct_def)
qed

lemma metric_round:
  assumes "storable_metric m"
  shows "\<exists>j. metric_doc m = Some j \<and> sound j \<and> decode_struct metric_fields zero_metric j = Some m"
proof -
  obtain jt where t: "time_doc (m_Timestamp m) = Some jt" "sound jt" "jt \<noteq> JsNull" "time_of jt = Some (m_Timestamp m)"
    using assms time_back by (auto simp: storable_metric_def)
  obtain jv where v: "float_doc (m_Value m) = Some jv" "sound jv" "jv \<noteq> JsNull" "float_of jv = Some (m_Value m)"
    using assms finite64_back by (auto simp: storable_metric_def)
  have str: "str_of (JsStr s) = Some s" "JsStr s \<noteq> JsNull" for s by (simp_all add: str_of_def)
  have texts: "valid_utf8 (m_MetricType m)" "valid_utf8 (m_Endpoint m)" and tg: "m_Tags m \<noteq> Some []"
    using assms by (auto simp: storable_metric_def)
  have tb: "\<exists>j. Some (string_map_doc x) = Some j \<and> j \<noteq> JsNull \<and> entries_of (or_zero [] str_of) j = Some x \<and> ordered x"
    "sound (string_map_doc x)" if "m_Tags m = Some x" for x
    using assms string_map_back [of x] that by (auto simp: storable_metric_def)
  define ps where "ps = [always ''timestamp'' (time_doc (m_Timestamp m)),
     always ''metric_type'' (Some (JsStr (m_MetricType m))),
     always ''value'' (float_doc (m_Value m)),
     text_field ''endpoint'' (m_Endpoint m),
     omitempty ''tags'' (\<lambda>t. Some (string_map_doc t)) (Option.bind (m_Tags m) nonempty)]"
  have s: "sound (JsStr (m_MetricType m))" using texts by simp
  have g: "\<exists>j. Some (string_map_doc x) = Some j \<and> sound j" if "Option.bind (m_Tags m) nonempty = Some x" for x
    using that tb(2) by (auto simp: nonempty_def bind_eq_Some_conv split: if_splits)
  have "list_all sound_part ps"
    unfolding ps_def list.pred_inject
    by (intro conjI; ((rule list.pred_inject(1)) | (rule part_sound(1), rule field_names, rule t(1), rule t(2))
      | (rule part_sound(1), rule field_names, rule v(1), rule v(2))
      | (rule part_sound(1), rule field_names, rule refl, rule s)
      | (rule part_sound(2), rule field_names, rule texts)
      | (rule part_sound(3), rule field_names, erule g)))
  then have d: "metric_doc m = Some (JsObj (concat (map the ps)))" "sound (JsObj (concat (map the ps)))"
    using object_parts [of ps] by (simp_all add: metric_doc_def ps_def)
  have "set_members (pick metric_fields) (concat (map the ps)) zero_metric = Some m"
    unfolding ps_def list.map concat.simps zero_metric_def
    by (simp add: value_part [OF metric_picks(1) t(1,3,4)] value_part [OF metric_picks(2) refl str(2,1)]
      value_part [OF metric_picks(3) v(1,3,4)] metric_picks(4) [THEN text_part] map_part [OF metric_picks(5) _ tg tb(1)]
      del: append_Nil2)
  with d show ?thesis by (auto simp: decode_struct_def)
qed

end
