(* ===== verification/Wired.thy ===== *)
theory Wired
  imports Keys Poison Roundtrip
begin

text \<open>
  The agent on encoding/json: what the other theories show of an arbitrary environment, for one in which
  JSON is the real one (\<open>with_json\<close>). The records in Redis are JSON texts that the next process reads, an
  encrypted payload decrypts to the data it was made of, and a value that is not a number has no text.
\<close>

section \<open>Records in Redis\<close>

lemma with_json_simps [simp]:
  "jsonMarshal (with_json wr rd E) x = or_err (wr x) (Marshal (marshal_any E) x)"
  "unmarshal_event (with_json wr rd E) s = or_err (rd s) (Unmarshal (decode_struct event_fields zero_event) s)"
  "unmarshal_metric (with_json wr rd E) s = or_err (rd s) (Unmarshal (decode_struct metric_fields zero_metric) s)"
  "unmarshal_any (with_json wr rd E) = Unmarshal (any_of float_number)"
  "elapsed (with_json wr rd E) = elapsed E" "entropy (with_json wr rd E) = entropy E"
  "redis_Set (with_json wr rd E) = redis_Set E"
  "aead_Seal (with_json wr rd E) = aead_Seal E" "aead_Open (with_json wr rd E) = aead_Open E"
  by (simp_all add: with_json_def)

lemma or_err_Inr [simp]: "or_err e x = Inr a \<longleftrightarrow> x = Some a"
  by (simp add: or_err_def split: option.split)

lemma Marshal_event:
  assumes "storable_event ev"
  obtains s where "Marshal E (JEvent ev) = Some s" "Unmarshal (decode_struct event_fields zero_event) s = Some ev"
  using event_round [OF assms, of E] read_marshal by (force simp: Marshal_def marshal_doc_def Unmarshal_def)

lemma Marshal_metric:
  assumes "storable_metric m"
  obtains s where "Marshal E (JMetric m) = Some s" "Unmarshal (decode_struct metric_fields zero_metric) s = Some m"
  using metric_round [OF assms] read_marshal by (force simp: Marshal_def marshal_doc_def Unmarshal_def)


definition rich_event :: SecurityEvent where
  "rich_event = sample_event\<lparr>ev_Timestamp := 63871027200 * Second + 5000000, ev_Reason := ''a<b'', ev_StatusCode := Some (- 1),
     ev_ResponseTime := Some (Fin 3), ev_Metadata := Some [(''a'', GSlice [GNil, GBool True]), (''b'', GMap [])]\<rparr>"

definition rich_metric :: SecurityMetric where
  "rich_metric = \<lparr>m_Timestamp = 1, m_MetricType = ''error_rate'', m_Value = Fin 2, m_Endpoint = [], m_Tags = Some [(''a'', ''b'')]\<rparr>"

lemma float64_int: "0 \<le> n \<Longrightarrow> n \<le> 2 ^ 53 \<Longrightarrow> float64 (of_int n)"
  using f64_of_int_exact [of n] by (simp add: float64_def f64_of_int_def)

lemma valid_samples:
  "valid_utf8 ''ip_banned''" "valid_utf8 ''key''" "valid_utf8 []" "valid_utf8 ''a<b''" "valid_utf8 ''error_rate''"
  "valid_utf8 ''a''" "valid_utf8 ''b''"
  by (rule clean_ascii, simp)+

lemma sample_storable: "storable_event sample_event"
proof -
  have "civil_year 0 = (1, 0)" by (simp add: civil_year_def)
  then have "json_time 1 \<noteq> None" by (simp add: json_time_def)
  then show ?thesis by (simp add: storable_event_def sample_event_def valid_samples)
qed

lemma rich_storable: "storable_event rich_event" "storable_metric rich_metric"
proof -
  have "civil_year 739248 = (2024, 363)" "civil_year 0 = (1, 0)" by (simp_all add: civil_year_def)
  then have "json_time (63871027200 * Second + 5000000) \<noteq> None" "json_time 1 \<noteq> None" by (simp_all add: json_time_def)
  moreover have "''a'' < ''b''" by code_simp
  ultimately show "storable_event rich_event" "storable_metric rich_metric"
    using float64_int [of 3] float64_int [of 2]
    by (simp_all add: storable_event_def storable_metric_def rich_event_def rich_metric_def sample_event_def valid_samples finite64_def)
qed


section \<open>A crash and a restart\<close>

text \<open>Every record of such an item, newly written or reloaded before, is read the same by the next process.\<close>

lemma json_readable:
  "storable_event ev \<Longrightarrow> readable (with_json wr rd E) (with_json wr' rd' E') event_kind ev"
  "storable_metric m \<Longrightarrow> readable (with_json wr rd E) (with_json wr' rd' E') metric_kind m"
proof -
  show "storable_event ev \<Longrightarrow> readable (with_json wr rd E) (with_json wr' rd' E') event_kind ev"
    by (erule Marshal_event [of _ "marshal_any E"]) (auto simp: readable_def record_of_def event_kind_def)
  show "storable_metric m \<Longrightarrow> readable (with_json wr rd E) (with_json wr' rd' E') metric_kind m"
    by (erule Marshal_metric [of _ "marshal_any E"]) (auto simp: readable_def record_of_def metric_kind_def or_err_def [of _ "Some _"])
qed



section \<open>A metric that is not a number\<close>

lemma those_None: "those xs = None \<longleftrightarrow> None \<in> set xs"
  by (induction xs) (auto split: option.splits)

lemma object_None: "None \<in> set ps \<Longrightarrow> object ps = None"
  by (simp add: object_def those_None)

lemma nonfinite_no_doc: "nonfinite (m_Value m) \<Longrightarrow> metric_doc m = None"
proof -
  assume "nonfinite (m_Value m)"
  then have "always ''value'' (float_doc (m_Value m)) = None"
    by (cases "m_Value m") (simp_all add: nonfinite_def always_def float_doc_def)
  then show ?thesis unfolding metric_doc_def by (intro object_None) simp
qed

lemma nonfinite_no_array: "list_ex (\<lambda>m. nonfinite (m_Value m)) ms \<Longrightarrow> array_of metric_doc ms = None"
  by (auto simp: list_ex_iff those_None nonfinite_no_doc intro!: rev_image_eqI)

lemma json_refuses: "json_refuses_nonfinite (with_json wr rd E)"
proof -
  have "batch_doc other b = None" if "list_ex (\<lambda>m. nonfinite (m_Value m)) (b_Metrics b)" for other b
  proof -
    have "b_Metrics b \<noteq> []" using that by auto
    with nonfinite_no_array [OF that] have "omitempty ''metrics'' (array_of metric_doc) (nonempty (b_Metrics b)) = None"
      by (simp only: omitempty_def nonempty_def if_False option.case always_def option.map)
    then show ?thesis unfolding batch_doc_def by (intro object_None) simp
  qed
  then show ?thesis
    using nonfinite_no_array by (auto simp: json_refuses_nonfinite_def Marshal_def marshal_doc_def or_err_def)
qed

text \<open>C19. One metric with a NaN or infinite value stops the delivery of all metrics: as long as it is in the
  buffer, no number of flushes sends a request for metrics, counts one as sent or takes one out of the
  buffer, whatever the server would answer, with encryption or without; and a forced flush, like the last
  one of \<open>Stop\<close>, reports an error. For \<open>json.Marshal\<close> refuses such a value.\<close>

theorem nonfinite_metric_stops:
  assumes "m \<in> payload ` set (items (metrics a))" and "nonfinite (m_Value m)"
    and "int (length (items (metrics a))) \<le> BufferSize (cfg a)"
    and "flush_rounds (with_json wr rd E) xs a w = (a', w')"
  shows "items (metrics a') = items (metrics a) \<and> sent_count (metrics a') = sent_count (metrics a)
    \<and> http_trace w' = http_trace w
    \<and> (EnableMetrics (cfg a) \<longrightarrow> fst (flushMetrics (with_json wr rd E) c True a' w') \<noteq> None)"
  by (rule nonfinite_metric_blocks [OF json_refuses assms])

theorem nonfinite_metric_stops_witness:
  "\<exists>a' w'. flush_rounds (with_json (\<lambda>_. []) (\<lambda>_. []) calm) [(Background, False), (Background, True)] poisoned_agent start = (a', w')
    \<and> length (items (metrics a')) = 1 \<and> http_trace w' = []
    \<and> fst (flushMetrics (with_json (\<lambda>_. []) (\<lambda>_. []) calm) Background True a' w') \<noteq> None"
proof -
  let ?E = "with_json (\<lambda>_. []) (\<lambda>_. []) calm"
  have a: "items (metrics poisoned_agent) = [\<lparr>payload = nan_metric, key = []\<rparr>]" "BufferSize (cfg poisoned_agent) = 100"
    "EnableMetrics (cfg poisoned_agent)"
    by (simp_all add: poisoned_agent_def sample_agent_def new_agent_def sample_simps)
  have m: "nan_metric \<in> payload ` set (items (metrics poisoned_agent))" "nonfinite (m_Value nan_metric)"
    by (simp_all add: a nan_metric_def nonfinite_def)
  obtain a' w' where r: "flush_rounds ?E [(Background, False), (Background, True)] poisoned_agent start = (a', w')"
    by fastforce
  from nonfinite_metric_stops [OF m _ r, of Background] r show ?thesis by (auto simp: a start_def)
qed

section \<open>Encrypted payloads\<close>

text \<open>The payloads an encrypted batch is made of, with their maps in order, and what a decoder makes of them:
  every number a float64.\<close>

fun tidy :: "goval \<Rightarrow> bool" where
  "tidy GNil = True"
| "tidy (GBool b) = True"
| "tidy (GInt i) = (min_int64 \<le> i \<and> i \<le> max_int64)"
| "tidy (GUint n) = (n < 18446744073709551616)"
| "tidy (GString s) = valid_utf8 s"
| "tidy (GNumber s) = (valid_number s \<and> ParseFloat s \<noteq> None)"
| "tidy (GSlice vs) = list_all tidy vs"
| "tidy (GMap m) = (ordered m \<and> list_all (\<lambda>e. valid_utf8 (fst e) \<and> tidy (snd e)) m)"
| "tidy _ = False"

fun decoded :: "goval \<Rightarrow> goval" where
  "decoded (GInt i) = GFloat64 (f64_of_int i)"
| "decoded (GUint n) = GFloat64 (f64_of_int (int n))"
| "decoded (GNumber s) = (case ParseFloat s of Some x \<Rightarrow> GFloat64 x | None \<Rightarrow> GNil)"
| "decoded (GSlice vs) = GSlice (map decoded vs)"
| "decoded (GMap m) = GMap (map (\<lambda>(k, v). (k, decoded v)) m)"
| "decoded v = v"

lemma tidy_plain: "tidy v \<Longrightarrow> plain v"
  by (induction v rule: tidy.induct) (auto simp: list_all_iff)

lemma tidy_decoded: "tidy v \<Longrightarrow> sound (doc_of v) \<and> any_of float_number (doc_of v) = Some (decoded v)"
proof (induction v rule: tidy.induct)
  case (3 i)
  then have "\<bar>i\<bar> < 18446744073709551616" by simp linarith
  note p = ParseFloat_Itoa [OF this]
  show ?case by (simp add: doc_of.simps any_of.simps float_number_def valid_Itoa p)
next
  case (4 n)
  then have "ParseFloat (show_nat n) = Some (f64_of_int (int n))" using ParseFloat_Itoa [of "int n"] by (simp add: Itoa_def)
  then show ?case by (simp add: doc_of.simps any_of.simps float_number_def valid_show_nat)
next
  case (7 vs)
  then have "those (map (any_of float_number) (map doc_of vs)) = Some (map decoded vs)"
    unfolding map_map by (intro those_map) (simp add: list_all_iff)
  then have "any_of float_number (JsArr (map doc_of vs)) = Some (GSlice (map decoded vs))"
    by (simp only: any_of.simps [of _ "JsArr _"] document.case option.map)
  with 7 show ?case by (simp add: doc_of.simps [of "GSlice vs"] list_all_iff)
next
  case (8 m)
  then have o: "ordered m" by simp
  have i: "valid_utf8 k" "sound (doc_of v)" "any_of float_number (doc_of v) = Some (decoded v)" if "(k, v) \<in> set m" for k v
  proof -
    have "valid_utf8 k" "tidy v" using 8(2) that by (auto simp: list_all_iff)
    with 8(1) [OF that] show "valid_utf8 k" "sound (doc_of v)" "any_of float_number (doc_of v) = Some (decoded v)" by simp_all
  qed
  have d: "doc_of (GMap m) = JsObj (map (\<lambda>(k, v). (k, doc_of v)) m)"
    by (simp add: doc_of.simps [of "GMap m"] sort_ordered [OF o])
  have "those (map (\<lambda>(k, x). map_option (Pair k) (any_of float_number x)) (map (\<lambda>(k, v). (k, doc_of v)) m))
    = Some (map (\<lambda>(k, v). (k, decoded v)) m)"
    unfolding map_map using i(3) by (intro those_map) auto
  moreover have "ordered (map (\<lambda>(k, v). (k, decoded v)) m)" using o by (simp add: comp_def case_prod_beta)
  ultimately have "any_of float_number (doc_of (GMap m)) = Some (decoded (GMap m))"
    by (simp only: d any_of.simps [of _ "JsObj _"] document.case option.map map_puts_ordered decoded.simps)
  moreover have "sound (doc_of (GMap m))" unfolding d using i(1,2) by (auto simp: list_all_iff)
  ultimately show ?case by blast
qed (auto simp: doc_of.simps any_of.simps float_number_def)

lemma Decrypt_json:
  assumes "aead_sound E" "tidy (GMap data)" "fst (Encrypt (with_json wr rd E) p data ad w) = Inr c"
  shows "Decrypt (with_json wr rd E) p c ad = Inr (map (\<lambda>(k, v). (k, decoded v)) data)"
proof -
  note t = tidy_decoded [OF assms(2)]
  have "read_json (canonicalJSON (with_json wr rd E) data) = Some (doc_of (GMap data))"
    using canonical_reads_back [OF tidy_plain [OF assms(2)]] sound_clean t by (simp add: canonicalJSON_def)
  then have "unmarshal_any (with_json wr rd E) (canonicalJSON (with_json wr rd E) data)
      = Some (GMap (map (\<lambda>(k, v). (k, decoded v)) data))"
    using t by (simp add: Unmarshal_def)
  moreover have "aead_sound (with_json wr rd E)" using assms(1) by (simp add: aead_sound_def)
  moreover obtain w' where "Encrypt (with_json wr rd E) p data ad w = (Inr c, w')" using assms(3) by (metis prod.collapse)
  ultimately show ?thesis using encrypt_decrypt by blast
qed



end
