(* ===== verification/Arrival.thy ===== *)
theory Arrival
  imports Wired
begin

text \<open>
  What arrives: a server that reads the bodies of the requests as JSON gets the events and metrics that
  were sent, from the plain path as they were redacted, and from the encrypted path, with the project
  key, as the values of their documents.
\<close>

section \<open>Reading a body\<close>

lemma object_Some:
  assumes "object ps = Some j"
  shows "j = JsObj (concat (map the ps)) \<and> None \<notin> set ps"
proof -
  have "None \<notin> set ps" using assms object_None by fastforce
  moreover from this have "those (map id ps) = Some (map the ps)"
    by (intro those_map) (metis id_apply option.collapse)
  ultimately show ?thesis using assms by (simp add: object_def)
qed

text \<open>The events and the metrics of a batch, as a server decodes them.\<close>

definition member :: "gostring \<Rightarrow> json \<Rightarrow> json option" where
  "member name j = (case j of JsObj ms \<Rightarrow> map_of ms name | _ \<Rightarrow> None)"

definition read_items :: "gostring \<Rightarrow> (json \<Rightarrow> 'a option) \<Rightarrow> gostring \<Rightarrow> 'a list option" where
  "read_items name f raw = Option.bind (read_json raw) (\<lambda>j. case member name j of None \<Rightarrow> Some [] | Some d \<Rightarrow> list_of f d)"

abbreviation read_events :: "gostring \<Rightarrow> SecurityEvent list option" where
  "read_events \<equiv> read_items ''events'' (decode_struct event_fields zero_event)"

abbreviation read_metrics :: "gostring \<Rightarrow> SecurityMetric list option" where
  "read_metrics \<equiv> read_items ''metrics'' (decode_struct metric_fields zero_metric)"

lemma array_back:
  assumes "\<And>x. x \<in> set xs \<Longrightarrow> \<exists>j. f x = Some j \<and> P j \<and> g j = Some x"
  shows "\<exists>js. those (map f xs) = Some js \<and> list_all P js \<and> those (map g js) = Some xs"
  using assms
proof (induction xs)
  case (Cons x xs)
  from Cons.IH Cons.prems obtain js where js: "those (map f xs) = Some js" "list_all P js" "those (map g js) = Some xs" by auto
  from Cons.prems [of x] obtain j where "f x = Some j" "P j" "g j = Some x" by auto
  with js show ?case by simp
qed simp

lemma events_back:
  assumes "list_all storable_event evs"
  shows "\<exists>js. those (map (event_doc other) evs) = Some js \<and> list_all sound js
    \<and> those (map (decode_struct event_fields zero_event) js) = Some evs"
  by (rule array_back, rule event_round) (use assms in \<open>simp add: list_all_iff\<close>)

lemma metrics_back:
  assumes "list_all storable_metric ms"
  shows "\<exists>js. those (map metric_doc ms) = Some js \<and> list_all sound js
    \<and> those (map (decode_struct metric_fields zero_metric) js) = Some ms"
  by (rule array_back, rule metric_round) (use assms in \<open>simp add: list_all_iff\<close>)

lemma batch_names:
  "clean ''project_id'' = ''project_id''" "clean ''events'' = ''events''" "clean ''metrics'' = ''metrics''"
  "clean ''batch_id'' = ''batch_id''" "clean ''created_at'' = ''created_at''" "clean ''compressed'' = ''compressed''"
  "clean ''agent_version'' = ''agent_version''" "clean ''guard_version'' = ''guard_version''"
  "clean ''guard_core_version'' = ''guard_core_version''" "clean ''encrypted_payload'' = ''encrypted_payload''"
  by (rule clean_ascii [unfolded valid_utf8_def], simp)+

lemma batch_read:
  assumes "Marshal other (JBatch b) = Some raw" "list_all storable_event (b_Events b)" "list_all storable_metric (b_Metrics b)"
  shows "read_events raw = Some (b_Events b)" and "read_metrics raw = Some (b_Metrics b)"
proof -
  obtain j where j: "batch_doc other b = Some j" "raw = write_json go_string j"
    using assms(1) by (auto simp: Marshal_def marshal_doc_def)
  obtain es where es: "those (map (event_doc other) (b_Events b)) = Some es" "list_all sound es"
    "those (map (decode_struct event_fields zero_event) es) = Some (b_Events b)" using events_back [OF assms(2)] by blast
  obtain ms where ms: "those (map metric_doc (b_Metrics b)) = Some ms" "list_all sound ms"
    "those (map (decode_struct metric_fields zero_metric) ms) = Some (b_Metrics b)" using metrics_back [OF assms(3)] by blast
  have ok: "list_all json_ok es" "list_all json_ok ms" "map clean_json es = es" "map clean_json ms = ms"
    using es(2) ms(2) sound_ok sound_clean by (auto simp: list_all_iff intro: map_idI)
  obtain jt where t: "time_doc (b_CreatedAt b) = Some jt"
    using j(1) unfolding batch_doc_def by (auto dest!: object_Some simp: always_def)
  then have jt: "json_ok jt" by (auto simp: time_doc_def)
  have d: "j = JsObj ([(''project_id'', JsStr (b_ProjectID b))]
      @ (if b_Events b = [] then [] else [(''events'', JsArr es)]) @ (if b_Metrics b = [] then [] else [(''metrics'', JsArr ms)])
      @ [(''batch_id'', JsStr (b_BatchID b)), (''created_at'', jt), (''compressed'', JsBool (b_Compressed b)),
         (''agent_version'', JsStr (b_AgentVersion b))]
      @ (if b_GuardVersion b = [] then [] else [(''guard_version'', JsStr (b_GuardVersion b))])
      @ (if b_GuardCoreVersion b = [] then [] else [(''guard_core_version'', JsStr (b_GuardCoreVersion b))]))"
    using j(1) es(1) ms(1) t by (auto simp: batch_doc_def object_def omitempty_def nonempty_def always_def)
  have "json_ok j" unfolding d using ok(1,2) jt by simp
  then have r: "read_json raw = Some (clean_json j)" unfolding j(2) by (rule go_writer.read_written(1))
  show "read_events raw = Some (b_Events b)" "read_metrics raw = Some (b_Metrics b)"
    unfolding read_items_def r d using es(1,3) ms(1,3) ok(3,4) by (simp_all add: member_def batch_names list_of_def)
qed

section \<open>The plain path\<close>


section \<open>The encrypted path\<close>

lemma map_put_map: "map_put (k, f v) (map (\<lambda>(k, v). (k, f v)) m) = map (\<lambda>(k, v). (k, f v)) (map_put (k, v) m)"
  by (induction m) auto

lemma map_puts_map: "map_puts (map (\<lambda>(k, v). (k, f v)) es) (map (\<lambda>(k, v). (k, f v)) m) = map (\<lambda>(k, v). (k, f v)) (map_puts es m)"
  by (induction es arbitrary: m) (auto simp: map_put_map)

lemma map_put_set: "set (map_put e m) \<subseteq> insert e (set m)"
  by (induction m) auto

lemma map_puts_set: "set (map_puts es m) \<subseteq> set es \<union> set m"
  using map_put_set by (induction es arbitrary: m) fastforce+

lemma map_put_ordered: "ordered m \<Longrightarrow> ordered (map_put e m)"
proof (induction m)
  case (Cons x m)
  have "fst y = fst e \<or> y \<in> set m" if "y \<in> set (map_put e m)" for y using map_put_set [of e m] that by auto
  with Cons show ?case by (fastforce simp: not_less le_less)
qed simp

lemma map_puts_keeps_order: "ordered m \<Longrightarrow> ordered (map_puts es m)"
  by (induction es arbitrary: m) (auto simp: map_put_ordered)

lemma those_both:
  assumes "\<And>x. x \<in> set xs \<Longrightarrow> \<exists>v. f x = Some v \<and> P v \<and> g x = Some (h v)"
  shows "\<exists>vs. those (map f xs) = Some vs \<and> list_all P vs \<and> those (map g xs) = Some (map h vs)"
  using assms
proof (induction xs)
  case (Cons x xs)
  from Cons.IH Cons.prems obtain vs where vs: "those (map f xs) = Some vs" "list_all P vs" "those (map g xs) = Some (map h vs)" by auto
  from Cons.prems [of x] obtain v where "f x = Some v" "P v" "g x = Some (h v)" by auto
  with vs show ?case by simp
qed simp

text \<open>A sound document as a value that keeps the texts of its numbers, and as one with floats.\<close>

lemma generic_decoded:
  "sound j \<Longrightarrow> \<exists>v. any_of text_number j = Some v \<and> tidy v \<and> any_of float_number j = Some (decoded v)"
proof (induction j)
  case (JsNum t)
  then show ?case by (auto simp: any_of.simps text_number_def float_number_def)
next
  case (JsArr xs)
  have "\<exists>vs. those (map (any_of text_number) xs) = Some vs \<and> list_all tidy vs
      \<and> those (map (any_of float_number) xs) = Some (map decoded vs)"
  proof (rule those_both)
    fix x
    assume "x \<in> set xs"
    with JsArr show "\<exists>v. any_of text_number x = Some v \<and> tidy v \<and> any_of float_number x = Some (decoded v)"
      by (metis (lifting) document.pred_inject(5) list_all_iff)
  qed
  then show ?case by (auto simp: any_of.simps [of _ "JsArr xs"])
next
  case (JsObj ms)
  let ?f = "\<lambda>num. those (map (\<lambda>(k, x). map_option (Pair k) (any_of num x)) ms)"
  have "\<exists>es. ?f text_number = Some es \<and> list_all (\<lambda>e. valid_utf8 (fst e) \<and> tidy (snd e)) es
      \<and> ?f float_number = Some (map (\<lambda>(k, v). (k, decoded v)) es)"
  proof (rule those_both)
    fix e
    assume e: "e \<in> set ms"
    obtain k x where kx: "e = (k, x)" by fastforce
    have "valid_utf8 k" "sound x" using JsObj.prems e kx by (auto simp: list_all_iff)
    moreover obtain v where "any_of text_number x = Some v" "tidy v" "any_of float_number x = Some (decoded v)"
      using JsObj.IH [of e x] e kx calculation(2) by auto
    ultimately show "\<exists>p. (case e of (k, x) \<Rightarrow> map_option (Pair k) (any_of text_number x)) = Some p
        \<and> (valid_utf8 (fst p) \<and> tidy (snd p))
        \<and> (case e of (k, x) \<Rightarrow> map_option (Pair k) (any_of float_number x)) = Some (case p of (k, v) \<Rightarrow> (k, decoded v))"
      by (simp add: kx)
  qed
  then obtain es where es: "?f text_number = Some es" "list_all (\<lambda>e. valid_utf8 (fst e) \<and> tidy (snd e)) es"
    "?f float_number = Some (map (\<lambda>(k, v). (k, decoded v)) es)" by blast
  have "list_all (\<lambda>e. valid_utf8 (fst e) \<and> tidy (snd e)) (map_puts es [])"
  proof -
    have "e \<in> set es" if "e \<in> set (map_puts es [])" for e using subsetD [OF map_puts_set that] by simp
    with es(2) show ?thesis unfolding list_all_iff by blast
  qed
  then have "tidy (GMap (map_puts es []))" using map_puts_keeps_order [of "[]" es] by simp
  moreover have "any_of text_number (JsObj ms) = Some (GMap (map_puts es []))"
    by (simp only: any_of.simps [of _ "JsObj ms"] document.case es option.map)
  moreover have "any_of float_number (JsObj ms) = Some (decoded (GMap (map_puts es [])))"
    using map_puts_map [of decoded "[]" es]
    by (simp only: any_of.simps [of _ "JsObj ms"] document.case es option.map decoded.simps list.map)
  ultimately show ?case by blast
qed (auto simp: any_of.simps)

lemma b64_ascii: "ascii (encodeUrlsafeBase64 s)"
proof -
  have "code (b64_char n) < 128" if "n < 64" for n
  proof -
    have "code (CHR ''-'') = 45" "code (CHR ''_'') = 95" by simp_all
    with that show ?thesis by (auto simp: b64_char_def)
  qed
  moreover have "list_all (\<lambda>n. n < 64) (b64_groups (map code s))" by (rule b64_groups_less) (simp add: list_all_iff)
  ultimately show ?thesis by (auto simp: encodeUrlsafeBase64_def b64_pad_def list_all_iff)
qed

text \<open>What a server that holds the project key gets out of a body.\<close>

definition received :: "env \<Rightarrow> PayloadEncryptor \<Rightarrow> gostring \<Rightarrow> gomap option" where
  "received E p raw = Option.bind (Option.bind (read_json raw) (member ''encrypted_payload'')) (\<lambda>d.
     case d of JsStr s \<Rightarrow> (case Decrypt E p s [] of Inr data \<Rightarrow> Some data | Inl e \<Rightarrow> None) | _ \<Rightarrow> None)"

lemma envelope_read:
  assumes "Marshal other (JEnvelope e) = Some raw" "ascii (e_EncryptedPayload e)"
  shows "Option.bind (read_json raw) (member ''encrypted_payload'') = Some (JsStr (e_EncryptedPayload e))"
proof -
  obtain j where j: "envelope_doc e = Some j" "raw = write_json go_string j"
    using assms(1) by (auto simp: Marshal_def marshal_doc_def)
  have d: "j = JsObj ([(''encrypted_payload'', JsStr (e_EncryptedPayload e)), (''batch_id'', JsStr (e_BatchID e)),
         (''agent_version'', JsStr (e_AgentVersion e))]
      @ (if e_GuardVersion e = [] then [] else [(''guard_version'', JsStr (e_GuardVersion e))])
      @ (if e_GuardCoreVersion e = [] then [] else [(''guard_core_version'', JsStr (e_GuardCoreVersion e))]))"
    using j(1) by (auto simp: envelope_doc_def object_def omitempty_def nonempty_def always_def)
  have "json_ok j" unfolding d by simp
  then have "read_json raw = Some (clean_json j)" unfolding j(2) by (rule go_writer.read_written(1))
  moreover have "clean (e_EncryptedPayload e) = e_EncryptedPayload e" using clean_ascii [OF assms(2)] by (simp add: valid_utf8_def)
  ultimately show ?thesis by (simp add: d member_def batch_names)
qed

text \<open>The document of an item as the decoder of a server sees it.\<close>

definition seen :: "('a \<Rightarrow> json option) \<Rightarrow> 'a \<Rightarrow> goval option" where
  "seen f x = Option.bind (f x) (any_of float_number)"

lemma seen_those: "those (map f xs) = Some js \<Longrightarrow> those (map (any_of float_number) js) = those (map (seen f) xs)"
proof (induction xs arbitrary: js)
  case (Cons x xs)
  then show ?case by (auto simp: seen_def split: option.splits)
qed simp

lemma generic_items:
  assumes "those (map f xs) = Some js" "list_all sound js"
  obtains vs where "Option.bind (decode_first (write_json go_string (JsArr js))) (any_of text_number) = Some (GSlice vs)"
    "list_all tidy vs" "those (map (seen f) xs) = Some (map decoded vs)"
proof -
  have s: "sound (JsArr js)" using assms(2) by simp
  obtain v where v: "any_of text_number (JsArr js) = Some v" "tidy v" "any_of float_number (JsArr js) = Some (decoded v)"
    using generic_decoded [OF s] by blast
  then obtain vs where vs: "v = GSlice vs" by (auto simp: any_of.simps [of _ "JsArr js"])
  have "decode_first (write_json go_string (JsArr js)) = Some (JsArr js)"
    using go_writer.read_written(2) [OF sound_ok [OF s]] by (simp only: sound_clean [OF s])
  moreover have "those (map (seen f) xs) = Some (map decoded vs)"
    using v(3) seen_those [OF assms(1)] by (simp add: vs any_of.simps [of _ "JsArr js"])
  ultimately show thesis using that v by (simp add: vs)
qed

text \<open>The items of a payload, and how a decoder of the decrypted text sees them.\<close>

lemma canonical_items:
  assumes "canonicalItemsJSON (with_json wr rd B) evs ms = Inr data"
    and "list_all storable_event evs" "list_all storable_metric ms"
  obtains ve vm where "data = [(''events'', GSlice ve), (''metrics'', GSlice vm)]" "list_all tidy ve" "list_all tidy vm"
    "those (map (seen (event_doc (marshal_any B))) evs) = Some (map decoded ve)" "those (map (seen metric_doc) ms) = Some (map decoded vm)"
proof -
  obtain je where je: "those (map (event_doc (marshal_any B)) evs) = Some je" "list_all sound je" using events_back [OF assms(2)] by blast
  obtain jm where jm: "those (map metric_doc ms) = Some jm" "list_all sound jm" using metrics_back [OF assms(3)] by blast
  obtain ve where ve: "Option.bind (decode_first (write_json go_string (JsArr je))) (any_of text_number) = Some (GSlice ve)"
    "list_all tidy ve" "those (map (seen (event_doc (marshal_any B))) evs) = Some (map decoded ve)" by (rule generic_items [OF je])
  obtain vm where vm: "Option.bind (decode_first (write_json go_string (JsArr jm))) (any_of text_number) = Some (GSlice vm)"
    "list_all tidy vm" "those (map (seen metric_doc) ms) = Some (map decoded vm)" by (rule generic_items [OF jm])
  have e: "jsonMarshal (with_json wr rd B) (JEvents evs) = Inr (write_json go_string (JsArr je))"
    "jsonMarshal (with_json wr rd B) (JMetrics ms) = Inr (write_json go_string (JsArr jm))"
    using je(1) jm(1) by (simp_all add: Marshal_def marshal_doc_def)
  have d: "decodeGenericJSON (with_json wr rd B) s = or_err (rd s) (Option.bind (decode_first s) (any_of text_number))" for s
    by (simp add: with_json_def)
  have "data = [(''events'', GSlice ve), (''metrics'', GSlice vm)]"
    using assms(1) ve(3) vm(3)
    by (auto simp del: with_json_simps write_json.simps simp: canonicalItemsJSON_def e d ve(1) vm(1) or_err_def split: if_splits)
  with that ve vm show thesis by blast
qed


section \<open>Closed examples\<close>

definition calm_json :: env where
  "calm_json = with_json (\<lambda>_. []) (\<lambda>_. []) calm"

lemma calm_json_simps:
  "NewRequest_err calm_json u = None" "http_Do calm_json n rq = Resp 200 [] []" "conv calm_json = conv calm"
  "unmarshal_batchResponse calm_json [] = Inl []" "entropy calm_json n k = Some (replicate k (CHR 0x00))"
  by (simp_all add: calm_json_def with_json_def calm_def or_err_def Unmarshal_def read_json_def)

lemma sample_post:
  "\<exists>e t' w'. sendBatch calm_json Background path raw True (sample_transport\<lparr>encryptor := x\<rparr>) w = (Inr (outcomePartial, Some e), t', w')
    \<and> length (http_trace w') = Suc (length (http_trace w)) \<and> as_tooLarge e = None"
  by (simp add: sample_simps now_def Let_def willCompress_def sendBatch_def calm_json_simps
     encodeBody_def sendLoop.simps sendAttempt_def limiterGate_def Acquire_def pruneLocked_def newRateLimiter_def
     Admit_def newCircuitBreaker_def client_Do_def after_request_def on_response_def evaluateBatchResponse_def)

lemma batch_written:
  assumes "list_all storable_event (b_Events b)" "list_all storable_metric (b_Metrics b)" "json_time (b_CreatedAt b) \<noteq> None"
  shows "\<exists>raw. Marshal other (JBatch b) = Some raw"
proof -
  obtain es where es: "those (map (event_doc other) (b_Events b)) = Some es" using events_back [OF assms(1)] by blast
  obtain ms where ms: "those (map metric_doc (b_Metrics b)) = Some ms" using metrics_back [OF assms(2)] by blast
  obtain jt where "time_doc (b_CreatedAt b) = Some jt" using time_back [OF assms(3)] by blast
  with es ms show ?thesis
    by (simp add: Marshal_def marshal_doc_def batch_doc_def object_def omitempty_def nonempty_def always_def)
qed

lemma sample_batch: "\<exists>b w1. new_batch calm_json sample_transport start = (b, w1) \<and> b_CreatedAt b = 3 \<and> b_Metrics b = [] \<and> http_trace w1 = []"
  by (simp add: new_batch_def gen_batchID_def gen_randomHex_def now_def Let_def calm_json_simps start_def observe_def)
     (simp add: calm_json_def calm_def)

lemma sample_plain_send:
  obtains r t' w' rq a where "sendItems calm_json Background event_batches [sample_event] sample_transport start = (r, t', w')"
    "(rq, a) \<in> set (new_requests start w')"
proof -
  obtain b w1 where b: "new_batch calm_json sample_transport start = (b, w1)" "b_CreatedAt b = 3" "b_Metrics b = []" "http_trace w1 = []"
    using sample_batch by blast
  let ?b = "b\<lparr>b_Events := [sample_event]\<rparr>"
  have "civil_year 0 = (1, 0)" by (simp add: civil_year_def)
  then have "json_time 3 \<noteq> None" by (simp add: json_time_def)
  with b sample_storable obtain raw where "Marshal (marshal_any calm) (JBatch ?b) = Some raw"
    using batch_written [of ?b] by auto
  moreover have "redactBatch calm_json ?b hs = ?b" for hs
    by (simp add: redactBatch_def b(3) redactEventMetadata_def sample_event_def)
  ultimately have m: "marshalBatch calm_json sample_transport (bk_put event_batches [sample_event] b) = Inr raw"
    by (simp add: marshalBatch_def event_batches_def calm_json_def willCompress_def sample_simps or_err_def)
  obtain e t2 w2 where s: "sendBatch calm_json Background eventsPath raw True sample_transport w1 = (Inr (outcomePartial, Some e), t2, w2)"
    "length (http_trace w2) = 1" "as_tooLarge e = None"
    using sample_post [of eventsPath raw None w1] b(4) by (auto simp: sample_simps)
  have "sendItems calm_json Background event_batches [sample_event] sample_transport start = (Inr (outcomePartial, Some e), t2, w2)"
    unfolding sendItems.simps [of calm_json Background event_batches "[sample_event]"] sample_plain
    using m s b(1) by (simp add: event_batches_def)
  moreover have "length (new_requests start w2) = 1" using s(2) by (simp add: new_requests_def start_def)
  then obtain q where "q \<in> set (new_requests start w2)" by (cases "new_requests start w2") auto
  ultimately show thesis using that by (cases q) blast
qed


lemma sample_encrypted_send:
  obtains r t' w' rq a where "sendItems calm_json Background event_batches [sample_event]
      (sample_transport\<lparr>encryptor := Some \<lparr>aead = ''k''\<rparr>\<rparr>) start = (r, t', w')" "(rq, a) \<in> set (new_requests start w')"
proof -
  let ?t = "sample_transport\<lparr>encryptor := Some \<lparr>aead = ''k''\<rparr>\<rparr>" and ?p = "\<lparr>aead = ''k''\<rparr>"
  have "list_all storable_event [sample_event]" using sample_storable by simp
  from events_back [OF this, of "marshal_any calm"] obtain js where
    js: "those (map (event_doc (marshal_any calm)) [sample_event]) = Some js" "list_all sound js" by blast
  obtain vs where vs: "Option.bind (decode_first (write_json go_string (JsArr js))) (any_of text_number) = Some (GSlice vs)"
    by (rule generic_items [OF js])
  have e: "jsonMarshal calm_json (JEvents [sample_event]) = Inr (write_json go_string (JsArr js))"
    using js(1) by (simp add: calm_json_def Marshal_def marshal_doc_def del: list.map)
  have "decodeGenericJSON calm_json (write_json go_string (JsArr js)) = Inr (GSlice vs)"
    using vs by (simp add: calm_json_def with_json_def)
  with e have c: "canonicalItemsJSON calm_json [sample_event] [] = Inr [(''events'', GSlice vs), (''metrics'', GSlice [])]"
    by (simp add: canonicalItemsJSON_def)
  obtain payload w1 where n: "Encrypt calm_json ?p [(''events'', GSlice vs), (''metrics'', GSlice [])] [] start = (Inr payload, w1)"
    by (auto simp: Encrypt_def calm_json_simps)
  have w1: "http_trace w1 = []" using Encrypt_world [OF n] by (simp add: start_def)
  obtain bid w2 where g: "gen_batchID calm_json w1 = (bid, w2)" by fastforce
  have w2: "http_trace w2 = []" using gen_batchID_world [OF g] w1 by simp
  have "\<exists>raw. jsonMarshal calm_json (JEnvelope env) = Inr raw" for env
    by (simp add: calm_json_def Marshal_def marshal_doc_def envelope_doc_def object_def omitempty_def nonempty_def always_def)
  then obtain raw where m: "jsonMarshal calm_json (JEnvelope \<lparr>e_EncryptedPayload = payload, e_BatchID = bid,
      e_AgentVersion = Version, e_GuardVersion = GuardVersion (t_cfg ?t), e_GuardCoreVersion = GuardCoreVersion (t_cfg ?t)\<rparr>) = Inr raw"
    by blast
  obtain err t3 w3 where s: "sendBatch calm_json Background encryptedPath raw True ?t w2 = (Inr (outcomePartial, Some err), t3, w3)"
    "length (http_trace w3) = 1" "as_tooLarge err = None"
    using sample_post [of encryptedPath raw "Some ?p" w2] w2 by auto
  have k: "encryptor ?t = Some ?p" by simp
  have "sendItems calm_json Background event_batches [sample_event] ?t start = (Inr (outcomePartial, Some err), t3, w3)"
    unfolding sendItems.simps [of calm_json Background event_batches "[sample_event]"] k
    using c n g m s by (simp add: sendEncryptedBatch_def event_batches_def Let_def)
  moreover have "length (new_requests start w3) = 1" using s(2) by (simp add: new_requests_def start_def)
  then obtain q where "q \<in> set (new_requests start w3)" by (cases "new_requests start w3") auto
  ultimately show thesis using that by (cases q) blast
qed


end
